(* ===== verification/Prelude.thy ===== *)
theory Prelude
  imports Main "HOL-Library.Word"
begin

text \<open>
  What every component of the library shares: the machine integer types of \<open>types.h\<close>, the
  result type that makes each \<open>panic\<close> and each wait of the kernel a value, little-endian byte
  encodings of machine words, a byte-addressed memory, and generic facts on lists and words.
\<close>

unbundle bit_operations_syntax

section \<open>Machine integers\<close>

type_synonym u8 = "8 word"
type_synonym u16 = "16 word"
type_synonym u32 = "32 word"
type_synonym u64 = "64 word"

lemma unat_u32_less [simp]: "unat (w :: u32) < 4294967296"
proof -
  have "unat w < 2 ^ LENGTH(32)" by (rule unsigned_less)
  then show ?thesis by simp
qed

lemma unat_u8_less [simp]: "unat (m :: u8) < 256"
proof -
  have "unat m < 2 ^ LENGTH(8)" by (rule unsigned_less)
  then show ?thesis by simp
qed

lemma ucast_ucast_u8 [simp]: "(ucast (ucast (m :: u8) :: u32) :: u8) = m"
  by (rule bit_word_eqI) (simp add: bit_simps)

lemma unat_ucast_u8 [simp]: "unat (ucast (m :: u8) :: u32) = unat m"
  using unat_u8_less [of m] by (simp add: unsigned_ucast_eq take_bit_nat_eq_self del: unat_u8_less)

lemma and_0xFF: "w AND 0xFF = take_bit 8 (w :: u32)"
  by (simp add: take_bit_eq_mask mask_eq_exp_minus_1)

section \<open>Results of kernel code\<close>

text \<open>
  \<open>Ok\<close> is a normal return, \<open>Panic\<close> a call of \<open>panic\<close> with its message, and \<open>Blocks\<close> a thread
  that goes to sleep (the string names the lock or condition it waits for).  \<open>Undef\<close> is C
  behaviour the language leaves undefined: an access outside an array or a read of an
  uninitialised local.
\<close>

datatype 'a res = Ok 'a | Panic string | Blocks string | Undef string

primrec bindr :: "'a res \<Rightarrow> ('a \<Rightarrow> 'b res) \<Rightarrow> 'b res" where
  "bindr (Ok x) f = f x"
| "bindr (Panic e) f = Panic e"
| "bindr (Blocks c) f = Blocks c"
| "bindr (Undef u) f = Undef u"

lemma bindr_Ok_iff [simp]: "bindr m f = Ok y \<longleftrightarrow> (\<exists>x. m = Ok x \<and> f x = Ok y)"
  by (cases m) auto

lemma bindr_assoc: "bindr (bindr m f) g = bindr m (\<lambda>x. bindr (f x) g)"
  by (cases m) auto

lemma bindr_Ok_right [simp]: "bindr m Ok = m"
  by (cases m) auto

lemma bindr_cong [fundef_cong]:
  "m = m' \<Longrightarrow> (\<And>x. m' = Ok x \<Longrightarrow> f x = f' x) \<Longrightarrow> bindr m f = bindr m' f'"
  by (cases m') auto

text \<open>An array access that makes an index outside the array explicit.\<close>

definition idx :: "'a list \<Rightarrow> nat \<Rightarrow> 'a res" where
  "idx xs i = (if i < length xs then Ok (xs ! i) else Undef ''index'')"

lemma idx_Ok_iff [simp]: "idx xs i = Ok x \<longleftrightarrow> i < length xs \<and> x = xs ! i"
  by (auto simp: idx_def)

lemma idx_in [simp]: "i < length xs \<Longrightarrow> idx xs i = Ok (xs ! i)"
  by (simp add: idx_def)

text \<open>A counting loop whose body updates the state and may fail.\<close>

primrec for_each :: "('a \<Rightarrow> 's \<Rightarrow> 's res) \<Rightarrow> 'a list \<Rightarrow> 's \<Rightarrow> 's res" where
  "for_each body [] s = Ok s"
| "for_each body (x # xs) s = bindr (body x s) (for_each body xs)"

lemma for_each_append: "for_each f (xs @ ys) s = bindr (for_each f xs s) (for_each f ys)"
  by (induction xs arbitrary: s) (auto simp: bindr_assoc intro!: bindr_cong)

text \<open>The loop rule: an invariant indexed by the part of the list already handled.\<close>

lemma for_each_rule:
  assumes "I [] s"
    and "\<And>us x vs s. xs = us @ x # vs \<Longrightarrow> I us s \<Longrightarrow> \<exists>s'. f x s = Ok s' \<and> I (us @ [x]) s'"
  shows "\<exists>s'. for_each f xs s = Ok s' \<and> I xs s'"
proof -
  have "\<exists>s'. for_each f vs s = Ok s' \<and> I xs s'" if "xs = us @ vs" "I us s" for us vs s
    using that
  proof (induction vs arbitrary: us s)
    case (Cons v vs)
    then obtain s1 where "f v s = Ok s1" "I (us @ [v]) s1" using assms(2) [of us v vs s] by blast
    then show ?case using Cons.IH [of "us @ [v]" s1] Cons.prems by simp
  qed simp
  from this [of "[]" xs s] show ?thesis using assms(1) by simp
qed

lemma upt_split:
  assumes "[0..<n] = us @ i # vs"
  shows "us = [0..<i] \<and> i < n"
proof -
  have k: "length us < n" using arg_cong [OF assms, of length] by simp
  then have "i = length us" using arg_cong [OF assms, of "\<lambda>xs. xs ! length us"] by simp
  moreover have "us = take (length us) [0..<n]" using assms by simp
  ultimately show ?thesis using k by (simp add: take_upt)
qed

section \<open>Little-endian encodings\<close>

definition byte_of :: "nat \<Rightarrow> 'a::len word \<Rightarrow> u8" where
  "byte_of k w = ucast (drop_bit (8 * k) w)"

definition join16 :: "u8 \<Rightarrow> u8 \<Rightarrow> u16" where
  "join16 a b = ucast a OR push_bit 8 (ucast b)"

definition join32 :: "u8 \<Rightarrow> u8 \<Rightarrow> u8 \<Rightarrow> u8 \<Rightarrow> u32" where
  "join32 a b c d =
     ucast a OR push_bit 8 (ucast b) OR push_bit 16 (ucast c) OR push_bit 24 (ucast d)"

definition le16 :: "u16 \<Rightarrow> u8 list" where
  "le16 w = [byte_of 0 w, byte_of 1 w]"

definition le32 :: "u32 \<Rightarrow> u8 list" where
  "le32 w = [byte_of 0 w, byte_of 1 w, byte_of 2 w, byte_of 3 w]"

lemma not_bit_u8 [simp]: "8 \<le> n \<Longrightarrow> \<not> bit (a::u8) n"
  using bit_imp_le_length [of a n] by auto

lemma join16_byte_of [simp]: "join16 (byte_of 0 w) (byte_of 1 w) = w"
  by (rule bit_word_eqI) (auto simp: join16_def byte_of_def bit_simps)

lemma join32_byte_of [simp]:
  "join32 (byte_of 0 w) (byte_of 1 w) (byte_of 2 w) (byte_of 3 w) = w"
proof (rule bit_word_eqI)
  fix n
  assume n: "n < LENGTH(32)"
  consider "n < 8" | "8 \<le> n" "n < 16" | "16 \<le> n" "n < 24" | "24 \<le> n" by linarith
  then show "bit (join32 (byte_of 0 w) (byte_of 1 w) (byte_of 2 w) (byte_of 3 w)) n = bit w n"
    using n by cases (auto simp: join32_def byte_of_def bit_simps)
qed

lemma byte_of_join16 [simp]:
  "byte_of 0 (join16 a b) = a" "byte_of 1 (join16 a b) = b"
  by (rule bit_word_eqI; auto simp: join16_def byte_of_def bit_simps)+

lemma byte_of_join32 [simp]:
  "byte_of 0 (join32 a b c d) = a" "byte_of 1 (join32 a b c d) = b"
  "byte_of 2 (join32 a b c d) = c" "byte_of 3 (join32 a b c d) = d"
  by (rule bit_word_eqI; auto simp: join32_def byte_of_def bit_simps)+

lemma join32_sum:
  "join32 a b c d = push_bit 24 (ucast d) + push_bit 16 (ucast c) + push_bit 8 (ucast b) + ucast a"
proof -
  let ?d = "push_bit 24 (ucast d) :: u32" and ?c = "push_bit 16 (ucast c) :: u32"
    and ?b = "push_bit 8 (ucast b) :: u32" and ?a = "ucast a :: u32"
  have "?d AND ?c = 0" "(?d OR ?c) AND ?b = 0" "(?d OR ?c OR ?b) AND ?a = 0"
    by (rule bit_word_eqI; auto simp: bit_simps)+
  then have "?d + ?c + ?b + ?a = ?d OR ?c OR ?b OR ?a"
    by (simp add: disjunctive_add_eq_or or.assoc)
  also have "\<dots> = join32 a b c d"
    by (simp add: join32_def ac_simps)
  finally show ?thesis by (rule sym)
qed

lemmas byte_of_join_Suc [simp] =
  join16_byte_of [unfolded One_nat_def] join32_byte_of [unfolded One_nat_def]
  byte_of_join16 [unfolded One_nat_def] byte_of_join32 [unfolded One_nat_def]

lemma length_le16 [simp]: "length (le16 w) = 2"
  by (simp add: le16_def)

lemma length_le32 [simp]: "length (le32 w) = 4"
  by (simp add: le32_def)

lemma le16_inject [simp]: "le16 v = le16 w \<longleftrightarrow> v = w"
proof
  assume "le16 v = le16 w"
  then have "join16 (byte_of 0 v) (byte_of 1 v) = join16 (byte_of 0 w) (byte_of 1 w)"
    by (simp add: le16_def)
  then show "v = w" by simp
qed simp

lemma le32_inject [simp]: "le32 v = le32 w \<longleftrightarrow> v = w"
proof
  assume "le32 v = le32 w"
  then have "join32 (byte_of 0 v) (byte_of 1 v) (byte_of 2 v) (byte_of 3 v) =
    join32 (byte_of 0 w) (byte_of 1 w) (byte_of 2 w) (byte_of 3 w)"
    by (simp add: le32_def)
  then show "v = w" by simp
qed simp

section \<open>Byte-addressed memory\<close>

type_synonym mem = "u32 \<Rightarrow> u8"

definition load32 :: "mem \<Rightarrow> u32 \<Rightarrow> u32" where
  "load32 m a = join32 (m a) (m (a + 1)) (m (a + 2)) (m (a + 3))"

definition store32 :: "mem \<Rightarrow> u32 \<Rightarrow> u32 \<Rightarrow> mem" where
  "store32 m a w =
     m(a := byte_of 0 w, a + 1 := byte_of 1 w, a + 2 := byte_of 2 w, a + 3 := byte_of 3 w)"

primrec store_bytes :: "mem \<Rightarrow> u32 \<Rightarrow> u8 list \<Rightarrow> mem" where
  "store_bytes m a [] = m"
| "store_bytes m a (b # bs) = store_bytes (m(a := b)) (a + 1) bs"

definition load_bytes :: "mem \<Rightarrow> u32 \<Rightarrow> nat \<Rightarrow> u8 list" where
  "load_bytes m a n = map (\<lambda>i. m (a + of_nat i)) [0..<n]"

text \<open>
  The offset of an address in the region that starts at \<open>a\<close>; an address is in the region of
  \<open>n\<close> bytes when its offset is below \<open>n\<close>, also where the region wraps around.
\<close>

definition off :: "u32 \<Rightarrow> u32 \<Rightarrow> nat" where
  "off a x = unat (x - a)"

lemma off_self [simp]: "off a a = 0"
  by (simp add: off_def)

lemma off_zero_iff [simp]: "off a x = 0 \<longleftrightarrow> x = a"
  by (simp add: off_def unat_eq_0)

lemma off_Suc: "x \<noteq> a \<Longrightarrow> off (a + 1) x = off a x - 1"
proof -
  assume "x \<noteq> a"
  then have "x - a \<noteq> 0" by simp
  then have "unat (x - a - 1) = unat (x - a) - 1"
    by (simp add: unat_minus_one)
  then show ?thesis by (simp add: off_def diff_diff_eq)
qed

lemma off_add [simp]: "n < 2 ^ 32 \<Longrightarrow> off a (a + of_nat n) = n"
  by (simp add: off_def unat_of_nat)

lemma add_off [simp]: "a + of_nat (off a x) = x"
  by (simp add: off_def)

lemma off_less: "off a x < 2 ^ 32"
  using unsigned_less [of "x - a"] by (simp add: off_def)

lemma store_bytes_apply:
  "length bs \<le> 2 ^ 32 \<Longrightarrow>
   store_bytes m a bs x = (if off a x < length bs then bs ! off a x else m x)"
proof (induction bs arbitrary: m a)
  case Nil
  then show ?case by simp
next
  case (Cons b bs)
  show ?case
  proof (cases "x = a")
    case True
    have "\<not> off (a + 1) a < length bs"
      using Cons.prems by (simp add: off_def unsigned_minus_1_eq_mask mask_eq_exp_minus_1)
    with Cons True show ?thesis by simp
  next
    case False
    then obtain k where "off a x = Suc k" by (cases "off a x") auto
    with Cons False show ?thesis by (simp add: off_Suc)
  qed
qed

lemma load_bytes_nth [simp]: "i < n \<Longrightarrow> load_bytes m a n ! i = m (a + of_nat i)"
  by (simp add: load_bytes_def)

lemma length_load_bytes [simp]: "length (load_bytes m a n) = n"
  by (simp add: load_bytes_def)

lemma load_store_bytes:
  "length bs \<le> 2 ^ 32 \<Longrightarrow> load_bytes (store_bytes m a bs) a (length bs) = bs"
  by (rule nth_equalityI) (auto simp: store_bytes_apply)

lemma store32_bytes: "store32 m a w = store_bytes m a (le32 w)"
  by (simp add: store32_def le32_def add.assoc)

lemma load32_store32 [simp]: "load32 (store32 m a w) a = w"
proof -
  have "a \<noteq> a + 1" "a \<noteq> a + 2" "a \<noteq> a + 3" "a + 1 \<noteq> a + 2" "a + 1 \<noteq> a + 3" "a + 2 \<noteq> a + 3"
    by simp_all
  then show ?thesis by (simp add: load32_def store32_def)
qed

lemma store32_other: "4 \<le> off a x \<Longrightarrow> store32 m a w x = m x"
  by (simp add: store32_bytes store_bytes_apply)

end
