(* ===== verification/Sleeplock.thy ===== *)
theory Sleeplock
  imports Prelude
begin

text \<open>
  Sleeping locks, \<open>sleeplock.c\<close>.  The inner spinlock makes each operation one atomic section.
  \<open>acquiresleep\<close> on a taken lock puts the process to sleep: that section is the result \<open>Blocks\<close>,
  and the process retries the same section when it is woken.
\<close>

section \<open>Definitions\<close>

record sleeplock =
  sl_locked :: bool
  sl_pid :: u32

definition initsleeplock :: sleeplock where
  "initsleeplock = \<lparr>sl_locked = False, sl_pid = 0\<rparr>"

definition acquiresleep :: "u32 \<Rightarrow> sleeplock \<Rightarrow> sleeplock res" where
  "acquiresleep mypid lk =
     (if sl_locked lk then Blocks ''acquiresleep''
      else Ok (lk\<lparr>sl_locked := True, sl_pid := mypid\<rparr>))"

definition releasesleep :: "sleeplock \<Rightarrow> sleeplock" where
  "releasesleep lk = lk\<lparr>sl_locked := False, sl_pid := 0\<rparr>"

definition holdingsleep :: "sleeplock \<Rightarrow> bool" where
  "holdingsleep lk = sl_locked lk"

section \<open>Properties\<close>

lemma acquiresleep_Ok_iff [simp]:
  "acquiresleep p lk = Ok lk' \<longleftrightarrow> \<not> sl_locked lk \<and> lk' = lk\<lparr>sl_locked := True, sl_pid := p\<rparr>"
  by (auto simp: acquiresleep_def)

lemma sleeplock_simps [simp]:
  "sl_locked (releasesleep lk) = False"
  "sl_locked initsleeplock = False"
  "holdingsleep lk = sl_locked lk"
  by (simp_all add: releasesleep_def initsleeplock_def holdingsleep_def)

end
