(* ===== verification/Memide.thy ===== *)
theory Memide
  imports Sleeplock
begin

text \<open>
  Disk buffers (\<open>buf.h\<close>) and the disk driver that keeps the disk in memory (\<open>memide.c\<close>).  The disk
  is cut into its blocks: \<open>memdisk st n\<close> is \<open>memdisk[n * BSIZE ..]\<close>.  \<open>written\<close> records the block
  writes in the order the driver performs them; a machine that stops between two of them has a
  prefix of this sequence on its disk.  The state is an open record, which the buffer cache, the log
  and the file system extend with their own variables.
\<close>

unbundle bit_operations_syntax

section \<open>Definitions\<close>

type_synonym block = "u8 list"

abbreviation BSIZE :: nat where "BSIZE \<equiv> 512"

abbreviation B_VALID :: u32 where "B_VALID \<equiv> 0x2"
abbreviation B_DIRTY :: u32 where "B_DIRTY \<equiv> 0x4"

record buf =
  b_flags :: u32
  b_dev :: u32
  b_blockno :: u32
  b_lock :: sleeplock
  b_refcnt :: u32
  b_prev :: nat
  b_next :: nat
  b_data :: block

record bstate =
  bufs :: "nat \<Rightarrow> buf"
  memdisk :: "u32 \<Rightarrow> block"
  disksize :: u32
  written :: "(u32 \<times> block) list"
  mypid :: u32

definition ideinit :: "u8 list \<Rightarrow> 'a bstate_scheme \<Rightarrow> 'a bstate_scheme" where
  "ideinit img st =
     st\<lparr>memdisk := \<lambda>n. take BSIZE (drop (unat n * BSIZE) img),
        disksize := of_nat (length img div BSIZE), written := []\<rparr>"

definition iderw :: "'a bstate_scheme \<Rightarrow> nat \<Rightarrow> 'a bstate_scheme res" where
  "iderw st b =
     (let x = bufs st b in
      if \<not> holdingsleep (b_lock x) then Panic ''iderw: buf not locked''
      else if b_flags x AND (B_VALID OR B_DIRTY) = B_VALID then Panic ''iderw: nothing to do''
      else if b_dev x \<noteq> 1 then Panic ''iderw: request not for disk 1''
      else if b_blockno x \<ge> disksize st then Panic ''iderw: block out of range''
      else if b_flags x AND B_DIRTY \<noteq> 0
        then Ok (st\<lparr>memdisk := (memdisk st)(b_blockno x := b_data x),
                    written := written st @ [(b_blockno x, b_data x)],
                    bufs := (bufs st)(b := x\<lparr>b_flags := (b_flags x AND NOT B_DIRTY) OR B_VALID\<rparr>)\<rparr>)
        else Ok (st\<lparr>bufs := (bufs st)(b := x\<lparr>b_data := memdisk st (b_blockno x),
                                            b_flags := b_flags x OR B_VALID\<rparr>)\<rparr>))"

section \<open>Properties\<close>

subsection \<open>Flags\<close>

definition is_valid :: "buf \<Rightarrow> bool" where
  "is_valid x \<longleftrightarrow> b_flags x AND B_VALID \<noteq> 0"

definition is_dirty :: "buf \<Rightarrow> bool" where
  "is_dirty x \<longleftrightarrow> b_flags x AND B_DIRTY \<noteq> 0"

lemma and_exp: "f AND 2 ^ n = (if bit (f :: u32) n then 2 ^ n else 0)"
  by (rule bit_eqI) (auto simp: bit_simps)

lemma and_2: "f AND 2 = (if bit (f :: u32) 1 then 2 else 0)"
  using and_exp [of f 1] by simp

lemma and_4: "f AND 4 = (if bit (f :: u32) 2 then 4 else 0)"
  using and_exp [of f 2] by simp

lemma is_valid_bit: "is_valid x \<longleftrightarrow> bit (b_flags x) 1"
  by (simp add: is_valid_def and_2)

lemma is_dirty_bit: "is_dirty x \<longleftrightarrow> bit (b_flags x) 2"
  by (simp add: is_dirty_def and_4)

lemma valid_only_iff: "b_flags x AND (B_VALID OR B_DIRTY) = B_VALID \<longleftrightarrow> is_valid x \<and> \<not> is_dirty x"
  unfolding bit.conj_disj_distrib and_2 and_4 is_valid_bit is_dirty_bit by auto

lemma bit_2_iff: "bit (2 :: u32) n \<longleftrightarrow> n = 1"
  using bit_exp_iff [of 1 n, where 'a = u32] by auto

lemma bit_4_iff: "bit (4 :: u32) n \<longleftrightarrow> n = 2"
  using bit_exp_iff [of 2 n, where 'a = u32] by auto

lemma set_valid [simp]:
  "is_valid (x\<lparr>b_flags := f OR B_VALID\<rparr>)"
  "is_dirty (x\<lparr>b_flags := f OR B_VALID\<rparr>) \<longleftrightarrow> is_dirty (x\<lparr>b_flags := f\<rparr>)"
  by (simp_all add: is_valid_bit is_dirty_bit bit_or_iff bit_2_iff)

lemma set_dirty [simp]:
  "is_dirty (x\<lparr>b_flags := f OR B_DIRTY\<rparr>)"
  "is_valid (x\<lparr>b_flags := f OR B_DIRTY\<rparr>) \<longleftrightarrow> is_valid (x\<lparr>b_flags := f\<rparr>)"
  by (simp_all add: is_valid_bit is_dirty_bit bit_or_iff bit_4_iff)

lemma clear_dirty [simp]:
  "\<not> is_dirty (x\<lparr>b_flags := f AND NOT B_DIRTY\<rparr>)"
  "is_valid (x\<lparr>b_flags := f AND NOT B_DIRTY\<rparr>) \<longleftrightarrow> is_valid (x\<lparr>b_flags := f\<rparr>)"
  by (simp_all add: is_valid_bit is_dirty_bit bit_and_iff bit_not_iff bit_4_iff)

lemma no_flags [simp]: "\<not> is_dirty (x\<lparr>b_flags := 0\<rparr>)" "\<not> is_valid (x\<lparr>b_flags := 0\<rparr>)"
  by (simp_all add: is_valid_bit is_dirty_bit)

end
