(* ===== verification/Bio.thy ===== *)
theory Bio
  imports Memide
begin

text \<open>
  The buffer cache, \<open>bio.c\<close>: \<open>NBUF\<close> buffers on a doubly linked list through \<open>prev\<close> and \<open>next\<close>, the most
  recently used first.  Buffer \<open>i\<close> is \<open>bcache.buf[i]\<close> for \<open>i < NBUF\<close>, and index \<open>NBUF\<close> is
  \<open>bcache.head\<close>.  The loops along the list are written as the code has them, so that they
  return only when the list closes.
\<close>

section \<open>Definitions\<close>

abbreviation NBUF :: nat where "NBUF \<equiv> 30"

definition push_front :: "(nat \<Rightarrow> buf) \<Rightarrow> nat \<Rightarrow> (nat \<Rightarrow> buf)" where
  "push_front bs b =
     (let bs = bs(b := (bs b)\<lparr>b_next := b_next (bs NBUF)\<rparr>);
          bs = bs(b := (bs b)\<lparr>b_prev := NBUF\<rparr>);
          n = b_next (bs NBUF);
          bs = bs(n := (bs n)\<lparr>b_prev := b\<rparr>)
      in bs(NBUF := (bs NBUF)\<lparr>b_next := b\<rparr>))"

definition unlink_buf :: "(nat \<Rightarrow> buf) \<Rightarrow> nat \<Rightarrow> (nat \<Rightarrow> buf)" where
  "unlink_buf bs b =
     (let n = b_next (bs b);
          bs = bs(n := (bs n)\<lparr>b_prev := b_prev (bs b)\<rparr>);
          p = b_prev (bs b)
      in bs(p := (bs p)\<lparr>b_next := b_next (bs b)\<rparr>))"

primrec binit_loop :: "nat list \<Rightarrow> (nat \<Rightarrow> buf) \<Rightarrow> (nat \<Rightarrow> buf)" where
  "binit_loop [] bs = bs"
| "binit_loop (b # rest) bs =
     binit_loop rest (push_front (bs(b := (bs b)\<lparr>b_lock := initsleeplock\<rparr>)) b)"

definition binit :: "'a bstate_scheme \<Rightarrow> 'a bstate_scheme" where
  "binit st =
     (let h = (bufs st NBUF)\<lparr>b_prev := NBUF, b_next := NBUF\<rparr>
      in st\<lparr>bufs := binit_loop [0..<NBUF] ((bufs st)(NBUF := h))\<rparr>)"

partial_function (option) scan_next :: "(nat \<Rightarrow> buf) \<Rightarrow> (buf \<Rightarrow> bool) \<Rightarrow> nat \<Rightarrow> nat option option" where
  "scan_next bs p b =
     (if b = NBUF then Some None
      else if p (bs b) then Some (Some b)
      else scan_next bs p (b_next (bs b)))"

partial_function (option) scan_prev :: "(nat \<Rightarrow> buf) \<Rightarrow> (buf \<Rightarrow> bool) \<Rightarrow> nat \<Rightarrow> nat option option" where
  "scan_prev bs p b =
     (if b = NBUF then Some None
      else if p (bs b) then Some (Some b)
      else scan_prev bs p (b_prev (bs b)))"

definition lock_buf :: "'a bstate_scheme \<Rightarrow> nat \<Rightarrow> 'a bstate_scheme res" where
  "lock_buf st b =
     bindr (acquiresleep (mypid st) (b_lock (bufs st b)))
       (\<lambda>lk. Ok (st\<lparr>bufs := (bufs st)(b := (bufs st b)\<lparr>b_lock := lk\<rparr>)\<rparr>))"

definition bget :: "'a bstate_scheme \<Rightarrow> u32 \<Rightarrow> u32 \<Rightarrow> (nat \<times> 'a bstate_scheme) res" where
  "bget st d n =
     (case scan_next (bufs st) (\<lambda>x. b_dev x = d \<and> b_blockno x = n) (b_next (bufs st NBUF)) of
        None \<Rightarrow> Undef ''endless list''
      | Some (Some b) \<Rightarrow>
          let st = st\<lparr>bufs := (bufs st)(b := (bufs st b)\<lparr>b_refcnt := b_refcnt (bufs st b) + 1\<rparr>)\<rparr>
          in bindr (lock_buf st b) (\<lambda>st. Ok (b, st))
      | Some None \<Rightarrow>
          (case scan_prev (bufs st) (\<lambda>x. b_refcnt x = 0 \<and> b_flags x AND B_DIRTY = 0) (b_prev (bufs st NBUF)) of
             None \<Rightarrow> Undef ''endless list''
           | Some (Some b) \<Rightarrow>
               let x = (bufs st b)\<lparr>b_dev := d, b_blockno := n, b_flags := 0, b_refcnt := 1\<rparr>;
                   st = st\<lparr>bufs := (bufs st)(b := x)\<rparr>
               in bindr (lock_buf st b) (\<lambda>st. Ok (b, st))
           | Some None \<Rightarrow> Panic ''bget: no buffers''))"

definition bread :: "'a bstate_scheme \<Rightarrow> u32 \<Rightarrow> u32 \<Rightarrow> (nat \<times> 'a bstate_scheme) res" where
  "bread st d n =
     bindr (bget st d n)
       (\<lambda>(b, st). if b_flags (bufs st b) AND B_VALID = 0
                   then bindr (iderw st b) (\<lambda>st. Ok (b, st))
                   else Ok (b, st))"

definition bwrite :: "'a bstate_scheme \<Rightarrow> nat \<Rightarrow> 'a bstate_scheme res" where
  "bwrite st b =
     (if \<not> holdingsleep (b_lock (bufs st b)) then Panic ''bwrite''
      else let x = bufs st b
           in iderw (st\<lparr>bufs := (bufs st)(b := x\<lparr>b_flags := b_flags x OR B_DIRTY\<rparr>)\<rparr>) b)"

definition brelse :: "'a bstate_scheme \<Rightarrow> nat \<Rightarrow> 'a bstate_scheme res" where
  "brelse st b =
     (if \<not> holdingsleep (b_lock (bufs st b)) then Panic ''brelse''
      else let x = bufs st b;
               x = x\<lparr>b_lock := releasesleep (b_lock x)\<rparr>;
               x = x\<lparr>b_refcnt := b_refcnt x - 1\<rparr>;
               bs = (bufs st)(b := x)
           in Ok (st\<lparr>bufs := if b_refcnt x = 0 then push_front (unlink_buf bs b) b else bs\<rparr>))"

text \<open>Code outside the cache writes to the data of a buffer it holds.\<close>

definition set_data :: "'a bstate_scheme \<Rightarrow> nat \<Rightarrow> block \<Rightarrow> 'a bstate_scheme" where
  "set_data st b d = st\<lparr>bufs := (bufs st)(b := (bufs st b)\<lparr>b_data := d\<rparr>)\<rparr>"

section \<open>The list of buffers\<close>

fun linked :: "(nat \<Rightarrow> buf) \<Rightarrow> nat list \<Rightarrow> bool" where
  "linked bs (x # y # zs) \<longleftrightarrow> b_next (bs x) = y \<and> b_prev (bs y) = x \<and> linked bs (y # zs)"
| "linked bs _ \<longleftrightarrow> True"

definition lru :: "(nat \<Rightarrow> buf) \<Rightarrow> nat list \<Rightarrow> bool" where
  "lru bs xs \<longleftrightarrow> linked bs (NBUF # xs @ [NBUF]) \<and> distinct xs \<and> NBUF \<notin> set xs"

lemma linked_append:
  "linked bs (xs @ y # zs) \<longleftrightarrow> linked bs (xs @ [y]) \<and> linked bs (y # zs)"
  by (induction bs xs rule: linked.induct) auto

lemma linked_next: "linked bs (xs @ x # y # zs) \<Longrightarrow> b_next (bs x) = y"
  by (simp add: linked_append [of bs xs x "y # zs"])

lemma linked_prev: "linked bs (xs @ x # y # zs) \<Longrightarrow> b_prev (bs y) = x"
  by (simp add: linked_append [of bs xs x "y # zs"])

lemma linked_cong:
  "(\<And>x. x \<in> set xs \<Longrightarrow> b_next (bs' x) = b_next (bs x) \<and> b_prev (bs' x) = b_prev (bs x)) \<Longrightarrow>
   linked bs' xs \<longleftrightarrow> linked bs xs"
  by (induction bs xs rule: linked.induct) auto

lemma lru_cong:
  "(\<And>x. b_next (bs' x) = b_next (bs x) \<and> b_prev (bs' x) = b_prev (bs x)) \<Longrightarrow> lru bs' xs \<longleftrightarrow> lru bs xs"
  unfolding lru_def using linked_cong [of "NBUF # xs @ [NBUF]" bs' bs] by blast

lemma unlink_buf_apply:
  assumes "b_next (bs b) \<noteq> b"
  shows "unlink_buf bs b x =
    (bs x)\<lparr>b_next := if x = b_prev (bs b) then b_next (bs b) else b_next (bs x),
           b_prev := if x = b_next (bs b) then b_prev (bs b) else b_prev (bs x)\<rparr>"
  using assms by (auto simp: unlink_buf_def Let_def)

lemma push_front_apply:
  assumes "b \<noteq> NBUF" "b_next (bs NBUF) \<noteq> b"
  shows "push_front bs b x =
    (bs x)\<lparr>b_next := if x = NBUF then b else if x = b then b_next (bs NBUF) else b_next (bs x),
           b_prev := if x = b_next (bs NBUF) then b else if x = b then NBUF else b_prev (bs x)\<rparr>"
  using assms by (auto simp: push_front_def Let_def)

lemma unlink_frame:
  assumes "linked bs A" "b \<notin> set A" "b_next (bs b) \<noteq> b"
    "b_next (bs (b_prev (bs b))) = b" "b_prev (bs (b_next (bs b))) = b"
  shows "linked (unlink_buf bs b) A"
  using assms
proof (induction bs A rule: linked.induct)
  case (1 bs x y zs)
  then have "x \<noteq> b_prev (bs b)" "y \<noteq> b_next (bs b)" by auto
  with 1 show ?case by (simp add: unlink_buf_apply)
qed auto

lemma lru_unlink:
  assumes "lru bs (us @ b # vs)"
  shows "lru (unlink_buf bs b) (us @ vs)"
proof -
  obtain p A where A: "NBUF # us = A @ [p]" by (metis list.simps(3) rev_exhaust)
  obtain n C where C: "vs @ [NBUF] = n # C" by (cases "vs @ [NBUF]") auto
  have "NBUF # (us @ b # vs) @ [NBUF] = (NBUF # us) @ b # vs @ [NBUF]" by simp
  also have "\<dots> = A @ p # b # n # C" by (simp only: A C) simp
  finally have l: "linked bs (A @ p # b # n # C)" using assms by (simp only: lru_def)
  have "b \<notin> set (NBUF # us)" "b \<notin> set (vs @ [NBUF])"
    and d: "distinct (us @ vs)" "NBUF \<notin> set (us @ vs)"
    using assms by (auto simp: lru_def)
  then have b: "b \<notin> set (A @ [p])" "b \<notin> set (n # C)" by (simp_all only: A C) simp_all
  have nb: "b_next (bs b) = n" "b_prev (bs b) = p"
    using linked_next [of bs "A @ [p]" b n C] linked_prev [of bs A p b "n # C"] l by simp_all
  have fr: "b_next (bs p) = b" "b_prev (bs n) = b"
    using linked_next [of bs A p b "n # C"] linked_prev [of bs "A @ [p]" b n C] l by simp_all
  have "linked bs (A @ [p])" "linked bs (n # C)"
    using l linked_append [of bs A p "b # n # C"] by simp_all
  with b nb fr have "linked (unlink_buf bs b) (A @ [p])" "linked (unlink_buf bs b) (n # C)"
    by (auto intro!: unlink_frame)
  moreover have "b_next (unlink_buf bs b p) = n" "b_prev (unlink_buf bs b n) = p"
    using b nb by (auto simp: unlink_buf_apply)
  ultimately have "linked (unlink_buf bs b) (A @ p # n # C)"
    by (simp add: linked_append [of _ A p "n # C"])
  moreover have "NBUF # (us @ vs) @ [NBUF] = A @ p # n # C"
  proof -
    have "NBUF # (us @ vs) @ [NBUF] = (NBUF # us) @ vs @ [NBUF]" by simp
    also have "\<dots> = A @ p # n # C" by (simp only: A C) simp
    finally show ?thesis .
  qed
  ultimately show ?thesis using d by (simp only: lru_def) simp
qed

lemma lru_push_front:
  assumes "lru bs xs" "b \<noteq> NBUF" "b \<notin> set xs"
  shows "lru (push_front bs b) (b # xs)"
proof -
  obtain n C where C: "xs @ [NBUF] = n # C" by (cases "xs @ [NBUF]") auto
  have l: "linked bs (NBUF # n # C)" using assms(1) C by (simp add: lru_def)
  then have n: "b_next (bs NBUF) = n" "b_prev (bs n) = NBUF" by simp_all
  have nb: "n \<noteq> b" 
  proof -
    have "n \<in> set (xs @ [NBUF])" by (simp add: C)
    then show ?thesis using assms by auto
  qed
  have fr: "linked (push_front bs b) (us @ [NBUF])"
    if "linked bs (us @ [NBUF])" "NBUF \<notin> set us" "b \<notin> set us" for us
    using that
  proof (induction us)
    case (Cons u us)
    show ?case
    proof (cases us)
      case Nil
      with Cons show ?thesis using assms(2) nb n by (auto simp: push_front_apply)
    next
      case (Cons v ws)
      with Cons.IH Cons.prems show ?thesis using assms(2) nb n by (auto simp: push_front_apply)
    qed
  qed simp
  have "linked bs (xs @ [NBUF])" using l C by simp
  then have "linked (push_front bs b) (xs @ [NBUF])" using assms by (intro fr) (simp_all add: lru_def)
  then have "linked (push_front bs b) (n # C)" by (simp only: C)
  moreover have "b_next (push_front bs b NBUF) = b" "b_prev (push_front bs b b) = NBUF"
    "b_next (push_front bs b b) = n" "b_prev (push_front bs b n) = b"
    using assms(2) nb n by (auto simp: push_front_apply)
  ultimately show ?thesis using assms C by (simp add: lru_def)
qed

lemma scan_next_find:
  "linked bs (xs @ [NBUF]) \<Longrightarrow> NBUF \<notin> set xs \<Longrightarrow>
   scan_next bs p (hd (xs @ [NBUF])) = Some (List.find (\<lambda>i. p (bs i)) xs)"
proof (induction xs)
  case (Cons x xs)
  then have "b_next (bs x) = hd (xs @ [NBUF])" "linked bs (xs @ [NBUF])"
    by (cases xs; simp)+
  with Cons show ?case by (simp add: scan_next.simps [of bs p x])
qed (simp add: scan_next.simps)

lemma scan_prev_find:
  "linked bs (NBUF # xs) \<Longrightarrow> NBUF \<notin> set xs \<Longrightarrow>
   scan_prev bs p (last (NBUF # xs)) = Some (List.find (\<lambda>i. p (bs i)) (rev xs))"
proof (induction xs rule: rev_induct)
  case (snoc x xs)
  obtain A y where A: "NBUF # xs = A @ [y]" by (metis list.simps(3) rev_exhaust)
  then have "linked bs (A @ y # [x])" using snoc.prems by (metis append.assoc append_Cons append_Nil)
  then have "b_prev (bs x) = y" "linked bs (NBUF # xs)"
    using linked_prev [of bs A y x "[]"] linked_append [of bs A y "[x]"] A by simp_all
  moreover have "y = last (NBUF # xs)" by (simp only: A) simp
  ultimately show ?case using snoc by (simp add: scan_prev.simps [of bs p x])
qed (simp add: scan_prev.simps)

lemma lru_scan:
  assumes "lru bs xs"
  shows "scan_next bs p (b_next (bs NBUF)) = Some (List.find (\<lambda>i. p (bs i)) xs)"
    and "scan_prev bs p (b_prev (bs NBUF)) = Some (List.find (\<lambda>i. p (bs i)) (rev xs))"
proof -
  obtain n C where C: "xs @ [NBUF] = n # C" by (cases "xs @ [NBUF]") auto
  then have "linked bs (NBUF # n # C)" using assms by (simp add: lru_def)
  then have "b_next (bs NBUF) = hd (xs @ [NBUF])" "linked bs (xs @ [NBUF])" by (simp_all add: C)
  then show "scan_next bs p (b_next (bs NBUF)) = Some (List.find (\<lambda>i. p (bs i)) xs)"
    using assms scan_next_find [of bs xs p] by (simp add: lru_def)
  obtain A y where A: "NBUF # xs = A @ [y]" by (metis list.simps(3) rev_exhaust)
  have "NBUF # xs @ [NBUF] = (NBUF # xs) @ [NBUF]" by simp
  also have "\<dots> = A @ y # [NBUF]" by (simp only: A) simp
  finally have "linked bs (A @ y # [NBUF])" using assms by (simp only: lru_def)
  then have "b_prev (bs NBUF) = y" "linked bs (NBUF # xs)"
    using linked_prev [of bs A y NBUF "[]"] linked_append [of bs A y "[NBUF]"] A by simp_all
  moreover have "y = last (NBUF # xs)" by (simp only: A) simp
  ultimately show "scan_prev bs p (b_prev (bs NBUF)) = Some (List.find (\<lambda>i. p (bs i)) (rev xs))"
    using assms scan_prev_find [of bs xs p] by (simp add: lru_def)
qed

lemma lru_binit_loop:
  "lru bs xs \<Longrightarrow> distinct ys \<Longrightarrow> NBUF \<notin> set ys \<Longrightarrow> set xs \<inter> set ys = {} \<Longrightarrow>
   lru (binit_loop ys bs) (rev ys @ xs)"
proof (induction ys arbitrary: bs xs)
  case (Cons y ys)
  have "lru (bs(y := bs y\<lparr>b_lock := initsleeplock\<rparr>)) xs" using Cons.prems(1) lru_cong [of "bs(y := bs y\<lparr>b_lock := initsleeplock\<rparr>)" bs] by simp
  then have "lru (push_front (bs(y := bs y\<lparr>b_lock := initsleeplock\<rparr>)) y) (y # xs)"
    using Cons.prems by (intro lru_push_front) auto
  then show ?case using Cons.IH [of _ "y # xs"] Cons.prems by simp
qed simp

section \<open>What the cache holds\<close>

text \<open>
  \<open>slot st i n\<close>: buffer \<open>i\<close> is the one for block \<open>n\<close>.  \<open>content st n\<close> is the block as its next reader
  sees it; \<open>held st\<close> and \<open>pinned st\<close> are the blocks whose buffers are locked and dirty.
\<close>

definition slot :: "'a bstate_scheme \<Rightarrow> nat \<Rightarrow> u32 \<Rightarrow> bool" where
  "slot st i n \<longleftrightarrow> i < NBUF \<and> b_dev (bufs st i) = 1 \<and> b_blockno (bufs st i) = n"

definition content :: "'a bstate_scheme \<Rightarrow> u32 \<Rightarrow> block" where
  "content st n =
     (case List.find (\<lambda>i. slot st i n) [0..<NBUF] of Some i \<Rightarrow> b_data (bufs st i) | None \<Rightarrow> memdisk st n)"

definition cached :: "'a bstate_scheme \<Rightarrow> u32 set" where
  "cached st = {n. \<exists>i. slot st i n}"

definition held :: "'a bstate_scheme \<Rightarrow> u32 set" where
  "held st = {n. \<exists>i. slot st i n \<and> sl_locked (b_lock (bufs st i))}"

definition pinned :: "'a bstate_scheme \<Rightarrow> u32 set" where
  "pinned st = {n. \<exists>i. slot st i n \<and> is_dirty (bufs st i)}"

definition buf_ok :: "'a bstate_scheme \<Rightarrow> nat \<Rightarrow> bool" where
  "buf_ok st i \<longleftrightarrow>
     (let x = bufs st i in
      b_refcnt x = (if sl_locked (b_lock x) then 1 else 0) \<and>
      (if b_dev x = 1
       then is_valid x \<and> b_blockno x < disksize st \<and> (sl_locked (b_lock x) \<or> is_dirty x \<or> b_data x = memdisk st (b_blockno x))
       else b_dev x = 0 \<and> \<not> is_dirty x \<and> \<not> is_valid x \<and> \<not> sl_locked (b_lock x)))"

definition bcache_ok :: "'a bstate_scheme \<Rightarrow> bool" where
  "bcache_ok st \<longleftrightarrow>
     (\<exists>xs. lru (bufs st) xs \<and> set xs = {0..<NBUF}) \<and>
     (\<forall>i<NBUF. buf_ok st i) \<and>
     (\<forall>i j n. slot st i n \<and> slot st j n \<longrightarrow> i = j)"

lemma same_cache:
  assumes "bufs st' = bufs st" "memdisk st' = memdisk st" "disksize st' = disksize st"
  shows "bcache_ok st' = bcache_ok st" "slot st' = slot st" "content st' = content st" "held st' = held st"
    "pinned st' = pinned st"
proof -
  show s: "slot st' = slot st" by (simp add: slot_def assms fun_eq_iff)
  show "bcache_ok st' = bcache_ok st" by (simp add: bcache_ok_def buf_ok_def s assms)
  show "content st' = content st" by (rule ext) (simp only: content_def s assms)
  show "held st' = held st" "pinned st' = pinned st" by (simp_all add: held_def pinned_def s assms)
qed

lemma finite_pinned: "finite (pinned st)"
  by (rule finite_subset [of _ "(\<lambda>i. b_blockno (bufs st i)) ` {0..<NBUF}"]) (auto simp: pinned_def slot_def)

lemma slot_unique: "bcache_ok st \<Longrightarrow> slot st i n \<Longrightarrow> slot st j n \<Longrightarrow> i = j"
  by (auto simp: bcache_ok_def)

lemma content_slot:
  assumes "bcache_ok st" "slot st i n"
  shows "content st n = b_data (bufs st i)"
proof -
  have "i \<in> set [0..<NBUF]" using assms(2) by (simp add: slot_def)
  then obtain j where "List.find (\<lambda>i. slot st i n) [0..<NBUF] = Some j" "slot st j n"
    using assms(2) by (cases "List.find (\<lambda>i. slot st i n) [0..<NBUF]")
      (auto simp: find_None_iff find_Some_iff simp del: upt.simps upt_conv_Cons_Cons)
  then show ?thesis using slot_unique [OF assms(1) assms(2)] by (simp add: content_def)
qed

lemma content_uncached: "n \<notin> cached st \<Longrightarrow> content st n = memdisk st n"
proof -
  assume "n \<notin> cached st"
  then have "List.find (\<lambda>i. slot st i n) [0..<NBUF] = None" by (auto simp: cached_def find_None_iff)
  then show ?thesis by (simp add: content_def)
qed

lemma held_slot: "bcache_ok st \<Longrightarrow> slot st i n \<Longrightarrow> n \<in> held st \<longleftrightarrow> sl_locked (b_lock (bufs st i))"
  by (auto simp: held_def dest: slot_unique)

lemma pinned_slot: "bcache_ok st \<Longrightarrow> slot st i n \<Longrightarrow> n \<in> pinned st \<longleftrightarrow> is_dirty (bufs st i)"
  by (auto simp: pinned_def dest: slot_unique)

lemma content_clean:
  assumes "bcache_ok st" "n \<notin> held st" "n \<notin> pinned st"
  shows "content st n = memdisk st n"
proof (cases "n \<in> cached st")
  case True
  then obtain i where i: "slot st i n" by (auto simp: cached_def)
  then have "buf_ok st i" using assms(1) by (simp add: bcache_ok_def slot_def)
  then show ?thesis using i assms held_slot [OF assms(1) i] pinned_slot [OF assms(1) i] content_slot [OF assms(1) i]
    by (simp add: buf_ok_def Let_def slot_def)
qed (rule content_uncached)

text \<open>
  One buffer changes its contents, keeps its links and serves block \<open>n\<close> afterwards: either it
  served \<open>n\<close> before, or \<open>n\<close> was not cached and the buffer was free to be recycled.
\<close>

lemma replace_buf:
  assumes ok: "bcache_ok st" and b: "b < NBUF"
    and links: "b_next x = b_next (bufs st b)" "b_prev x = b_prev (bufs st b)"
    and x: "b_dev x = 1" "b_blockno x = n"
    and free: "slot st b n \<or> n \<notin> cached st \<and> \<not> sl_locked (b_lock (bufs st b)) \<and> \<not> is_dirty (bufs st b)"
    and st': "bufs st' = (bufs st)(b := x)" "\<And>m. m \<noteq> n \<Longrightarrow> memdisk st' m = memdisk st m"
      "disksize st' = disksize st"
    and okb: "buf_ok st' b"
  shows "bcache_ok st' \<and> slot st' b n \<and>
         (\<forall>i m. m \<in> held st \<and> slot st i m \<longrightarrow> slot st' i m) \<and>
         content st' = (content st)(n := b_data x) \<and>
         held st' = (if sl_locked (b_lock x) then insert n (held st) else held st - {n}) \<and>
         pinned st' = (if is_dirty x then insert n (pinned st) else pinned st - {n})"
proof -
  have s: "slot st' i m \<longleftrightarrow> (if i = b then m = n else slot st i m)" for i m
    using b x st'(1) by (auto simp: slot_def)
  have nb: "slot st i n \<Longrightarrow> i = b" for i
    using free slot_unique [OF ok] by (auto simp: cached_def)
  obtain xs where "lru (bufs st) xs" "set xs = {0..<NBUF}" using ok by (auto simp: bcache_ok_def)
  moreover have "lru (bufs st') xs \<longleftrightarrow> lru (bufs st) xs" by (rule lru_cong) (auto simp: st' links)
  moreover have "buf_ok st' i" if "i < NBUF" for i
  proof (cases "i = b")
    case False
    have "buf_ok st i" using ok that by (simp add: bcache_ok_def)
    moreover have "b_dev (bufs st i) = 1 \<Longrightarrow> b_blockno (bufs st i) \<noteq> n"
      using nb [of i] False that by (auto simp: slot_def)
    ultimately show ?thesis using False st' by (auto simp: buf_ok_def Let_def)
  qed (simp add: okb)
  moreover have "i = j" if "slot st' i m" "slot st' j m" for i j m
    using that nb slot_unique [OF ok] by (auto simp: s split: if_splits)
  ultimately have ok': "bcache_ok st'" unfolding bcache_ok_def by blast
  have old: "\<not> sl_locked (b_lock (bufs st b)) \<and> \<not> is_dirty (bufs st b) \<and> b_data (bufs st b) = memdisk st m"
    if "slot st b m" "m \<noteq> n" for m
  proof -
    have "buf_ok st b" using ok b by (simp add: bcache_ok_def)
    then show ?thesis using free that by (auto simp: buf_ok_def Let_def slot_def)
  qed
  have c: "content st' m = ((content st)(n := b_data x)) m" for m
  proof (cases "m = n")
    case True
    then show ?thesis using content_slot [OF ok', of b n] s st'(1) by simp
  next
    case False
    show ?thesis
    proof (cases "m \<in> cached st'")
      case True
      then obtain i where "slot st' i m" by (auto simp: cached_def)
      moreover from this have "i \<noteq> b" "slot st i m" using False by (auto simp: s split: if_splits)
      ultimately show ?thesis using False content_slot [OF ok', of i m] content_slot [OF ok, of i m] st'(1) by simp
    next
      case nc: False
      have "content st m = memdisk st m"
      proof (cases "m \<in> cached st")
        case True
        then obtain i where i: "slot st i m" by (auto simp: cached_def)
        then have "i = b" using nc s by (auto simp: cached_def split: if_splits)
        then show ?thesis using old [of m] i False content_slot [OF ok] by auto
      qed (rule content_uncached)
      then show ?thesis using nc False content_uncached [of m st'] st'(2) by simp
    qed
  qed
  have sb: "slot st' b n" by (simp add: s)
  have xb: "bufs st' b = x" by (simp add: st')
  have h: "m \<in> held st' \<longleftrightarrow> (if m = n then sl_locked (b_lock x) else m \<in> held st)" for m
  proof (cases "m = n")
    case True
    then show ?thesis using held_slot [OF ok' sb] xb by simp
  next
    case False
    then have "slot st' i m \<and> sl_locked (b_lock (bufs st' i)) \<longleftrightarrow> slot st i m \<and> sl_locked (b_lock (bufs st i))" for i
      using old [of m] by (auto simp: s st')
    then show ?thesis using False by (simp add: held_def)
  qed
  have d: "m \<in> pinned st' \<longleftrightarrow> (if m = n then is_dirty x else m \<in> pinned st)" for m
  proof (cases "m = n")
    case True
    then show ?thesis using pinned_slot [OF ok' sb] xb by simp
  next
    case False
    then have "slot st' i m \<and> is_dirty (bufs st' i) \<longleftrightarrow> slot st i m \<and> is_dirty (bufs st i)" for i
      using old [of m] by (auto simp: s st')
    then show ?thesis using False by (simp add: pinned_def)
  qed
  have "slot st' i m" if "m \<in> held st" "slot st i m" for i m
    using that held_slot [OF ok that(2)] old [of m] by (auto simp: s)
  moreover have "content st' = (content st)(n := b_data x)" by (rule ext) (rule c)
  moreover have "held st' = (if sl_locked (b_lock x) then insert n (held st) else held st - {n})"
    by (rule set_eqI) (simp add: h)
  moreover have "pinned st' = (if is_dirty x then insert n (pinned st) else pinned st - {n})"
    by (rule set_eqI) (simp add: d)
  ultimately show ?thesis using ok' sb by blast
qed

lemma lru_next_of:
  assumes "lru bs (us @ b # vs)"
  shows "b_next (bs b) \<noteq> b"
proof -
  obtain n C where C: "vs @ [NBUF] = n # C" by (cases "vs @ [NBUF]") auto
  have "n \<in> set (vs @ [NBUF])" by (simp add: C)
  then have "n \<noteq> b" using assms by (auto simp: lru_def)
  moreover have "linked bs ((NBUF # us) @ b # n # C)" using assms by (simp add: lru_def flip: C)
  ultimately show ?thesis using linked_next by metis
qed

lemma lru_first:
  assumes "lru bs xs" "b \<notin> set xs" "b \<noteq> NBUF"
  shows "b_next (bs NBUF) \<noteq> b"
proof -
  obtain n C where C: "xs @ [NBUF] = n # C" by (cases "xs @ [NBUF]") auto
  have "n \<in> set (xs @ [NBUF])" by (simp add: C)
  moreover have "b_next (bs NBUF) = n" using assms(1) by (simp add: lru_def C)
  ultimately show ?thesis using assms by auto
qed

lemma lru_move_front:
  assumes "lru bs (us @ b # vs)"
  shows "lru (push_front (unlink_buf bs b) b) (b # us @ vs)"
    and "\<exists>p q. push_front (unlink_buf bs b) b i = (bs i)\<lparr>b_prev := p, b_next := q\<rparr>"
proof -
  have l: "lru (unlink_buf bs b) (us @ vs)" by (rule lru_unlink [OF assms])
  have b: "b \<notin> set (us @ vs)" "b \<noteq> NBUF" using assms by (auto simp: lru_def)
  show "lru (push_front (unlink_buf bs b) b) (b # us @ vs)" by (rule lru_push_front [OF l b(2) b(1)])
  obtain p q where u: "unlink_buf bs b i = (bs i)\<lparr>b_next := q, b_prev := p\<rparr>"
    using unlink_buf_apply [of bs b i, OF lru_next_of [OF assms]] by blast
  obtain p' q' where "push_front (unlink_buf bs b) b i = (unlink_buf bs b i)\<lparr>b_next := q', b_prev := p'\<rparr>"
    using push_front_apply [of b "unlink_buf bs b" i, OF b(2) lru_first [OF l b]] by blast
  then have "push_front (unlink_buf bs b) b i = (bs i)\<lparr>b_prev := p', b_next := q'\<rparr>" by (simp add: u)
  then show "\<exists>p q. push_front (unlink_buf bs b) b i = (bs i)\<lparr>b_prev := p, b_next := q\<rparr>" by blast
qed

lemma relink:
  assumes ok: "bcache_ok st" and l: "lru (bufs st') ys" "set ys = {0..<NBUF}"
    and same: "\<And>i. \<exists>p q. bufs st' i = (bufs st i)\<lparr>b_prev := p, b_next := q\<rparr>" "memdisk st' = memdisk st"
      "disksize st' = disksize st"
  shows "bcache_ok st' \<and> slot st' = slot st \<and> content st' = content st \<and> held st' = held st \<and> pinned st' = pinned st"
proof -
  have f: "b_dev (bufs st' i) = b_dev (bufs st i)" "b_blockno (bufs st' i) = b_blockno (bufs st i)"
    "b_data (bufs st' i) = b_data (bufs st i)" "b_lock (bufs st' i) = b_lock (bufs st i)"
    "b_refcnt (bufs st' i) = b_refcnt (bufs st i)" "b_flags (bufs st' i) = b_flags (bufs st i)" for i
    using same(1) [of i] by auto
  have s: "slot st' = slot st" by (simp add: slot_def f fun_eq_iff)
  have "buf_ok st' i = buf_ok st i" for i by (simp add: buf_ok_def Let_def f same is_valid_def is_dirty_def)
  then have "bcache_ok st'" using ok l unfolding bcache_ok_def s by auto
  moreover have "content st' = content st" by (rule ext) (unfold content_def s f same(2), rule refl)
  ultimately show ?thesis using s by (auto simp: held_def pinned_def f is_dirty_def)
qed

lemma lru_buf:
  assumes "bcache_ok st" "b < NBUF"
  obtains us vs where "lru (bufs st) (us @ b # vs)" "set (b # us @ vs) = {0..<NBUF}"
proof -
  obtain xs where xs: "lru (bufs st) xs" "set xs = {0..<NBUF}" using assms by (auto simp: bcache_ok_def)
  then have "b \<in> set xs" using assms by simp
  then obtain us vs where "xs = us @ b # vs" by (meson split_list)
  with xs show thesis using that by auto
qed

subsection \<open>Release\<close>

lemma brelse_ok:
  assumes ok: "bcache_ok st" and s: "slot st b n" "n \<in> held st"
    and clean: "n \<in> pinned st \<or> content st n = memdisk st n"
  shows "\<exists>st'. brelse st b = Ok st' \<and> st' = st\<lparr>bufs := bufs st'\<rparr> \<and> bcache_ok st' \<and>
           (\<forall>i m. m \<in> held st' \<and> slot st i m \<longrightarrow> slot st' i m) \<and>
           content st' = content st \<and> held st' = held st - {n} \<and> pinned st' = pinned st"
proof -
  define x where "x = (bufs st b)\<lparr>b_lock := releasesleep (b_lock (bufs st b)), b_refcnt := 0\<rparr>"
  define st1 where "st1 = st\<lparr>bufs := (bufs st)(b := x)\<rparr>"
  have b: "b < NBUF" "b_dev (bufs st b) = 1" "b_blockno (bufs st b) = n" using s by (auto simp: slot_def)
  have okb: "buf_ok st b" using ok b by (simp add: bcache_ok_def)
  have lk: "sl_locked (b_lock (bufs st b))" using held_slot [OF ok s(1)] s(2) by simp
  have "buf_ok st1 b"
    using okb clean b content_slot [OF ok s(1)] pinned_slot [OF ok s(1)]
    by (auto simp: buf_ok_def Let_def st1_def x_def is_valid_def is_dirty_def)
  then have r: "bcache_ok st1" "content st1 = (content st)(n := b_data x)" "held st1 = held st - {n}"
      "pinned st1 = (if is_dirty x then insert n (pinned st) else pinned st - {n})"
      "\<forall>i m. m \<in> held st \<and> slot st i m \<longrightarrow> slot st1 i m"
    using replace_buf [OF ok b(1), of x n st1] b s(1) by (auto simp: st1_def x_def)
  have r': "content st1 = content st" "pinned st1 = pinned st"
    using r(2,4) content_slot [OF ok s(1)] pinned_slot [OF ok s(1)] by (auto simp: x_def is_dirty_def)
  obtain us vs where u: "lru (bufs st1) (us @ b # vs)" "set (b # us @ vs) = {0..<NBUF}"
    by (rule lru_buf [OF r(1) b(1)])
  define st' where "st' = st1\<lparr>bufs := push_front (unlink_buf (bufs st1) b) b\<rparr>"
  have "brelse st b = Ok st'"
    using lk okb by (simp add: brelse_def Let_def st'_def st1_def x_def buf_ok_def)
  moreover have "st' = st\<lparr>bufs := bufs st'\<rparr>" by (simp add: st'_def st1_def)
  moreover have "bcache_ok st' \<and> slot st' = slot st1 \<and> content st' = content st1 \<and> held st' = held st1 \<and> pinned st' = pinned st1"
    using relink [OF r(1), of st' "b # us @ vs"] lru_move_front [OF u(1)] u(2) by (simp add: st'_def)
  ultimately show ?thesis using r r' by auto
qed

subsection \<open>Read\<close>

definition opened :: "'a bstate_scheme \<Rightarrow> u32 \<Rightarrow> nat \<Rightarrow> 'a bstate_scheme \<Rightarrow> bool" where
  "opened st n b st' \<longleftrightarrow>
     st' = st\<lparr>bufs := bufs st'\<rparr> \<and> bcache_ok st' \<and> slot st' b n \<and>
     (\<forall>i m. m \<in> held st \<and> slot st i m \<longrightarrow> slot st' i m) \<and>
     content st' = content st \<and> held st' = insert n (held st) \<and> pinned st' = pinned st"

definition free_buf :: "'a bstate_scheme \<Rightarrow> bool" where
  "free_buf st \<longleftrightarrow> (\<exists>i<NBUF. \<not> sl_locked (b_lock (bufs st i)) \<and> \<not> is_dirty (bufs st i))"

lemma find_cases:
  obtains "List.find P xs = None" "\<forall>x\<in>set xs. \<not> P x" | x where "List.find P xs = Some x" "x \<in> set xs" "P x"
  by (cases "List.find P xs") (auto simp: find_None_iff find_Some_iff)

lemma bcache_lru:
  assumes "bcache_ok st"
  obtains xs where "lru (bufs st) xs" "set xs = {0..<NBUF}"
  using assms by (auto simp: bcache_ok_def)

lemma bget_hit:
  assumes ok: "bcache_ok st" and s: "slot st b n"
  shows "bget st 1 n =
    (if n \<in> held st then Blocks ''acquiresleep''
     else Ok (b, st\<lparr>bufs := (bufs st)(b := (bufs st b)\<lparr>b_refcnt := 1,
                     b_lock := (b_lock (bufs st b))\<lparr>sl_locked := True, sl_pid := mypid st\<rparr>\<rparr>)\<rparr>))"
proof -
  obtain xs where xs: "lru (bufs st) xs" "set xs = {0..<NBUF}" by (rule bcache_lru [OF ok])
  let ?P = "\<lambda>i. b_dev (bufs st i) = 1 \<and> b_blockno (bufs st i) = n"
  have "List.find ?P xs = Some b"
  proof (rule find_cases [of ?P xs])
    assume "\<forall>x\<in>set xs. \<not> ?P x"
    then show ?thesis using s xs(2) by (auto simp: slot_def)
  next
    fix x assume "List.find ?P xs = Some x" "x \<in> set xs" "?P x"
    moreover from this have "slot st x n" using xs(2) by (simp add: slot_def)
    ultimately show ?thesis using slot_unique [OF ok s] by simp
  qed
  moreover have "buf_ok st b" using ok s by (simp add: bcache_ok_def slot_def)
  ultimately show ?thesis
    using lru_scan(1) [OF xs(1), of "\<lambda>x. b_dev x = 1 \<and> b_blockno x = n"] held_slot [OF ok s]
    by (simp add: bget_def lock_buf_def acquiresleep_def buf_ok_def Let_def)
qed

lemma bget_miss:
  assumes ok: "bcache_ok st" and nc: "n \<notin> cached st"
  obtains "\<not> free_buf st" "bget st 1 n = Panic ''bget: no buffers''"
  | b where "b < NBUF" "\<not> sl_locked (b_lock (bufs st b))" "\<not> is_dirty (bufs st b)"
      "bget st 1 n = Ok (b, st\<lparr>bufs := (bufs st)(b := (bufs st b)\<lparr>b_dev := 1, b_blockno := n, b_flags := 0,
         b_refcnt := 1, b_lock := (b_lock (bufs st b))\<lparr>sl_locked := True, sl_pid := mypid st\<rparr>\<rparr>)\<rparr>)"
proof -
  obtain xs where xs: "lru (bufs st) xs" "set xs = {0..<NBUF}" by (rule bcache_lru [OF ok])
  let ?Q = "\<lambda>i. b_refcnt (bufs st i) = 0 \<and> b_flags (bufs st i) AND B_DIRTY = 0"
  have Q: "?Q i \<longleftrightarrow> \<not> sl_locked (b_lock (bufs st i)) \<and> \<not> is_dirty (bufs st i)" if "i < NBUF" for i
  proof -
    have "buf_ok st i" using ok that by (simp add: bcache_ok_def)
    then show ?thesis by (auto simp: buf_ok_def Let_def is_dirty_def)
  qed
  have none: "List.find (\<lambda>i. b_dev (bufs st i) = 1 \<and> b_blockno (bufs st i) = n) xs = None"
    using nc xs(2) by (auto simp: find_None_iff cached_def slot_def)
  note sc = lru_scan(1) [OF xs(1), of "\<lambda>x. b_dev x = 1 \<and> b_blockno x = n"]
    lru_scan(2) [OF xs(1), of "\<lambda>x. b_refcnt x = 0 \<and> b_flags x AND B_DIRTY = 0"]
  show thesis
  proof (rule find_cases [of ?Q "rev xs"])
    assume f: "List.find ?Q (rev xs) = None" "\<forall>x\<in>set (rev xs). \<not> ?Q x"
    then have "\<not> free_buf st" using Q xs(2) by (auto simp: free_buf_def)
    moreover have "bget st 1 n = Panic ''bget: no buffers''" using f(1) none sc by (simp add: bget_def)
    ultimately show thesis by (rule that(1))
  next
    fix b assume f: "List.find ?Q (rev xs) = Some b" "b \<in> set (rev xs)" "?Q b"
    then have b: "b < NBUF" "\<not> sl_locked (b_lock (bufs st b))" "\<not> is_dirty (bufs st b)" using Q xs(2) by auto
    show thesis
      by (rule that(2) [OF b]) (use f(1) none sc b(2) in \<open>simp add: bget_def lock_buf_def acquiresleep_def Let_def\<close>)
  qed
qed

lemma bread_hit:
  assumes ok: "bcache_ok st" and s: "slot st b n" "n \<notin> held st"
  shows "\<exists>st'. bread st 1 n = Ok (b, st') \<and> opened st n b st'"
proof -
  define x where "x = (bufs st b)\<lparr>b_refcnt := 1, b_lock := (b_lock (bufs st b))\<lparr>sl_locked := True, sl_pid := mypid st\<rparr>\<rparr>"
  define st' where "st' = st\<lparr>bufs := (bufs st)(b := x)\<rparr>"
  have b: "b < NBUF" "b_dev x = 1" "b_blockno x = n" using s(1) by (auto simp: slot_def x_def)
  have okb: "buf_ok st b" using ok b by (simp add: bcache_ok_def)
  then have okb': "buf_ok st' b" using b s(1)
    by (simp add: buf_ok_def Let_def st'_def x_def is_valid_def is_dirty_def slot_def)
  have d: "b_data x = b_data (bufs st b)" "is_dirty x = is_dirty (bufs st b)" "sl_locked (b_lock x)" "is_valid x"
    using okb s(1) by (simp_all add: x_def is_dirty_def is_valid_def buf_ok_def slot_def Let_def)
  have r: "bcache_ok st' \<and> slot st' b n \<and> (\<forall>i m. m \<in> held st \<and> slot st i m \<longrightarrow> slot st' i m) \<and>
         content st' = (content st)(n := b_data x) \<and>
         held st' = (if sl_locked (b_lock x) then insert n (held st) else held st - {n}) \<and>
         pinned st' = (if is_dirty x then insert n (pinned st) else pinned st - {n})"
    by (rule replace_buf [OF ok b(1) _ _ b(2,3) _ _ _ _ okb']) (use s(1) in \<open>auto simp: st'_def x_def\<close>)
  have "bget st 1 n = Ok (b, st')" using bget_hit [OF ok s(1)] s(2) by (simp add: st'_def x_def)
  then have "bread st 1 n = Ok (b, st')" using d(4) by (simp add: bread_def st'_def is_valid_def)
  moreover have "opened st n b st'"
    using r content_slot [OF ok s(1)] pinned_slot [OF ok s(1)]
    by (auto simp: opened_def d) (simp_all add: st'_def)
  ultimately show ?thesis by blast
qed

lemma bread_miss:
  assumes ok: "bcache_ok st" and nc: "n \<notin> cached st"
  shows "if \<not> free_buf st then bread st 1 n = Panic ''bget: no buffers''
         else if n \<ge> disksize st then bread st 1 n = Panic ''iderw: block out of range''
         else \<exists>b st'. bread st 1 n = Ok (b, st') \<and> opened st n b st'"
proof (rule bget_miss [OF ok nc])
  assume "\<not> free_buf st" "bget st 1 n = Panic ''bget: no buffers''"
  then show ?thesis by (simp add: bread_def)
next
  fix b
  assume b: "b < NBUF" "\<not> sl_locked (b_lock (bufs st b))" "\<not> is_dirty (bufs st b)"
  define y where "y = (bufs st b)\<lparr>b_dev := 1, b_blockno := n, b_flags := 0,
         b_refcnt := 1, b_lock := (b_lock (bufs st b))\<lparr>sl_locked := True, sl_pid := mypid st\<rparr>\<rparr>"
  define x where "x = y\<lparr>b_data := memdisk st n, b_flags := 0 OR B_VALID\<rparr>"
  define st' where "st' = st\<lparr>bufs := (bufs st)(b := x)\<rparr>"
  assume "bget st 1 n = Ok (b, st\<lparr>bufs := (bufs st)(b := (bufs st b)\<lparr>b_dev := 1, b_blockno := n, b_flags := 0,
         b_refcnt := 1, b_lock := (b_lock (bufs st b))\<lparr>sl_locked := True, sl_pid := mypid st\<rparr>\<rparr>)\<rparr>)"
  then have g: "bget st 1 n = Ok (b, st\<lparr>bufs := (bufs st)(b := y)\<rparr>)" by (simp add: y_def)
  have fb: "free_buf st" using b by (auto simp: free_buf_def)
  have rd: "bread st 1 n = (if n \<ge> disksize st then Panic ''iderw: block out of range'' else Ok (b, st'))"
    using g by (simp add: bread_def iderw_def Let_def y_def st'_def x_def)
  have x: "b_dev x = 1" "b_blockno x = n" "sl_locked (b_lock x)" "b_data x = memdisk st n" "\<not> is_dirty x"
    by (simp_all add: x_def y_def is_dirty_def)
  show ?thesis
  proof (cases "n \<ge> disksize st")
    case True
    then show ?thesis using rd fb by simp
  next
    case range: False
    have okb': "buf_ok st' b" using range by (simp add: buf_ok_def Let_def st'_def x_def y_def is_valid_def)
    have r: "bcache_ok st' \<and> slot st' b n \<and> (\<forall>i m. m \<in> held st \<and> slot st i m \<longrightarrow> slot st' i m) \<and>
           content st' = (content st)(n := b_data x) \<and>
           held st' = (if sl_locked (b_lock x) then insert n (held st) else held st - {n}) \<and>
           pinned st' = (if is_dirty x then insert n (pinned st) else pinned st - {n})"
      by (rule replace_buf [OF ok b(1) _ _ x(1,2) _ _ _ _ okb']) (use nc b in \<open>auto simp: st'_def x_def y_def\<close>)
    have "n \<notin> pinned st" using nc by (auto simp: pinned_def cached_def)
    then have "opened st n b st'"
      using r content_uncached [OF nc] by (auto simp: opened_def x) (simp_all add: st'_def)
    then show ?thesis using rd fb by simp
  qed
qed

lemma bread_held:
  assumes "bcache_ok st" "n \<in> held st"
  shows "bread st 1 n = Blocks ''acquiresleep''"
proof -
  obtain i where "slot st i n" using assms(2) by (auto simp: held_def)
  from bget_hit [OF assms(1) this] show ?thesis using assms(2) by (simp add: bread_def)
qed

lemma free_buf_card:
  assumes ok: "bcache_ok st" and c: "card (held st \<union> pinned st) < NBUF"
  shows "free_buf st"
proof (rule ccontr)
  assume "\<not> free_buf st"
  then have busy: "sl_locked (b_lock (bufs st i)) \<or> is_dirty (bufs st i)" if "i < NBUF" for i
    using that by (auto simp: free_buf_def)
  let ?n = "\<lambda>i. b_blockno (bufs st i)"
  have sl: "slot st i (?n i)" if "i < NBUF" for i
  proof -
    have "buf_ok st i" using ok that by (simp add: bcache_ok_def)
    then show ?thesis using busy [OF that] that by (auto simp: buf_ok_def slot_def Let_def split: if_splits)
  qed
  have inj: "inj_on ?n {0..<NBUF}"
  proof (rule inj_onI)
    fix i j assume "i \<in> {0..<NBUF}" "j \<in> {0..<NBUF}" "?n i = ?n j"
    then show "i = j" using slot_unique [OF ok sl [of i], of j] sl [of j] by simp
  qed
  have "?n ` {0..<NBUF} \<subseteq> held st \<union> pinned st"
  proof (rule image_subsetI)
    fix i assume "i \<in> {0..<NBUF}"
    then have i: "i < NBUF" by simp
    show "?n i \<in> held st \<union> pinned st"
      using held_slot [OF ok sl [OF i]] pinned_slot [OF ok sl [OF i]] busy [OF i] by auto
  qed
  moreover have "finite (held st \<union> pinned st)"
    by (rule finite_subset [of _ "?n ` {0..<NBUF}"]) (auto simp: held_def pinned_def slot_def)
  ultimately have "card (?n ` {0..<NBUF}) \<le> card (held st \<union> pinned st)" by (simp add: card_mono)
  then show False using card_image [OF inj] c by simp
qed

lemma bread_ok:
  assumes "bcache_ok st" "n \<notin> held st" "n < disksize st"
    "n \<in> cached st \<or> card (held st \<union> pinned st) < NBUF"
  shows "\<exists>b st'. bread st 1 n = Ok (b, st') \<and> opened st n b st'"
proof (cases "n \<in> cached st")
  case True
  then obtain b where "slot st b n" by (auto simp: cached_def)
  then show ?thesis using bread_hit [OF assms(1)] assms(2) by blast
next
  case False
  then show ?thesis using bread_miss [OF assms(1) False] free_buf_card [OF assms(1)] assms(3,4)
    by (simp add: not_le [symmetric])
qed

lemma bread_Ok_opened:
  assumes "bcache_ok st" "bread st 1 n = Ok (b, st')"
  shows "opened st n b st' \<and> n \<notin> held st \<and> n < disksize st"
proof (cases "n \<in> cached st")
  case True
  then obtain i where i: "slot st i n" by (auto simp: cached_def)
  moreover have "n \<notin> held st" using assms bread_held by fastforce
  moreover have "n < disksize st" using assms(1) i by (auto simp: bcache_ok_def slot_def buf_ok_def Let_def)
  ultimately show ?thesis using bread_hit [OF assms(1) i] assms(2) by auto
next
  case False
  then have "n \<notin> held st" by (auto simp: held_def cached_def)
  then show ?thesis using bread_miss [OF assms(1) False] assms(2) by (auto split: if_splits)
qed

subsection \<open>Change and write\<close>

lemma set_data_ok:
  assumes ok: "bcache_ok st" and s: "slot st b n" "n \<in> held st" and st': "st' = set_data st b d"
  shows "st' = st\<lparr>bufs := bufs st'\<rparr> \<and> bcache_ok st' \<and> slot st' = slot st \<and> content st' = (content st)(n := d) \<and>
         held st' = held st \<and> pinned st' = pinned st"
proof -
  let ?x = "(bufs st b)\<lparr>b_data := d\<rparr>"
  have b: "b < NBUF" "b_dev ?x = 1" "b_blockno ?x = n" using s(1) by (auto simp: slot_def)
  have okb: "buf_ok st b" using ok b by (simp add: bcache_ok_def)
  have lk: "sl_locked (b_lock (bufs st b))" using held_slot [OF ok s(1)] s(2) by simp
  have dv: "is_dirty ?x = is_dirty (bufs st b)" "is_valid ?x = is_valid (bufs st b)"
    by (simp_all add: is_dirty_def is_valid_def)
  have okb': "buf_ok st' b" using okb lk b by (simp add: buf_ok_def Let_def st' set_data_def dv)
  have "slot st' = slot st" by (auto simp: slot_def st' set_data_def fun_eq_iff)
  moreover have "bcache_ok st' \<and> slot st' b n \<and> (\<forall>i m. m \<in> held st \<and> slot st i m \<longrightarrow> slot st' i m) \<and>
         content st' = (content st)(n := b_data ?x) \<and>
         held st' = (if sl_locked (b_lock ?x) then insert n (held st) else held st - {n}) \<and>
         pinned st' = (if is_dirty ?x then insert n (pinned st) else pinned st - {n})"
    by (rule replace_buf [OF ok b(1) _ _ b(2,3) _ _ _ _ okb']) (use s(1) in \<open>auto simp: st' set_data_def\<close>)
  ultimately show ?thesis using s(2) lk pinned_slot [OF ok s(1)] by (auto simp: dv st' set_data_def)
qed

lemma bwrite_ok:
  assumes ok: "bcache_ok st" and s: "slot st b n" "n \<in> held st"
  shows "\<exists>st'. bwrite st b = Ok st' \<and> bcache_ok st' \<and>
     st' = st\<lparr>bufs := bufs st', memdisk := (memdisk st)(n := content st n), written := written st @ [(n, content st n)]\<rparr> \<and>
     slot st' = slot st \<and> content st' = content st \<and> held st' = held st \<and> pinned st' = pinned st - {n}"
proof -
  define f where "f = ((b_flags (bufs st b) OR B_DIRTY) AND NOT B_DIRTY) OR B_VALID"
  define x where "x = (bufs st b)\<lparr>b_flags := f\<rparr>"
  define st' where "st' = st\<lparr>bufs := (bufs st)(b := x), memdisk := (memdisk st)(n := content st n),
     written := written st @ [(n, content st n)]\<rparr>"
  have b: "b < NBUF" "b_dev (bufs st b) = 1" "b_blockno (bufs st b) = n" using s(1) by (auto simp: slot_def)
  have okb: "buf_ok st b" using ok b by (simp add: bcache_ok_def)
  have lk: "sl_locked (b_lock (bufs st b))" using held_slot [OF ok s(1)] s(2) by simp
  note c = content_slot [OF ok s(1)]
  have "is_dirty ((bufs st b)\<lparr>b_flags := b_flags (bufs st b) OR B_DIRTY\<rparr>)" by simp
  then have dd: "(b_flags (bufs st b) OR B_DIRTY) AND B_DIRTY \<noteq> 0" by (simp add: is_dirty_def)
  have nv: "(b_flags (bufs st b) OR B_DIRTY) AND (B_VALID OR B_DIRTY) \<noteq> B_VALID"
    using valid_only_iff [of "(bufs st b)\<lparr>b_flags := b_flags (bufs st b) OR B_DIRTY\<rparr>"] by simp
  have fl: "is_valid x" "\<not> is_dirty x" unfolding x_def f_def by (simp_all only: set_valid clear_dirty not_False_eq_True)
  have "bwrite st b = Ok st'"
    using lk b okb dd nv c
    by (simp add: bwrite_def iderw_def Let_def st'_def x_def f_def buf_ok_def not_le)
  moreover have "buf_ok st' b"
    using okb lk b fl c by (simp add: buf_ok_def Let_def st'_def) (simp add: x_def)
  then have "bcache_ok st' \<and> slot st' b n \<and> (\<forall>i m. m \<in> held st \<and> slot st i m \<longrightarrow> slot st' i m) \<and>
         content st' = (content st)(n := b_data x) \<and>
         held st' = (if sl_locked (b_lock x) then insert n (held st) else held st - {n}) \<and>
         pinned st' = (if is_dirty x then insert n (pinned st) else pinned st - {n})"
    by (intro replace_buf [OF ok b(1)]) (use b s(1) in \<open>auto simp: st'_def x_def\<close>)
  moreover have "slot st' = slot st" by (auto simp: slot_def st'_def x_def fun_eq_iff)
  moreover have "sl_locked (b_lock x)" "b_data x = content st n" using lk c by (simp_all add: x_def)
  ultimately show ?thesis using fl s(2) by (intro exI [of _ st']) (auto simp: st'_def)
qed

subsection \<open>The empty cache\<close>

lemma binit_loop_fields:
  assumes "NBUF \<notin> set ys" "lru bs xs" "distinct ys" "set xs \<inter> set ys = {}"
  shows "\<exists>p q. binit_loop ys bs i =
    (bs i)\<lparr>b_lock := if i \<in> set ys then initsleeplock else b_lock (bs i), b_prev := p, b_next := q\<rparr>"
  using assms
proof (induction ys arbitrary: bs xs)
  case Nil
  have "bs i = (bs i)\<lparr>b_lock := b_lock (bs i), b_prev := b_prev (bs i), b_next := b_next (bs i)\<rparr>" by simp
  then show ?case by (metis binit_loop.simps(1) empty_iff list.set(1))
next
  case (Cons y ys)
  let ?bs = "bs(y := (bs y)\<lparr>b_lock := initsleeplock\<rparr>)"
  have l: "lru ?bs xs" using Cons.prems(2) lru_cong [of ?bs bs] by simp
  have y: "y \<noteq> NBUF" "y \<notin> set xs" using Cons.prems by auto
  have "lru (push_front ?bs y) (y # xs)" by (rule lru_push_front [OF l y])
  then obtain p q where 1: "binit_loop ys (push_front ?bs y) i = (push_front ?bs y i)
      \<lparr>b_lock := if i \<in> set ys then initsleeplock else b_lock (push_front ?bs y i), b_prev := p, b_next := q\<rparr>"
    using Cons.IH [of "push_front ?bs y" "y # xs"] Cons.prems by auto
  obtain p' q' where "push_front ?bs y i = (?bs i)\<lparr>b_next := q', b_prev := p'\<rparr>"
    using push_front_apply [of y ?bs i, OF y(1) lru_first [OF l y(2,1)]] by blast
  then have "binit_loop (y # ys) bs i = (bs i)\<lparr>b_lock := if i \<in> set (y # ys) then initsleeplock else b_lock (bs i),
      b_prev := p, b_next := q\<rparr>"
    using 1 by auto
  then show ?case by blast
qed

lemma binit_lru: "lru (bufs (binit st)) (rev [0..<NBUF])"
proof -
  define h where "h = (bufs st)(NBUF := (bufs st NBUF)\<lparr>b_prev := NBUF, b_next := NBUF\<rparr>)"
  define ys where "ys = [0..<NBUF]"
  have ys: "distinct ys" "set ys = {0..<NBUF}" by (simp_all only: ys_def distinct_upt set_upt)
  have st': "bufs (binit st) = binit_loop ys h"
    unfolding binit_def ys_def [symmetric] by (simp add: h_def Let_def)
  have l0: "lru h []" by (simp add: lru_def h_def)
  have "lru (binit_loop ys h) (rev ys @ [])"
    by (rule lru_binit_loop [OF l0]) (simp_all add: ys)
  then show ?thesis by (simp only: st' append_Nil2 ys_def)
qed

lemma binit_ok:
  assumes "\<And>i. i < NBUF \<Longrightarrow> b_dev (bufs st i) = 0 \<and> b_flags (bufs st i) = 0 \<and> b_refcnt (bufs st i) = 0"
  shows "bcache_ok (binit st) \<and> binit st = st\<lparr>bufs := bufs (binit st)\<rparr> \<and> cached (binit st) = {} \<and>
         held (binit st) = {} \<and> pinned (binit st) = {} \<and> content (binit st) = memdisk st"
proof -
  define h where "h = (bufs st)(NBUF := (bufs st NBUF)\<lparr>b_prev := NBUF, b_next := NBUF\<rparr>)"
  define ys where "ys = [0..<NBUF]"
  have ys: "distinct ys" "set ys = {0..<NBUF}" by (simp_all only: ys_def distinct_upt set_upt)
  have st': "bufs (binit st) = binit_loop ys h" "binit st = st\<lparr>bufs := bufs (binit st)\<rparr>"
    unfolding binit_def ys_def [symmetric] by (simp_all add: h_def Let_def)
  have l0: "lru h []" by (simp add: lru_def h_def)
  have l: "lru (bufs (binit st)) (rev ys)" using binit_lru by (simp only: ys_def)
  have f: "b_dev (bufs (binit st) i) = 0 \<and> b_flags (bufs (binit st) i) = 0 \<and> b_refcnt (bufs (binit st) i) = 0 \<and>
      b_lock (bufs (binit st) i) = initsleeplock" if "i < NBUF" for i
  proof -
    obtain p q where "binit_loop ys h i = (h i)\<lparr>b_lock := if i \<in> set ys then initsleeplock
       else b_lock (h i), b_prev := p, b_next := q\<rparr>"
      using binit_loop_fields [OF _ l0, of ys i] ys by auto
    then show ?thesis using assms [OF that] that by (simp add: st'(1) h_def ys)
  qed
  have ns: "\<not> slot (binit st) i n" for i n using f [of i] by (auto simp: slot_def)
  have "buf_ok (binit st) i" if "i < NBUF" for i
    using f [OF that] by (simp add: buf_ok_def is_valid_def is_dirty_def)
  moreover have "set (rev ys) = {0..<NBUF}" by (simp add: ys)
  ultimately have "bcache_ok (binit st)" using l ns unfolding bcache_ok_def by blast
  moreover have c: "cached (binit st) = {}" using ns by (simp add: cached_def)
  moreover have "memdisk (binit st) = memdisk st" by (subst st'(2)) simp
  then have "content (binit st) = memdisk st" using content_uncached [of _ "binit st"] c by auto
  ultimately show ?thesis using st'(2) ns by (simp add: held_def pinned_def)
qed

section \<open>The contract of the buffer cache\<close>

text \<open>
  What clients see of the cache: the blocks, the disk below, which blocks are held (locked) and
  pinned (dirty), the trail of writes to the disk and the size of the disk.
\<close>

record cache_view =
  cv_content :: "u32 \<Rightarrow> block"
  cv_disk :: "u32 \<Rightarrow> block"
  cv_held :: "u32 set"
  cv_pinned :: "u32 set"
  cv_trail :: "(u32 \<times> block) list"
  cv_size :: u32

locale buffer_cache =
  fixes rd :: "'s \<Rightarrow> u32 \<Rightarrow> (nat \<times> 's) res"
    and wr :: "'s \<Rightarrow> nat \<Rightarrow> 's res"
    and rel :: "'s \<Rightarrow> nat \<Rightarrow> 's res"
    and upd :: "'s \<Rightarrow> nat \<Rightarrow> block \<Rightarrow> 's"
    and dat :: "'s \<Rightarrow> nat \<Rightarrow> block"
    and inv :: "'s \<Rightarrow> bool"
    and serves :: "'s \<Rightarrow> nat \<Rightarrow> u32 \<Rightarrow> bool"
    and view :: "'s \<Rightarrow> cache_view"
    and frame :: "'s \<Rightarrow> 'f"
    and cap :: nat
  assumes rd_law: "\<lbrakk>inv s; n \<notin> cv_held (view s); n < cv_size (view s);
        n \<in> cv_pinned (view s) \<or> card (cv_held (view s) \<union> cv_pinned (view s)) < cap\<rbrakk> \<Longrightarrow>
      \<exists>b s'. rd s n = Ok (b, s') \<and> inv s' \<and> serves s' b n \<and>
        (\<forall>i m. m \<in> cv_held (view s) \<and> serves s i m \<longrightarrow> serves s' i m) \<and>
        view s' = (view s)\<lparr>cv_held := insert n (cv_held (view s))\<rparr> \<and> frame s' = frame s"
    and dat_law: "\<lbrakk>inv s; serves s b n\<rbrakk> \<Longrightarrow> dat s b = cv_content (view s) n"
    and clean_law: "\<lbrakk>inv s; n \<notin> cv_held (view s); n \<notin> cv_pinned (view s)\<rbrakk> \<Longrightarrow>
      cv_content (view s) n = cv_disk (view s) n"
    and upd_law: "\<lbrakk>inv s; serves s b n; n \<in> cv_held (view s)\<rbrakk> \<Longrightarrow>
      inv (upd s b d) \<and> serves (upd s b d) = serves s \<and> frame (upd s b d) = frame s \<and>
      view (upd s b d) = (view s)\<lparr>cv_content := (cv_content (view s))(n := d)\<rparr>"
    and wr_law: "\<lbrakk>inv s; serves s b n; n \<in> cv_held (view s)\<rbrakk> \<Longrightarrow>
      \<exists>s'. wr s b = Ok s' \<and> inv s' \<and> serves s' = serves s \<and> frame s' = frame s \<and>
        view s' = (view s)\<lparr>cv_disk := (cv_disk (view s))(n := cv_content (view s) n),
          cv_trail := cv_trail (view s) @ [(n, cv_content (view s) n)], cv_pinned := cv_pinned (view s) - {n}\<rparr>"
    and rel_law: "\<lbrakk>inv s; serves s b n; n \<in> cv_held (view s);
        n \<in> cv_pinned (view s) \<or> cv_content (view s) n = cv_disk (view s) n\<rbrakk> \<Longrightarrow>
      \<exists>s'. rel s b = Ok s' \<and> inv s' \<and> (\<forall>i m. m \<in> cv_held (view s') \<and> serves s i m \<longrightarrow> serves s' i m) \<and>
        view s' = (view s)\<lparr>cv_held := cv_held (view s) - {n}\<rparr> \<and> frame s' = frame s"
begin

text \<open>A block is read and its buffer given back.\<close>

lemma read_release:
  assumes "inv s" "n \<notin> cv_held (view s)" "n < cv_size (view s)"
    "n \<in> cv_pinned (view s) \<or> card (cv_held (view s) \<union> cv_pinned (view s)) < cap"
  shows "\<exists>b s1 s2. rd s n = Ok (b, s1) \<and> dat s1 b = cv_content (view s) n \<and> rel s1 b = Ok s2 \<and>
           inv s2 \<and> view s2 = view s \<and> frame s1 = frame s \<and> frame s2 = frame s"
proof -
  obtain b s1 where 1: "rd s n = Ok (b, s1)" "inv s1" "serves s1 b n" "frame s1 = frame s"
      "view s1 = (view s)\<lparr>cv_held := insert n (cv_held (view s))\<rparr>"
    using rd_law [OF assms] by blast
  have "n \<in> cv_pinned (view s1) \<or> cv_content (view s1) n = cv_disk (view s1) n"
    using clean_law [OF assms(1,2)] 1(5) by auto
  then obtain s2 where "rel s1 b = Ok s2" "inv s2" "view s2 = (view s1)\<lparr>cv_held := cv_held (view s1) - {n}\<rparr>"
      "frame s2 = frame s1"
    using rel_law [OF 1(2,3)] 1(5) by auto
  moreover from this have "view s2 = view s" using 1(5) assms(2) by simp
  ultimately show ?thesis using 1 dat_law [OF 1(2,3)] by auto
qed

text \<open>A block is read, changed, written through and given back.\<close>

lemma write_through:
  assumes "inv s" "n \<notin> cv_held (view s)" "n < cv_size (view s)"
    "n \<in> cv_pinned (view s) \<or> card (cv_held (view s) \<union> cv_pinned (view s)) < cap"
  shows "\<exists>s'. bindr (rd s n) (\<lambda>(b, s). bindr (wr (upd s b (f (dat s b))) b) (\<lambda>s. rel s b)) = Ok s' \<and>
           inv s' \<and> frame s' = frame s \<and>
           view s' = (let d = f (cv_content (view s) n) in (view s)\<lparr>cv_content := (cv_content (view s))(n := d),
             cv_disk := (cv_disk (view s))(n := d), cv_trail := cv_trail (view s) @ [(n, d)],
             cv_pinned := cv_pinned (view s) - {n}\<rparr>)"
proof -
  obtain b s1 where 1: "rd s n = Ok (b, s1)" "inv s1" "serves s1 b n" "frame s1 = frame s"
      "view s1 = (view s)\<lparr>cv_held := insert n (cv_held (view s))\<rparr>"
    using rd_law [OF assms] by blast
  have h1: "n \<in> cv_held (view s1)" by (simp add: 1)
  define s2 where "s2 = upd s1 b (f (dat s1 b))"
  note 2 = upd_law [OF 1(2,3) h1, of "f (dat s1 b)", folded s2_def]
  obtain s3 where 3: "wr s2 b = Ok s3" "inv s3" "serves s3 = serves s2" "frame s3 = frame s2"
      "view s3 = (view s2)\<lparr>cv_disk := (cv_disk (view s2))(n := cv_content (view s2) n),
        cv_trail := cv_trail (view s2) @ [(n, cv_content (view s2) n)], cv_pinned := cv_pinned (view s2) - {n}\<rparr>"
    using wr_law [of s2 b n] 1(3) 2 h1 by auto
  obtain s4 where 4: "rel s3 b = Ok s4" "inv s4" "view s4 = (view s3)\<lparr>cv_held := cv_held (view s3) - {n}\<rparr>"
      "frame s4 = frame s3"
    using rel_law [of s3 b n] 1(3) 2 3 h1 by auto
  have "bindr (rd s n) (\<lambda>(b, s). bindr (wr (upd s b (f (dat s b))) b) (\<lambda>s. rel s b)) = Ok s4"
    using 1(1) 3(1) 4(1) by (simp add: s2_def)
  moreover have "dat s1 b = cv_content (view s) n" using dat_law [OF 1(2,3)] 1(5) by simp
  ultimately show ?thesis using 1 2 3 4 assms(2) by (intro exI [of _ s4]) (simp add: Let_def)
qed

text \<open>
  A block is copied over another one and written through.  The two lemmas differ in the order in which the
  buffers are taken.
\<close>

lemma copy_held:
  assumes i: "inv s" and b: "serves s l src" "serves s d dst"
    and h: "src \<in> cv_held (view s)" "dst \<in> cv_held (view s)" and ne: "src \<noteq> dst"
    and clean: "src \<in> cv_pinned (view s) \<or> cv_content (view s) src = cv_disk (view s) src"
  shows "\<exists>s'. bindr (wr (upd s d (dat s l)) d) (\<lambda>s. bindr (rel s l) (\<lambda>s. rel s d)) = Ok s' \<and>
           inv s' \<and> frame s' = frame s \<and>
           view s' = (let x = cv_content (view s) src in (view s)\<lparr>cv_content := (cv_content (view s))(dst := x),
             cv_disk := (cv_disk (view s))(dst := x), cv_trail := cv_trail (view s) @ [(dst, x)],
             cv_pinned := cv_pinned (view s) - {dst}, cv_held := cv_held (view s) - {src, dst}\<rparr>)"
proof -
  define s2 where "s2 = upd s d (dat s l)"
  have dl: "dat s l = cv_content (view s) src" by (rule dat_law [OF i b(1)])
  note 2 = upd_law [OF i b(2) h(2), of "dat s l", folded s2_def]
  obtain s3 where 3: "wr s2 d = Ok s3" "inv s3" "serves s3 = serves s2" "frame s3 = frame s2"
      "view s3 = (view s2)\<lparr>cv_disk := (cv_disk (view s2))(dst := cv_content (view s2) dst),
        cv_trail := cv_trail (view s2) @ [(dst, cv_content (view s2) dst)], cv_pinned := cv_pinned (view s2) - {dst}\<rparr>"
    using wr_law [of s2 d dst] b 2 h by auto
  obtain s4 where 4: "rel s3 l = Ok s4" "inv s4" "frame s4 = frame s3"
      "\<forall>i m. m \<in> cv_held (view s4) \<and> serves s3 i m \<longrightarrow> serves s4 i m"
      "view s4 = (view s3)\<lparr>cv_held := cv_held (view s3) - {src}\<rparr>"
    using rel_law [of s3 l src] b 2 3 h ne clean by auto
  have "serves s4 d dst" using 2 3 4(4,5) b h ne by simp
  then obtain s5 where 5: "rel s4 d = Ok s5" "inv s5" "frame s5 = frame s4"
      "view s5 = (view s4)\<lparr>cv_held := cv_held (view s4) - {dst}\<rparr>"
    using rel_law [of s4 d dst] 2 3 4 h ne by auto
  have "bindr (wr (upd s d (dat s l)) d) (\<lambda>s. bindr (rel s l) (\<lambda>s. rel s d)) = Ok s5"
    using 3(1) 4(1) 5(1) by (simp add: s2_def)
  moreover have "cv_held (view s) - {src} - {dst} = cv_held (view s) - {src, dst}" by auto
  ultimately show ?thesis using 2 3 4 5 by (intro exI [of _ s5]) (simp add: Let_def dl)
qed

lemma copy_src_first:
  assumes "inv s" "cv_held (view s) = {}" "src < cv_size (view s)" "dst < cv_size (view s)" "src \<noteq> dst"
    "src \<in> cv_pinned (view s) \<or> card (cv_pinned (view s)) < cap"
    "dst \<in> cv_pinned (view s) \<or> card (insert src (cv_pinned (view s))) < cap"
  shows "\<exists>s'. bindr (rd s src) (\<lambda>(l, s). bindr (rd s dst) (\<lambda>(d, s).
             bindr (wr (upd s d (dat s l)) d) (\<lambda>s. bindr (rel s l) (\<lambda>s. rel s d)))) = Ok s' \<and>
           inv s' \<and> frame s' = frame s \<and>
           view s' = (let x = cv_content (view s) src in (view s)\<lparr>cv_content := (cv_content (view s))(dst := x),
             cv_disk := (cv_disk (view s))(dst := x), cv_trail := cv_trail (view s) @ [(dst, x)],
             cv_pinned := cv_pinned (view s) - {dst}\<rparr>)"
proof -
  obtain l s1 where 1: "rd s src = Ok (l, s1)" "inv s1" "serves s1 l src" "frame s1 = frame s"
      "view s1 = (view s)\<lparr>cv_held := {src}\<rparr>"
    using rd_law [OF assms(1), of src] assms by auto
  obtain d s2 where 2: "rd s1 dst = Ok (d, s2)" "inv s2" "serves s2 d dst" "frame s2 = frame s1"
      "\<forall>i m. m \<in> cv_held (view s1) \<and> serves s1 i m \<longrightarrow> serves s2 i m"
      "view s2 = (view s1)\<lparr>cv_held := {dst, src}\<rparr>"
    using rd_law [OF 1(2), of dst] assms 1(5) by auto
  have "serves s2 l src" using 2(5) 1(3,5) by simp
  moreover have "src \<in> cv_pinned (view s2) \<or> cv_content (view s2) src = cv_disk (view s2) src"
    using clean_law [OF assms(1), of src] assms(2) 1(5) 2(6) by auto
  ultimately obtain s' where 3: "bindr (wr (upd s2 d (dat s2 l)) d) (\<lambda>s. bindr (rel s l) (\<lambda>s. rel s d)) = Ok s'"
      "inv s'" "frame s' = frame s2"
      "view s' = (let x = cv_content (view s2) src in (view s2)\<lparr>cv_content := (cv_content (view s2))(dst := x),
             cv_disk := (cv_disk (view s2))(dst := x), cv_trail := cv_trail (view s2) @ [(dst, x)],
             cv_pinned := cv_pinned (view s2) - {dst}, cv_held := cv_held (view s2) - {src, dst}\<rparr>)"
    using copy_held [OF 2(2), of l src d dst] 2(3,6) assms(5) by auto
  have "view s' = (let x = cv_content (view s) src in (view s)\<lparr>cv_content := (cv_content (view s))(dst := x),
             cv_disk := (cv_disk (view s))(dst := x), cv_trail := cv_trail (view s) @ [(dst, x)],
             cv_pinned := cv_pinned (view s) - {dst}\<rparr>)"
    using 3(4) 2(6) 1(5) assms(2) by (cases "view s") (simp add: Let_def)
  then show ?thesis using 1 2 3 by (intro exI [of _ s']) simp
qed

lemma copy_dst_first:
  assumes "inv s" "cv_held (view s) = {}" "src < cv_size (view s)" "dst < cv_size (view s)" "src \<noteq> dst"
    "dst \<in> cv_pinned (view s) \<or> card (cv_pinned (view s)) < cap"
    "src \<in> cv_pinned (view s) \<or> card (insert dst (cv_pinned (view s))) < cap"
  shows "\<exists>s'. bindr (rd s dst) (\<lambda>(d, s). bindr (rd s src) (\<lambda>(l, s).
             bindr (wr (upd s d (dat s l)) d) (\<lambda>s. bindr (rel s l) (\<lambda>s. rel s d)))) = Ok s' \<and>
           inv s' \<and> frame s' = frame s \<and>
           view s' = (let x = cv_content (view s) src in (view s)\<lparr>cv_content := (cv_content (view s))(dst := x),
             cv_disk := (cv_disk (view s))(dst := x), cv_trail := cv_trail (view s) @ [(dst, x)],
             cv_pinned := cv_pinned (view s) - {dst}\<rparr>)"
proof -
  obtain d s1 where 1: "rd s dst = Ok (d, s1)" "inv s1" "serves s1 d dst" "frame s1 = frame s"
      "view s1 = (view s)\<lparr>cv_held := {dst}\<rparr>"
    using rd_law [OF assms(1), of dst] assms by auto
  obtain l s2 where 2: "rd s1 src = Ok (l, s2)" "inv s2" "serves s2 l src" "frame s2 = frame s1"
      "\<forall>i m. m \<in> cv_held (view s1) \<and> serves s1 i m \<longrightarrow> serves s2 i m"
      "view s2 = (view s1)\<lparr>cv_held := {src, dst}\<rparr>"
    using rd_law [OF 1(2), of src] assms 1(5) by auto
  have "serves s2 d dst" using 2(5) 1(3,5) by simp
  moreover have "src \<in> cv_pinned (view s2) \<or> cv_content (view s2) src = cv_disk (view s2) src"
    using clean_law [OF assms(1), of src] assms(2) 1(5) 2(6) by auto
  ultimately obtain s' where 3: "bindr (wr (upd s2 d (dat s2 l)) d) (\<lambda>s. bindr (rel s l) (\<lambda>s. rel s d)) = Ok s'"
      "inv s'" "frame s' = frame s2"
      "view s' = (let x = cv_content (view s2) src in (view s2)\<lparr>cv_content := (cv_content (view s2))(dst := x),
             cv_disk := (cv_disk (view s2))(dst := x), cv_trail := cv_trail (view s2) @ [(dst, x)],
             cv_pinned := cv_pinned (view s2) - {dst}, cv_held := cv_held (view s2) - {src, dst}\<rparr>)"
    using copy_held [OF 2(2), of l src d dst] 2(3,6) assms(5) by auto
  have "view s' = (let x = cv_content (view s) src in (view s)\<lparr>cv_content := (cv_content (view s))(dst := x),
             cv_disk := (cv_disk (view s))(dst := x), cv_trail := cv_trail (view s) @ [(dst, x)],
             cv_pinned := cv_pinned (view s) - {dst}\<rparr>)"
    using 3(4) 2(6) 1(5) assms(2) by (cases "view s") (simp add: Let_def)
  then show ?thesis using 1 2 3 by (intro exI [of _ s']) simp
qed

end

definition cview :: "'a bstate_scheme \<Rightarrow> cache_view" where
  "cview st = \<lparr>cv_content = content st, cv_disk = memdisk st, cv_held = held st, cv_pinned = pinned st,
               cv_trail = written st, cv_size = disksize st\<rparr>"

definition cframe :: "'a bstate_scheme \<Rightarrow> u32 \<times> 'a" where
  "cframe st = (mypid st, bstate.more st)"

lemma cview_simps [simp]:
  "cv_content (cview st) = content st" "cv_disk (cview st) = memdisk st" "cv_held (cview st) = held st"
  "cv_pinned (cview st) = pinned st" "cv_trail (cview st) = written st" "cv_size (cview st) = disksize st"
  by (simp_all add: cview_def)

lemma cviewD:
  assumes "cview st = v"
  shows "content st = cv_content v" "memdisk st = cv_disk v" "held st = cv_held v" "pinned st = cv_pinned v"
    "written st = cv_trail v" "disksize st = cv_size v"
  by (simp_all add: assms [symmetric])

lemma bufs_frame:
  assumes "st' = st\<lparr>bufs := bufs st'\<rparr>"
  shows "memdisk st' = memdisk st \<and> written st' = written st \<and> disksize st' = disksize st \<and> cframe st' = cframe st"
  by (subst (1 2 3 4) assms) (simp add: cframe_def)

lemma bread_view:
  assumes "bcache_ok st" "n \<notin> held st" "n < disksize st"
    "n \<in> pinned st \<or> card (held st \<union> pinned st) < NBUF"
  shows "\<exists>b st'. bread st 1 n = Ok (b, st') \<and> bcache_ok st' \<and> slot st' b n \<and>
      (\<forall>i m. m \<in> held st \<and> slot st i m \<longrightarrow> slot st' i m) \<and>
      cview st' = (cview st)\<lparr>cv_held := insert n (held st)\<rparr> \<and> cframe st' = cframe st"
proof -
  have "n \<in> pinned st \<Longrightarrow> n \<in> cached st" by (auto simp: pinned_def cached_def)
  then obtain b st' where "bread st 1 n = Ok (b, st')" "opened st n b st'"
    using bread_ok [OF assms(1-3)] assms(4) by blast
  then show ?thesis using bufs_frame [of st' st] by (intro exI [of _ b] exI [of _ st']) (auto simp: opened_def cview_def)
qed

lemma set_data_view:
  assumes "bcache_ok st" "slot st b n" "n \<in> held st"
  shows "bcache_ok (set_data st b d) \<and> slot (set_data st b d) = slot st \<and> cframe (set_data st b d) = cframe st \<and>
      cview (set_data st b d) = (cview st)\<lparr>cv_content := (content st)(n := d)\<rparr>"
  using set_data_ok [OF assms refl, of d] bufs_frame [of "set_data st b d" st] by (simp add: cview_def)

lemma bwrite_view:
  assumes "bcache_ok st" "slot st b n" "n \<in> held st"
  shows "\<exists>st'. bwrite st b = Ok st' \<and> bcache_ok st' \<and> slot st' = slot st \<and> cframe st' = cframe st \<and>
      cview st' = (cview st)\<lparr>cv_disk := (memdisk st)(n := content st n),
        cv_trail := written st @ [(n, content st n)], cv_pinned := pinned st - {n}\<rparr>"
proof -
  obtain st' where r: "bwrite st b = Ok st'" "bcache_ok st'" "slot st' = slot st" "content st' = content st"
      "held st' = held st" "pinned st' = pinned st - {n}"
      "st' = st\<lparr>bufs := bufs st', memdisk := (memdisk st)(n := content st n), written := written st @ [(n, content st n)]\<rparr>"
    using bwrite_ok [OF assms] by blast
  have "memdisk st' = (memdisk st)(n := content st n)" "written st' = written st @ [(n, content st n)]"
      "disksize st' = disksize st" "cframe st' = cframe st"
    by (subst r(7); simp add: cframe_def)+
  with r(1-6) show ?thesis by (intro exI [of _ st']) (simp add: cview_def)
qed

lemma brelse_view:
  assumes "bcache_ok st" "slot st b n" "n \<in> held st" "n \<in> pinned st \<or> content st n = memdisk st n"
  shows "\<exists>st'. brelse st b = Ok st' \<and> bcache_ok st' \<and> (\<forall>i m. m \<in> held st' \<and> slot st i m \<longrightarrow> slot st' i m) \<and>
      cview st' = (cview st)\<lparr>cv_held := held st - {n}\<rparr> \<and> cframe st' = cframe st"
proof -
  obtain st' where "brelse st b = Ok st'" "st' = st\<lparr>bufs := bufs st'\<rparr>" "bcache_ok st'"
      "\<forall>i m. m \<in> held st' \<and> slot st i m \<longrightarrow> slot st' i m" "content st' = content st"
      "held st' = held st - {n}" "pinned st' = pinned st"
    using brelse_ok [OF assms] by blast
  then show ?thesis using bufs_frame [of st' st] by (intro exI [of _ st']) (auto simp: cview_def)
qed

interpretation bc: buffer_cache "\<lambda>st. bread st 1" bwrite brelse set_data "\<lambda>st b. b_data (bufs st b)"
  bcache_ok slot cview cframe NBUF
proof (unfold_locales, goal_cases)
  case (2 st b n)
  then show ?case by (simp add: content_slot)
qed (simp_all add: bread_view content_clean set_data_view bwrite_view brelse_view)

section \<open>The properties of the cache\<close>

text \<open>C23. \<open>bread\<close> on every branch, in any consistent cache.  A reader of a locked block waits; a cached block is
  handed out without touching the disk; any other block is read from the disk into a recycled buffer, or the
  kernel panics because all buffers are busy or the block is outside the disk.  A successful read returns the
  current contents in a locked buffer, leaves every other held buffer in place and changes neither the disk nor
  what later readers see.\<close>

theorem bread_branches:
  assumes "bcache_ok st"
  shows "(if n \<in> held st then bread st 1 n = Blocks ''acquiresleep''
          else if n \<notin> cached st \<and> \<not> free_buf st then bread st 1 n = Panic ''bget: no buffers''
          else if n \<notin> cached st \<and> n \<ge> disksize st then bread st 1 n = Panic ''iderw: block out of range''
          else (\<exists>b st'. bread st 1 n = Ok (b, st') \<and> b_data (bufs st' b) = content st n \<and>
                  sl_locked (b_lock (bufs st' b)) \<and> slot st' b n \<and> bcache_ok st' \<and>
                  content st' = content st \<and> held st' = insert n (held st) \<and> pinned st' = pinned st \<and>
                  memdisk st' = memdisk st \<and> written st' = written st \<and>
                  (\<forall>i m. m \<in> held st \<and> slot st i m \<longrightarrow> slot st' i m)))"
proof -
  have "\<exists>b st'. bread st 1 n = Ok (b, st') \<and> opened st n b st'"
    if "n \<notin> held st" "n \<in> cached st \<or> free_buf st \<and> n < disksize st"
  proof (cases "n \<in> cached st")
    case True
    then obtain i where "slot st i n" by (auto simp: cached_def)
    then show ?thesis using bread_hit [OF assms] that(1) by blast
  next
    case False
    then show ?thesis using bread_miss [OF assms False] that(2) by (simp add: not_le [symmetric])
  qed
  moreover have "b_data (bufs st' b) = content st n \<and> sl_locked (b_lock (bufs st' b)) \<and> slot st' b n \<and> bcache_ok st' \<and>
      content st' = content st \<and> held st' = insert n (held st) \<and> pinned st' = pinned st \<and>
      memdisk st' = memdisk st \<and> written st' = written st \<and> (\<forall>i m. m \<in> held st \<and> slot st i m \<longrightarrow> slot st' i m)"
    if "opened st n b st'" for b st'
    using that bufs_frame [of st' st] content_slot [of st' b n] held_slot [of st' b n] by (auto simp: opened_def)
  ultimately show ?thesis using bread_held [OF assms, of n] bread_miss [OF assms, of n]
    by (smt (verit) not_le)
qed

definition zero_buf :: buf where
  "zero_buf = \<lparr>b_flags = 0, b_dev = 0, b_blockno = 0, b_lock = initsleeplock, b_refcnt = 0, b_prev = 0,
     b_next = 0, b_data = []\<rparr>"

definition boot :: "(u32 \<Rightarrow> block) \<Rightarrow> u32 \<Rightarrow> bstate" where
  "boot d n = \<lparr>bufs = \<lambda>_. zero_buf, memdisk = d, disksize = n, written = [], mypid = 1\<rparr>"

theorem bread_branches_witness:
  "\<exists>b st'. bread (binit (boot (\<lambda>n. replicate BSIZE (ucast n)) 1000)) 1 7 = Ok (b, st') \<and>
          b_data (bufs st' b) = replicate BSIZE 7"
proof -
  let ?d = "\<lambda>n :: u32. replicate BSIZE (ucast n :: u8)"
  have b: "bcache_ok (binit (boot ?d 1000))" "held (binit (boot ?d 1000)) = {}" "cached (binit (boot ?d 1000)) = {}"
      "pinned (binit (boot ?d 1000)) = {}" "content (binit (boot ?d 1000)) = ?d"
    using binit_ok [of "boot ?d 1000"] by (simp_all add: boot_def zero_buf_def)
  have "disksize (binit (boot ?d 1000)) = 1000"
    using binit_ok [of "boot ?d 1000"] bufs_frame [of "binit (boot ?d 1000)" "boot ?d 1000"] by (simp add: boot_def zero_buf_def)
  moreover have "free_buf (binit (boot ?d 1000))" by (rule free_buf_card [OF b(1)]) (simp add: b)
  ultimately show ?thesis using bread_branches [OF b(1), of 7] b by auto
qed

text \<open>C24. The list of buffers is kept in order of use: a released buffer moves to its front, and a block that is
  not cached goes to the buffer furthest back that is neither referenced nor dirty.\<close>

theorem lru_policy:
  assumes ok: "bcache_ok st" and xs: "lru (bufs st) xs" "set xs = {0..<NBUF}"
  shows "(slot st b n \<and> n \<in> held st \<longrightarrow> (\<exists>st'. brelse st b = Ok st' \<and> lru (bufs st') (b # remove1 b xs))) \<and>
         (n \<notin> cached st \<and> bread st 1 n = Ok (c, st1) \<longrightarrow>
           List.find (\<lambda>i. b_refcnt (bufs st i) = 0 \<and> b_flags (bufs st i) AND B_DIRTY = 0) (rev xs) = Some c)"
proof (intro conjI impI)
  assume s: "slot st b n \<and> n \<in> held st"
  then have b: "b \<in> set xs" using xs(2) by (simp add: slot_def)
  define x where "x = (bufs st b)\<lparr>b_lock := releasesleep (b_lock (bufs st b)), b_refcnt := 0\<rparr>"
  have "buf_ok st b" "sl_locked (b_lock (bufs st b))"
    using ok s held_slot [OF ok, of b n] by (auto simp: bcache_ok_def slot_def)
  then have r: "brelse st b = Ok (st\<lparr>bufs := push_front (unlink_buf ((bufs st)(b := x)) b) b\<rparr>)"
    by (simp add: brelse_def Let_def x_def buf_ok_def)
  obtain us vs where u: "xs = us @ b # vs" "b \<notin> set us" using b by (meson split_list_first)
  have "lru ((bufs st)(b := x)) xs" using xs(1) lru_cong [of "(bufs st)(b := x)" "bufs st"] by (simp add: x_def)
  then have "lru (push_front (unlink_buf ((bufs st)(b := x)) b) b) (b # us @ vs)"
    using lru_move_front(1) u(1) by blast
  then show "\<exists>st'. brelse st b = Ok st' \<and> lru (bufs st') (b # remove1 b xs)" using r u by (simp add: remove1_append)
next
  let ?Q = "\<lambda>x. b_refcnt x = 0 \<and> b_flags x AND B_DIRTY = 0"
  assume "n \<notin> cached st \<and> bread st 1 n = Ok (c, st1)"
  then have n: "n \<notin> cached st" "bread st 1 n = Ok (c, st1)" by auto
  have "List.find (\<lambda>i. b_dev (bufs st i) = 1 \<and> b_blockno (bufs st i) = n) xs = None"
    using n(1) xs(2) by (auto simp: find_None_iff cached_def slot_def)
  then have "bget st 1 n \<noteq> Ok (c', st')" if "List.find (\<lambda>i. ?Q (bufs st i)) (rev xs) \<noteq> Some c'" for c' st'
    using that lru_scan(1) [OF xs(1), of "\<lambda>x. b_dev x = 1 \<and> b_blockno x = n"] lru_scan(2) [OF xs(1), of ?Q]
    by (auto simp: bget_def Let_def split: option.splits)
  then show "List.find (\<lambda>i. ?Q (bufs st i)) (rev xs) = Some c"
    using n(2) by (auto simp: bread_def split: if_splits)
qed

theorem lru_policy_witness:
  "let st = binit (boot (\<lambda>n. replicate BSIZE (ucast n)) 1000)
   in bcache_ok st \<and> lru (bufs st) (rev [0..<NBUF]) \<and> (\<exists>st'. bread st 1 7 = Ok (0, st'))"
proof -
  define st where "st = binit (boot (\<lambda>n. replicate BSIZE (ucast n)) 1000)"
  have b: "bcache_ok st" "held st = {}" "cached st = {}" "pinned st = {}" "disksize st = 1000"
    using binit_ok [of "boot (\<lambda>n. replicate BSIZE (ucast n)) 1000"] bufs_frame [of st "boot (\<lambda>n. replicate BSIZE (ucast n)) 1000"]
    by (simp_all add: boot_def zero_buf_def st_def)
  have l: "lru (bufs st) (rev [0..<NBUF])" unfolding st_def by (rule binit_lru)
  obtain c st' where r: "bread st 1 7 = Ok (c, st')" using bread_ok [OF b(1), of 7] b by auto
  have s: "set (rev [0..<NBUF]) = {0..<NBUF}" by (simp only: set_rev set_upt)
  have o: "buf_ok st 0" using b(1) by (simp add: bcache_ok_def)
  have "\<not> slot st 0 (b_blockno (bufs st 0))" using b(3) by (auto simp: cached_def)
  then have f: "b_refcnt (bufs st 0) = 0 \<and> b_flags (bufs st 0) AND B_DIRTY = 0"
    using o by (auto simp: buf_ok_def is_dirty_def slot_def Let_def split: if_splits)
  have u: "rev (rev [0..<NBUF]) = 0 # [Suc 0..<NBUF]" unfolding rev_rev_ident by (rule upt_conv_Cons) simp
  have "7 \<notin> cached st \<and> bread st 1 7 = Ok (c, st')" using r b(3) by simp
  then have "List.find (\<lambda>i. b_refcnt (bufs st i) = 0 \<and> b_flags (bufs st i) AND B_DIRTY = 0) (rev (rev [0..<NBUF])) = Some c"
    using lru_policy [OF b(1) l s, of _ 7 c st'] by blast
  then have "c = 0" unfolding u find.simps using f by (simp only: if_True simp_thms option.inject)
  with r b(1) l show ?thesis unfolding st_def [symmetric] Let_def by blast
qed

end
