(* ===== verification/Layout.thy ===== *)
theory Layout
  imports Bio
begin

text \<open>
  The on-disk format, \<open>fs.h\<close>: fields are read from and stored into the bytes of a block at the offsets
  the C structures give them (little endian), so that two structures in one block can only be kept
  apart by their offsets.
\<close>

section \<open>Definitions\<close>

definition get16 :: "block \<Rightarrow> nat \<Rightarrow> u16" where
  "get16 d i = join16 (d ! i) (d ! (i + 1))"

definition put16 :: "block \<Rightarrow> nat \<Rightarrow> u16 \<Rightarrow> block" where
  "put16 d i w = d[i := byte_of 0 w, i + 1 := byte_of 1 w]"

definition get32 :: "block \<Rightarrow> nat \<Rightarrow> u32" where
  "get32 d i = join32 (d ! i) (d ! (i + 1)) (d ! (i + 2)) (d ! (i + 3))"

definition put32 :: "block \<Rightarrow> nat \<Rightarrow> u32 \<Rightarrow> block" where
  "put32 d i w = d[i := byte_of 0 w, i + 1 := byte_of 1 w, i + 2 := byte_of 2 w, i + 3 := byte_of 3 w]"

record superblock =
  sb_size :: u32
  sb_nblocks :: u32
  sb_ninodes :: u32
  sb_nlog :: u32
  sb_logstart :: u32
  sb_inodestart :: u32
  sb_bmapstart :: u32

definition get_sb :: "block \<Rightarrow> superblock" where
  "get_sb d = \<lparr>sb_size = get32 d 0, sb_nblocks = get32 d 4, sb_ninodes = get32 d 8, sb_nlog = get32 d 12,
     sb_logstart = get32 d 16, sb_inodestart = get32 d 20, sb_bmapstart = get32 d 24\<rparr>"

abbreviation NDIRECT :: nat where "NDIRECT \<equiv> 12"
abbreviation NINDIRECT :: nat where "NINDIRECT \<equiv> 128"
abbreviation MAXFILE :: nat where "MAXFILE \<equiv> NDIRECT + NINDIRECT"

record dinode =
  di_type :: u16
  di_major :: u16
  di_minor :: u16
  di_nlink :: u16
  di_size :: u32
  di_addrs :: "u32 list"

abbreviation IPB :: u32 where "IPB \<equiv> 8"
abbreviation DINODE_SIZE :: nat where "DINODE_SIZE \<equiv> 64"

definition get_dinode :: "block \<Rightarrow> nat \<Rightarrow> dinode" where
  "get_dinode d k =
     (let base = k * DINODE_SIZE in
      \<lparr>di_type = get16 d base, di_major = get16 d (base + 2), di_minor = get16 d (base + 4), di_nlink = get16 d (base + 6),
       di_size = get32 d (base + 8), di_addrs = map (\<lambda>i. get32 d (base + 12 + 4 * i)) [0..<NDIRECT + 1]\<rparr>)"

primrec put32s :: "block \<Rightarrow> nat \<Rightarrow> u32 list \<Rightarrow> block" where
  "put32s d i [] = d"
| "put32s d i (w # ws) = put32s (put32 d i w) (i + 4) ws"

definition put_dinode :: "block \<Rightarrow> nat \<Rightarrow> dinode \<Rightarrow> block" where
  "put_dinode d k x =
     (let base = k * DINODE_SIZE;
          d = put16 d base (di_type x);
          d = put16 d (base + 2) (di_major x);
          d = put16 d (base + 4) (di_minor x);
          d = put16 d (base + 6) (di_nlink x);
          d = put32 d (base + 8) (di_size x)
      in put32s d (base + 12) (di_addrs x))"

definition IBLOCK :: "u32 \<Rightarrow> superblock \<Rightarrow> u32" where
  "IBLOCK i sb = i div IPB + sb_inodestart sb"

abbreviation BPB :: u32 where "BPB \<equiv> 4096"

definition BBLOCK :: "u32 \<Rightarrow> superblock \<Rightarrow> u32" where
  "BBLOCK b sb = b div BPB + sb_bmapstart sb"

abbreviation DIRSIZ :: nat where "DIRSIZ \<equiv> 14"
abbreviation DIRENT_SIZE :: nat where "DIRENT_SIZE \<equiv> 16"

record dirent =
  de_inum :: u16
  de_name :: "u8 list"

definition get_dirent :: "u8 list \<Rightarrow> dirent" where
  "get_dirent d = \<lparr>de_inum = get16 d 0, de_name = take DIRSIZ (drop 2 d)\<rparr>"

definition dirent_bytes :: "dirent \<Rightarrow> u8 list" where
  "dirent_bytes e = le16 (de_inum e) @ de_name e"

definition readsb :: "'a bstate_scheme \<Rightarrow> u32 \<Rightarrow> (superblock \<times> 'a bstate_scheme) res" where
  "readsb st dev =
     bindr (bread st dev 1) (\<lambda>(bp, st).
       let sb = get_sb (b_data (bufs st bp))
       in bindr (brelse st bp) (\<lambda>st. Ok (sb, st)))"

section \<open>Properties\<close>

lemma length_put [simp]: "length (put16 d i v) = length d" "length (put32 d i w) = length d"
  by (simp_all add: put16_def put32_def)

lemma length_put32s [simp]: "length (put32s d i ws) = length d"
  by (induction ws arbitrary: d i) simp_all

lemma get16_put16 [simp]: "i + 1 < length d \<Longrightarrow> get16 (put16 d i w) i = w"
  by (simp add: get16_def put16_def)

lemma get32_put32 [simp]: "i + 3 < length d \<Longrightarrow> get32 (put32 d i w) i = w"
  by (simp add: get32_def put32_def)

lemma put32_other: "j < i \<or> i + 4 \<le> j \<Longrightarrow> put32 d i w ! j = d ! j"
  by (auto simp: put32_def nth_list_update)

lemma put16_other: "j < i \<or> i + 2 \<le> j \<Longrightarrow> put16 d i w ! j = d ! j"
  by (auto simp: put16_def nth_list_update)

lemma get32_put32_other: "i + 4 \<le> j \<or> j + 4 \<le> i \<Longrightarrow> get32 (put32 d i w) j = get32 d j"
  by (auto simp: get32_def put32_other)

lemma get16_put32_other: "i + 4 \<le> j \<or> j + 2 \<le> i \<Longrightarrow> get16 (put32 d i w) j = get16 d j"
  by (auto simp: get16_def put32_other)

lemma get32_put16_other: "i + 2 \<le> j \<or> j + 4 \<le> i \<Longrightarrow> get32 (put16 d i w) j = get32 d j"
  by (auto simp: get32_def put16_other)

lemma get16_put16_other: "i + 2 \<le> j \<or> j + 2 \<le> i \<Longrightarrow> get16 (put16 d i w) j = get16 d j"
  by (auto simp: get16_def put16_other)

lemma put32s_other: "j < i \<or> i + 4 * length ws \<le> j \<Longrightarrow> put32s d i ws ! j = d ! j"
  by (induction ws arbitrary: d i) (auto simp: put32_other)

lemma get32_put32s_other:
  "j + 4 \<le> i \<or> i + 4 * length ws \<le> j \<Longrightarrow> get32 (put32s d i ws) j = get32 d j"
  by (auto simp: get32_def put32s_other)

lemma get16_put32s_other:
  "j + 2 \<le> i \<or> i + 4 * length ws \<le> j \<Longrightarrow> get16 (put32s d i ws) j = get16 d j"
  by (auto simp: get16_def put32s_other)

lemma get32_put32s:
  "k < length ws \<Longrightarrow> i + 4 * length ws \<le> length d \<Longrightarrow> get32 (put32s d i ws) (i + 4 * k) = ws ! k"
proof (induction ws arbitrary: d i k)
  case (Cons w ws)
  show ?case
  proof (cases k)
    case 0
    then show ?thesis using Cons.prems by (simp add: get32_put32s_other)
  next
    case (Suc k')
    then show ?thesis using Cons.IH [where k = k' and d = "put32 d i w" and i = "i + 4"] Cons.prems by (simp add: algebra_simps)
  qed
qed simp

end
