(* ===== verification/Log.thy ===== *)
theory Log
  imports Layout
begin

text \<open>
  The redo log, \<open>log.c\<close>.  Its variables extend the state of the buffer cache.  \<open>begin_op\<close> and the
  first half of \<open>end_op\<close> are single sections under \<open>log.lock\<close>; a caller that must wait gets
  \<open>Blocks\<close> and repeats the section.
\<close>

section \<open>Definitions\<close>

abbreviation MAXOPBLOCKS :: int where "MAXOPBLOCKS \<equiv> 10"
abbreviation LOGSIZE :: nat where "LOGSIZE \<equiv> 30"

record lstate = bstate +
  l_start :: u32
  l_size :: int
  l_outstanding :: int
  l_committing :: bool
  l_dev :: u32
  lh_n :: int
  lh_block :: "u32 list"

definition install_block :: "nat \<Rightarrow> 'a lstate_scheme \<Rightarrow> 'a lstate_scheme res" where
  "install_block tail st =
     bindr (bread st (l_dev st) (l_start st + of_nat tail + 1)) (\<lambda>(lbuf, st).
     bindr (idx (lh_block st) tail) (\<lambda>n.
     bindr (bread st (l_dev st) n) (\<lambda>(dbuf, st).
     bindr (bwrite (set_data st dbuf (b_data (bufs st lbuf))) dbuf) (\<lambda>st.
     bindr (brelse st lbuf) (\<lambda>st.
     brelse st dbuf)))))"

definition install_trans :: "'a lstate_scheme \<Rightarrow> 'a lstate_scheme res" where
  "install_trans st = for_each install_block [0..<nat (lh_n st)] st"

definition read_head :: "'a lstate_scheme \<Rightarrow> 'a lstate_scheme res" where
  "read_head st =
     bindr (bread st (l_dev st) (l_start st)) (\<lambda>(buf, st).
       let lh = b_data (bufs st buf);
           n = sint (get32 lh 0);
           st = st\<lparr>lh_n := n\<rparr>
       in if nat n > LOGSIZE then Undef ''log.lh.block''
          else brelse (st\<lparr>lh_block := map (\<lambda>i. get32 lh (4 + 4 * i)) [0..<nat n] @ drop (nat n) (lh_block st)\<rparr>) buf)"

definition head_block :: "block \<Rightarrow> int \<Rightarrow> u32 list \<Rightarrow> block" where
  "head_block d n bs = put32s (put32 d 0 (of_int n)) 4 (take (nat n) bs)"

definition write_head :: "'a lstate_scheme \<Rightarrow> 'a lstate_scheme res" where
  "write_head st =
     bindr (bread st (l_dev st) (l_start st)) (\<lambda>(buf, st).
     bindr (bwrite (set_data st buf (head_block (b_data (bufs st buf)) (lh_n st) (lh_block st))) buf) (\<lambda>st.
     brelse st buf))"

definition recover_from_log :: "'a lstate_scheme \<Rightarrow> 'a lstate_scheme res" where
  "recover_from_log st =
     bindr (read_head st) (\<lambda>st.
     bindr (install_trans st) (\<lambda>st.
     write_head (st\<lparr>lh_n := 0\<rparr>)))"

definition initlog :: "'a lstate_scheme \<Rightarrow> u32 \<Rightarrow> 'a lstate_scheme res" where
  "initlog st dev =
     (if 4 + 4 * LOGSIZE \<ge> BSIZE then Panic ''initlog: too big logheader''
      else bindr (readsb st dev) (\<lambda>(sb, st).
        recover_from_log (st\<lparr>l_start := sb_logstart sb, l_size := sint (sb_nlog sb), l_dev := dev\<rparr>)))"

definition begin_op :: "'a lstate_scheme \<Rightarrow> 'a lstate_scheme res" where
  "begin_op st =
     (if l_committing st then Blocks ''log''
      else if lh_n st + (l_outstanding st + 1) * MAXOPBLOCKS > int LOGSIZE then Blocks ''log''
      else Ok (st\<lparr>l_outstanding := l_outstanding st + 1\<rparr>))"

definition write_log_block :: "nat \<Rightarrow> 'a lstate_scheme \<Rightarrow> 'a lstate_scheme res" where
  "write_log_block tail st =
     bindr (bread st (l_dev st) (l_start st + of_nat tail + 1)) (\<lambda>(to, st).
     bindr (idx (lh_block st) tail) (\<lambda>n.
     bindr (bread st (l_dev st) n) (\<lambda>(from, st).
     bindr (bwrite (set_data st to (b_data (bufs st from))) to) (\<lambda>st.
     bindr (brelse st from) (\<lambda>st.
     brelse st to)))))"

definition write_log :: "'a lstate_scheme \<Rightarrow> 'a lstate_scheme res" where
  "write_log st = for_each write_log_block [0..<nat (lh_n st)] st"

definition commit :: "'a lstate_scheme \<Rightarrow> 'a lstate_scheme res" where
  "commit st =
     (if lh_n st > 0 then
        bindr (write_log st) (\<lambda>st.
        bindr (write_head st) (\<lambda>st.
        bindr (install_trans st) (\<lambda>st.
        write_head (st\<lparr>lh_n := 0\<rparr>))))
      else Ok st)"

text \<open>The part of \<open>end_op\<close> under the lock; the flag says whether the caller has to commit.\<close>

definition end_op_section :: "'a lstate_scheme \<Rightarrow> (bool \<times> 'a lstate_scheme) res" where
  "end_op_section st =
     (let st = st\<lparr>l_outstanding := l_outstanding st - 1\<rparr> in
      if l_committing st then Panic ''log.committing''
      else if l_outstanding st = 0 then Ok (True, st\<lparr>l_committing := True\<rparr>)
      else Ok (False, st))"

definition end_op :: "'a lstate_scheme \<Rightarrow> 'a lstate_scheme res" where
  "end_op st =
     bindr (end_op_section st) (\<lambda>(do_commit, st).
       if do_commit then bindr (commit st) (\<lambda>st. Ok (st\<lparr>l_committing := False\<rparr>)) else Ok st)"

text \<open>The search loop stops at the first entry for the block, or at \<open>n\<close>.\<close>

primrec find_block :: "u32 \<Rightarrow> u32 list \<Rightarrow> nat" where
  "find_block n [] = 0"
| "find_block n (x # xs) = (if x = n then 0 else Suc (find_block n xs))"

definition log_write :: "'a lstate_scheme \<Rightarrow> nat \<Rightarrow> 'a lstate_scheme res" where
  "log_write st b =
     (if lh_n st \<ge> int LOGSIZE \<or> lh_n st \<ge> l_size st - 1 then Panic ''too big a transaction''
      else if l_outstanding st < 1 then Panic ''log_write outside of trans''
      else let x = bufs st b;
               i = find_block (b_blockno x) (take (nat (lh_n st)) (lh_block st));
               st = st\<lparr>lh_block := (lh_block st)[i := b_blockno x]\<rparr>;
               st = (if int i = lh_n st then st\<lparr>lh_n := lh_n st + 1\<rparr> else st)
           in Ok (st\<lparr>bufs := (bufs st)(b := x\<lparr>b_flags := b_flags x OR B_DIRTY\<rparr>)\<rparr>))"

section \<open>Single steps\<close>

lemma log_frame:
  fixes st st' :: "'a lstate_scheme"
  assumes "cframe st' = cframe st"
  shows "l_start st' = l_start st \<and> l_size st' = l_size st \<and> l_outstanding st' = l_outstanding st \<and>
    l_committing st' = l_committing st \<and> l_dev st' = l_dev st \<and> lh_n st' = lh_n st \<and> lh_block st' = lh_block st"
  using assms by (cases st; cases st') (simp add: cframe_def)

lemma iderw_read_frame:
  "iderw st b = Ok st' \<Longrightarrow> cframe st' = cframe st"
  by (auto simp: iderw_def Let_def cframe_def split: if_splits)

lemma bread_frame:
  "bread st d n = Ok (b, st') \<Longrightarrow> cframe st' = cframe st"
  by (auto simp: bread_def bget_def lock_buf_def Let_def split: option.splits if_splits dest!: iderw_read_frame)
    (simp_all add: cframe_def)

lemma write_head_alt:
  "write_head st =
     bindr (bread st (l_dev st) (l_start st)) (\<lambda>(buf, s).
     bindr (bwrite (set_data s buf (head_block (b_data (bufs s buf)) (lh_n st) (lh_block st))) buf) (\<lambda>s.
     brelse s buf))"
  unfolding write_head_def
  by (intro bindr_cong refl) (auto dest!: bread_frame log_frame)

lemma install_block_alt:
  "tail < length (lh_block st) \<Longrightarrow> install_block tail st =
     bindr (bread st (l_dev st) (l_start st + of_nat tail + 1)) (\<lambda>(lbuf, s).
     bindr (bread s (l_dev st) (lh_block st ! tail)) (\<lambda>(dbuf, s).
     bindr (bwrite (set_data s dbuf (b_data (bufs s lbuf))) dbuf) (\<lambda>s.
     bindr (brelse s lbuf) (\<lambda>s.
     brelse s dbuf))))"
  unfolding install_block_def
  by (intro bindr_cong refl) (auto dest!: bread_frame log_frame)

lemma write_log_block_alt:
  "tail < length (lh_block st) \<Longrightarrow> write_log_block tail st =
     bindr (bread st (l_dev st) (l_start st + of_nat tail + 1)) (\<lambda>(to, s).
     bindr (bread s (l_dev st) (lh_block st ! tail)) (\<lambda>(from, s).
     bindr (bwrite (set_data s to (b_data (bufs s from))) to) (\<lambda>s.
     bindr (brelse s from) (\<lambda>s.
     brelse s to))))"
  unfolding write_log_block_def
  by (intro bindr_cong refl) (auto dest!: bread_frame log_frame)

section \<open>Writes as sequences\<close>

definition apply_writes :: "(u32 \<Rightarrow> block) \<Rightarrow> (u32 \<times> block) list \<Rightarrow> (u32 \<Rightarrow> block)" where
  "apply_writes d ws = foldl (\<lambda>d (n, x). d(n := x)) d ws"

lemma apply_writes_simps [simp]:
  "apply_writes d [] = d"
  "apply_writes d ((n, x) # ws) = apply_writes (d(n := x)) ws"
  by (simp_all add: apply_writes_def)

lemma apply_writes_append: "apply_writes d (us @ vs) = apply_writes (apply_writes d us) vs"
  by (simp add: apply_writes_def)

lemma apply_writes_snoc [simp]: "apply_writes d (ws @ [(n, x)]) = (apply_writes d ws)(n := x)"
  by (simp add: apply_writes_def)

lemma apply_writes_other: "n \<notin> fst ` set ws \<Longrightarrow> apply_writes d ws n = d n"
  by (induction ws arbitrary: d) auto

lemma apply_writes_same:
  "(n, x) \<in> set ws \<Longrightarrow> distinct (map fst ws) \<Longrightarrow> apply_writes d ws n = x"
  by (induction ws arbitrary: d) (auto simp: apply_writes_other image_iff)

text \<open>The blocks of the log on disk: the header and \<open>nlog - 1\<close> blocks after it, as the superblock says.\<close>

definition log_area :: "u32 \<Rightarrow> int \<Rightarrow> u32 set" where
  "log_area start nlog = {n. unat start \<le> unat n \<and> unat n < unat start + nat nlog}"

definition log_fits :: "u32 \<Rightarrow> int \<Rightarrow> u32 \<Rightarrow> bool" where
  "log_fits start nlog sz \<longleftrightarrow> 0 < nlog \<and> unat start + nat nlog \<le> unat sz"

definition logged :: "'a lstate_scheme \<Rightarrow> u32 list" where
  "logged st = take (nat (lh_n st)) (lh_block st)"

definition log_ok :: "'a lstate_scheme \<Rightarrow> bool" where
  "log_ok st \<longleftrightarrow>
     bcache_ok st \<and> held st = {} \<and> l_dev st = 1 \<and> length (lh_block st) = LOGSIZE \<and> lh_n st \<le> int LOGSIZE \<and>
     lh_n st < l_size st \<and> log_fits (l_start st) (l_size st) (disksize st) \<and> distinct (logged st) \<and>
     (\<forall>n\<in>set (logged st). n < disksize st \<and> n \<notin> log_area (l_start st) (l_size st))"

lemma length_logged: "log_ok st \<Longrightarrow> length (logged st) = nat (lh_n st)"
  by (auto simp: log_ok_def logged_def)

lemma log_slot:
  assumes "log_fits start nlog sz" "i + 1 < nat nlog"
  shows "unat (start + of_nat i + 1) = unat start + i + 1"
proof -
  have "unat start + i + 1 < 4294967296" using assms unat_u32_less [of sz] by (simp add: log_fits_def del: unat_u32_less)
  then show ?thesis by (simp add: unat_word_ariths unat_of_nat)
qed

lemma log_slot_area:
  assumes "log_fits start nlog sz" "i + 1 < nat nlog"
  shows "start + of_nat i + 1 \<in> log_area start nlog" "start + of_nat i + 1 < sz" "start + of_nat i + 1 \<noteq> start"
proof -
  note l = log_slot [OF assms]
  show "start + of_nat i + 1 \<in> log_area start nlog" "start + of_nat i + 1 < sz"
    using l assms by (auto simp: log_area_def log_fits_def word_less_nat_alt)
  show "start + of_nat i + 1 \<noteq> start"
  proof
    assume "start + of_nat i + 1 = start"
    from arg_cong [OF this, of unat] show False using l by simp
  qed
qed

lemma log_slot_inj:
  assumes "log_fits start nlog sz" "i + 1 < nat nlog" "j + 1 < nat nlog"
    "start + of_nat i + 1 = start + of_nat j + (1 :: u32)"
  shows "i = j"
  using arg_cong [OF assms(4), of unat] unfolding log_slot [OF assms(1,2)] log_slot [OF assms(1,3)] by linarith

section \<open>Loops\<close>

definition copy_to_log :: "'a lstate_scheme \<Rightarrow> nat list \<Rightarrow> (u32 \<times> block) list" where
  "copy_to_log st us = map (\<lambda>i. (l_start st + of_nat i + 1, content st (lh_block st ! i))) us"

definition copy_home :: "'a lstate_scheme \<Rightarrow> nat list \<Rightarrow> (u32 \<times> block) list" where
  "copy_home st us = map (\<lambda>i. (lh_block st ! i, content st (l_start st + of_nat i + 1))) us"

definition written_view :: "cache_view \<Rightarrow> (u32 \<times> block) list \<Rightarrow> cache_view" where
  "written_view v ws = v\<lparr>cv_content := apply_writes (cv_content v) ws, cv_disk := apply_writes (cv_disk v) ws,
     cv_trail := cv_trail v @ ws, cv_pinned := cv_pinned v - fst ` set ws\<rparr>"

lemma written_view_snoc:
  "written_view v (ws @ [(n, x)]) = (written_view v ws)\<lparr>cv_content := (cv_content (written_view v ws))(n := x),
     cv_disk := (cv_disk (written_view v ws))(n := x), cv_trail := cv_trail (written_view v ws) @ [(n, x)],
     cv_pinned := cv_pinned (written_view v ws) - {n}\<rparr>"
  by (simp add: written_view_def Diff_insert [of _ _ "fst ` set ws"])

lemma written_view_Nil [simp]: "written_view v [] = v"
  by (simp add: written_view_def)

lemma written_view_append: "written_view (written_view v us) vs = written_view v (us @ vs)"
proof -
  have "A - B - C = A - (B \<union> C)" for A B C :: "u32 set" by auto
  then show ?thesis by (simp add: written_view_def apply_writes_append image_Un)
qed

lemma written_viewD:
  assumes "cview s = written_view (cview st) ws"
  shows "content s = apply_writes (content st) ws" "memdisk s = apply_writes (memdisk st) ws"
    "pinned s = pinned st - fst ` set ws" "held s = held st" "disksize s = disksize st" "written s = written st @ ws"
  by (simp_all add: cviewD [OF assms] written_view_def)

lemma write_log_loop:
  assumes ok: "log_ok st" and pin: "set (logged st) \<subseteq> pinned st" "pinned st \<inter> log_area (l_start st) (l_size st) = {}"
    "card (pinned st) < NBUF"
  shows "\<exists>st'. write_log st = Ok st' \<and> bcache_ok st' \<and> cframe st' = cframe st \<and>
           cview st' = written_view (cview st) (copy_to_log st [0..<nat (lh_n st)])"
  unfolding write_log_def
proof (rule for_each_rule [where I = "\<lambda>us s. bcache_ok s \<and> cframe s = cframe st \<and>
      cview s = written_view (cview st) (copy_to_log st us)"])
  show "bcache_ok st \<and> cframe st = cframe st \<and> cview st = written_view (cview st) (copy_to_log st [])"
    using ok by (simp add: log_ok_def copy_to_log_def)
next
  fix us i vs s
  assume u: "[0..<nat (lh_n st)] = us @ i # vs"
    and s: "bcache_ok s \<and> cframe s = cframe st \<and> cview s = written_view (cview st) (copy_to_log st us)"
  have us: "us = [0..<i]" "i < nat (lh_n st)" using upt_split [OF u] by auto
  show "\<exists>s'. write_log_block i s = Ok s' \<and> bcache_ok s' \<and> cframe s' = cframe st \<and>
      cview s' = written_view (cview st) (copy_to_log st (us @ [i]))"
  proof -
    have f: "l_start s = l_start st" "l_dev s = 1" "lh_block s = lh_block st" using s ok log_frame [of s st] by (auto simp: log_ok_def)
    let ?src = "lh_block st ! i" and ?dst = "l_start st + of_nat i + 1"
    have i: "i + 1 < nat (l_size st)" "i < length (lh_block st)" using us(2) ok by (auto simp: log_ok_def)
    have sz: "log_fits (l_start st) (l_size st) (disksize st)" using ok by (simp add: log_ok_def)
    note slot = log_slot_area [OF sz i(1)]
    have src: "?src \<in> set (logged st)" using us(2) i(2) by (auto simp: logged_def in_set_conv_nth)
    have area: "fst ` set (copy_to_log st us) \<subseteq> log_area (l_start st) (l_size st)"
      using log_slot_area(1) [OF sz] us i(1) by (auto simp: copy_to_log_def)
    note v = written_viewD [OF conjunct2 [OF conjunct2 [OF s]]]
    have ps: "pinned s = pinned st" using v(3) pin(2) area by auto
    have cs: "content s ?src = content st ?src"
      using ok src area by (auto simp: v(1) log_ok_def intro!: apply_writes_other)
    have "\<exists>s'. write_log_block i s = Ok s' \<and> bcache_ok s' \<and> cframe s' = cframe s \<and>
        cview s' = (let x = content s ?src in (cview s)\<lparr>cv_content := (content s)(?dst := x),
             cv_disk := (memdisk s)(?dst := x), cv_trail := written s @ [(?dst, x)], cv_pinned := pinned s - {?dst}\<rparr>)"
      unfolding write_log_block_alt [of i s, unfolded f, OF i(2)]
      by (rule bc.copy_dst_first [of s ?src ?dst, unfolded cview_simps])
        (use s v ps ok slot src pin in \<open>auto simp: log_ok_def\<close>)
    moreover have "copy_to_log st (us @ [i]) = copy_to_log st us @ [(?dst, content st ?src)]"
      by (simp add: copy_to_log_def)
    then have "written_view (cview st) (copy_to_log st (us @ [i])) =
        (cview s)\<lparr>cv_content := (content s)(?dst := content st ?src), cv_disk := (memdisk s)(?dst := content st ?src),
          cv_trail := written s @ [(?dst, content st ?src)], cv_pinned := pinned s - {?dst}\<rparr>"
      using s by (simp only: written_view_snoc cview_simps flip: conjunct2 [OF conjunct2 [OF s]])
    ultimately show ?thesis using s cs by (simp only: Let_def)
  qed
qed

lemma install_trans_loop:
  assumes ok: "log_ok st" and pin: "pinned st \<inter> log_area (l_start st) (l_size st) = {}" "card (pinned st) < NBUF"
    "set (logged st) \<subseteq> pinned st \<or> card (pinned st) + 1 < NBUF"
  shows "\<exists>st'. install_trans st = Ok st' \<and> bcache_ok st' \<and> cframe st' = cframe st \<and>
           cview st' = written_view (cview st) (copy_home st [0..<nat (lh_n st)])"
  unfolding install_trans_def
proof (rule for_each_rule [where I = "\<lambda>us s. bcache_ok s \<and> cframe s = cframe st \<and>
      cview s = written_view (cview st) (copy_home st us)"])
  show "bcache_ok st \<and> cframe st = cframe st \<and> cview st = written_view (cview st) (copy_home st [])"
    using ok by (simp add: log_ok_def copy_home_def)
next
  fix us i vs s
  assume u: "[0..<nat (lh_n st)] = us @ i # vs"
    and s: "bcache_ok s \<and> cframe s = cframe st \<and> cview s = written_view (cview st) (copy_home st us)"
  have us: "us = [0..<i]" "i < nat (lh_n st)" using upt_split [OF u] by auto
  show "\<exists>s'. install_block i s = Ok s' \<and> bcache_ok s' \<and> cframe s' = cframe st \<and>
      cview s' = written_view (cview st) (copy_home st (us @ [i]))"
  proof -
    have f: "l_start s = l_start st" "l_dev s = 1" "lh_block s = lh_block st" using s ok log_frame [of s st] by (auto simp: log_ok_def)
    let ?dst = "lh_block st ! i" and ?src = "l_start st + of_nat i + 1"
    have i: "i + 1 < nat (l_size st)" "i < length (lh_block st)" using us(2) ok by (auto simp: log_ok_def)
    have sz: "log_fits (l_start st) (l_size st) (disksize st)" using ok by (simp add: log_ok_def)
    note slot = log_slot_area [OF sz i(1)]
    have lg: "lh_block st ! k = logged st ! k" if "k \<le> i" for k using that us(2) by (simp add: logged_def)
    have len: "i < length (logged st)" using us(2) ok by (simp add: length_logged)
    have dst: "?dst \<in> set (logged st)" using len lg [of i] by simp
    have home: "fst ` set (copy_home st us) = (!) (logged st) ` {0..<i}"
      using us lg by (force simp: copy_home_def image_iff)
    have area: "fst ` set (copy_home st us) \<inter> log_area (l_start st) (l_size st) = {}"
      using ok len unfolding home by (auto simp: log_ok_def)
    have new: "?dst \<notin> fst ` set (copy_home st us)"
      using ok len lg [of i] unfolding home by (auto simp: log_ok_def nth_eq_iff_index_eq)
    note v = written_viewD [OF conjunct2 [OF conjunct2 [OF s]]]
    have cs: "content s ?src = content st ?src" using slot(1) area by (auto simp: v(1) intro!: apply_writes_other)
    have "card (pinned s) \<le> card (pinned st)" unfolding v(3) by (simp add: card_Diff_subset_Int finite_pinned)
    moreover have "card (insert ?src (pinned s)) \<le> Suc (card (pinned s))"
      by (simp add: card_insert_if finite_pinned)
    moreover have "?dst \<in> pinned st \<Longrightarrow> ?dst \<in> pinned s" using new v(3) by simp
    ultimately have room: "?src \<in> pinned s \<or> card (pinned s) < NBUF" "?dst \<in> pinned s \<or> card (insert ?src (pinned s)) < NBUF"
      using pin(2,3) dst by auto
    have "\<exists>s'. install_block i s = Ok s' \<and> bcache_ok s' \<and> cframe s' = cframe s \<and>
        cview s' = (let x = content s ?src in (cview s)\<lparr>cv_content := (content s)(?dst := x),
             cv_disk := (memdisk s)(?dst := x), cv_trail := written s @ [(?dst, x)], cv_pinned := pinned s - {?dst}\<rparr>)"
      unfolding install_block_alt [of i s, unfolded f, OF i(2)]
      by (rule bc.copy_src_first [of s ?src ?dst, unfolded cview_simps])
        (use s v ok slot dst room in \<open>auto simp: log_ok_def\<close>)
    moreover have "copy_home st (us @ [i]) = copy_home st us @ [(?dst, content st ?src)]"
      by (simp add: copy_home_def)
    then have "written_view (cview st) (copy_home st (us @ [i])) =
        (cview s)\<lparr>cv_content := (content s)(?dst := content st ?src), cv_disk := (memdisk s)(?dst := content st ?src),
          cv_trail := written s @ [(?dst, content st ?src)], cv_pinned := pinned s - {?dst}\<rparr>"
      using s by (simp only: written_view_snoc cview_simps flip: conjunct2 [OF conjunct2 [OF s]])
    ultimately show ?thesis using s cs by (simp only: Let_def)
  qed
qed

lemma write_head_ok:
  assumes "log_ok st" "card (pinned st) < NBUF"
  shows "\<exists>st'. write_head st = Ok st' \<and> bcache_ok st' \<and> cframe st' = cframe st \<and>
    cview st' = written_view (cview st) [(l_start st, head_block (content st (l_start st)) (lh_n st) (lh_block st))]"
proof -
  have "l_dev st = 1" "l_start st < disksize st" using assms(1) by (auto simp: log_ok_def log_fits_def word_less_nat_alt)
  then show ?thesis
    using bc.write_through [of st "l_start st" "\<lambda>d. head_block d (lh_n st) (lh_block st)"] assms
    unfolding write_head_alt by (simp only: cview_simps written_view_def Let_def) (simp add: log_ok_def)
qed

end
