(* ===== verification/LogCrash.thy ===== *)
theory LogCrash
  imports Log
begin

text \<open>
  Commit, recovery and crashes.  A crash keeps the block writes that reached the disk, a prefix of
  the trail, and loses all memory; the next boot runs \<open>initlog\<close> on that disk.
\<close>

section \<open>Commit\<close>

lemma log_ok_step:
  assumes "log_ok st" "bcache_ok s" "cframe s = cframe st" "cview s = written_view (cview st) ws"
  shows "log_ok s"
  using assms log_frame [OF assms(3)] written_viewD [OF assms(4)] by (simp add: log_ok_def logged_def)

definition install_writes :: "'a lstate_scheme \<Rightarrow> (u32 \<times> block) list" where
  "install_writes st = map (\<lambda>i. (lh_block st ! i, content st (lh_block st ! i))) [0..<nat (lh_n st)]"

definition commit_head :: "'a lstate_scheme \<Rightarrow> block" where
  "commit_head st = head_block (content st (l_start st)) (lh_n st) (lh_block st)"

definition commit_writes :: "'a lstate_scheme \<Rightarrow> (u32 \<times> block) list" where
  "commit_writes st =
     copy_to_log st [0..<nat (lh_n st)] @ [(l_start st, commit_head st)] @
     install_writes st @ [(l_start st, head_block (commit_head st) 0 (lh_block st))]"

lemma copy_to_log_area:
  assumes "log_ok st" "(n, x) \<in> set (copy_to_log st [0..<nat (lh_n st)])"
  shows "n \<in> log_area (l_start st) (l_size st) \<and> n \<noteq> l_start st"
proof -
  have "log_fits (l_start st) (l_size st) (disksize st)" "lh_n st < l_size st"
    using assms(1) by (auto simp: log_ok_def)
  then show ?thesis using assms(2) log_slot_area(1,3) by (fastforce simp: copy_to_log_def)
qed

lemma distinct_copy_to_log:
  assumes "log_ok st"
  shows "distinct (map fst (copy_to_log st [0..<nat (lh_n st)]))"
proof -
  have "log_fits (l_start st) (l_size st) (disksize st)" "lh_n st < l_size st"
    using assms by (auto simp: log_ok_def)
  then show ?thesis using log_slot_inj
    by (auto simp: copy_to_log_def distinct_map comp_def intro!: inj_onI)
qed

lemma install_writes_fst: "log_ok st \<Longrightarrow> map fst (install_writes st) = logged st"
  by (auto simp: install_writes_def logged_def log_ok_def comp_def intro!: nth_equalityI)

lemma install_writes_area:
  "log_ok st \<Longrightarrow> (n, x) \<in> set (install_writes st) \<Longrightarrow> n \<in> set (logged st) \<and> x = content st n \<and> n \<notin> log_area (l_start st) (l_size st)"
proof -
  assume ok: "log_ok st" and n: "(n, x) \<in> set (install_writes st)"
  have "n \<in> set (logged st)" using n install_writes_fst [OF ok] by (metis in_set_zipE zip_map_fst_snd)
  then show ?thesis using ok n by (auto simp: log_ok_def install_writes_def)
qed

lemma start_in_area: "log_ok st \<Longrightarrow> l_start st \<in> log_area (l_start st) (l_size st)"
  by (simp add: log_area_def log_ok_def log_fits_def)

lemma copied_in_log:
  assumes "log_ok st" "i < nat (lh_n st)"
  shows "apply_writes d (copy_to_log st [0..<nat (lh_n st)]) (l_start st + of_nat i + 1) = content st (lh_block st ! i)"
  using assms by (intro apply_writes_same distinct_copy_to_log) (auto simp: copy_to_log_def)

lemma commit_ok:
  assumes ok: "log_ok st" and n: "0 < lh_n st" and pin: "pinned st = set (logged st)" "card (pinned st) < NBUF"
  shows "\<exists>st'. commit st = Ok st' \<and> log_ok st' \<and> cframe st' = cframe (st\<lparr>lh_n := 0\<rparr>) \<and>
           cview st' = written_view (cview st) (commit_writes st)"
proof -
  have pa: "pinned st \<inter> log_area (l_start st) (l_size st) = {}" using ok pin(1) by (auto simp: log_ok_def)
  let ?n = "nat (lh_n st)" and ?s = "l_start st"
  obtain s1 where 1: "write_log st = Ok s1" "bcache_ok s1" "cframe s1 = cframe st"
      "cview s1 = written_view (cview st) (copy_to_log st [0..<?n])"
    using write_log_loop [OF ok _ pa pin(2)] pin(1) by auto
  note v1 = written_viewD [OF 1(4)] and f1 = log_frame [OF 1(3)]
  have ok1: "log_ok s1" by (rule log_ok_step [OF ok 1(2-4)])
  have p1: "pinned s1 = pinned st" using v1(3) copy_to_log_area [OF ok] pa by auto
  have c1: "content s1 ?s = content st ?s"
    unfolding v1(1) by (rule apply_writes_other) (use copy_to_log_area [OF ok] in force)
  obtain s2 where 2: "write_head s1 = Ok s2" "bcache_ok s2" "cframe s2 = cframe s1"
      "cview s2 = written_view (cview s1) [(?s, commit_head st)]"
    using write_head_ok [OF ok1] p1 pin(2) f1 c1 by (auto simp: commit_head_def)
  note v2 = written_viewD [OF 2(4)]
  have f2: "l_start s2 = ?s" "l_size s2 = l_size st" "lh_n s2 = lh_n st" "lh_block s2 = lh_block st" "logged s2 = logged st"
    using log_frame [OF 2(3)] f1 by (simp_all add: logged_def)
  have ok2: "log_ok s2" by (rule log_ok_step [OF ok1 2(2-4)])
  have p2: "pinned s2 = pinned st" using v2(3) p1 pa start_in_area [OF ok] by auto
  have "copy_home s2 [0..<?n] = install_writes st"
    unfolding copy_home_def install_writes_def f2
  proof (rule map_cong [OF refl])
    fix i assume i: "i \<in> set [0..<?n]"
    then have "i + 1 < nat (l_size st)" using ok by (auto simp: log_ok_def)
    then have "?s + of_nat i + 1 \<noteq> ?s" using log_slot_area(3) ok by (auto simp: log_ok_def)
    then have "content s2 (?s + of_nat i + 1) = content s1 (?s + of_nat i + 1)" by (simp add: v2(1))
    also have "\<dots> = content st (lh_block st ! i)" unfolding v1(1) using copied_in_log [OF ok] i by simp
    finally show "(lh_block st ! i, content s2 (?s + of_nat i + 1)) = (lh_block st ! i, content st (lh_block st ! i))" by simp
  qed
  then obtain s3 where 3: "install_trans s2 = Ok s3" "bcache_ok s3" "cframe s3 = cframe s2"
      "cview s3 = written_view (cview s2) (install_writes st)"
    using install_trans_loop [OF ok2] p2 pa pin f2 by auto
  note v3 = written_viewD [OF 3(4)]
  have ok3: "log_ok s3" by (rule log_ok_step [OF ok2 3(2-4)])
  define s3' where "s3' = s3\<lparr>lh_n := 0\<rparr>"
  have same: "bcache_ok s3' = bcache_ok s3" "content s3' = content s3" "pinned s3' = pinned s3" "held s3' = held s3" "cview s3' = cview s3"
    using same_cache [of s3' s3] by (simp_all add: s3'_def cview_def)
  have ok3': "log_ok s3'" using ok3 same by (simp add: log_ok_def log_fits_def s3'_def logged_def)
  have f3: "l_start s3' = ?s" "lh_block s3' = lh_block st" using log_frame [OF 3(3)] f2 by (simp_all add: s3'_def)
  have c3: "content s3' ?s = commit_head st"
  proof -
    have "content s3 ?s = content s2 ?s" unfolding v3(1)
      by (rule apply_writes_other) (use install_writes_area [OF ok] start_in_area [OF ok] in force)
    then show ?thesis by (simp add: same v2(1))
  qed
  have "card (pinned s3') \<le> card (pinned st)"
    unfolding same v3(3) p2 by (simp add: card_Diff_subset_Int finite_pinned)
  then obtain s4 where 4: "write_head s3' = Ok s4" "bcache_ok s4" "cframe s4 = cframe s3'"
      "cview s4 = written_view (cview s3') [(?s, head_block (commit_head st) 0 (lh_block st))]"
    using write_head_ok [OF ok3'] pin(2) f3 c3 by (auto simp: s3'_def)
  have "log_ok s4" by (rule log_ok_step [OF ok3' 4(2-4)])
  moreover have "commit st = Ok s4" using 1(1) 2(1) 3(1) 4(1) n by (simp add: commit_def s3'_def)
  moreover have "cview s4 = written_view (cview st) (commit_writes st)"
    using 4(4) unfolding same 3(4) 2(4) 1(4) written_view_append commit_writes_def by simp
  moreover have "cframe s4 = cframe (st\<lparr>lh_n := 0\<rparr>)"
  proof -
    have "cframe s3 = cframe st" using 1(3) 2(3) 3(3) by simp
    then show ?thesis unfolding 4(3) s3'_def by (cases s3; cases st) (simp add: cframe_def)
  qed
  ultimately show ?thesis by blast
qed

section \<open>Recovery\<close>

definition head_n :: "block \<Rightarrow> int" where
  "head_n h = sint (get32 h 0)"

definition head_blocks :: "block \<Rightarrow> u32 list" where
  "head_blocks h = map (\<lambda>i. get32 h (4 + 4 * i)) [0..<nat (head_n h)]"

lemma read_head_ok:
  assumes ok: "bcache_ok st" "held st = {}" "card (pinned st) < NBUF" "l_dev st = 1" "l_start st < disksize st"
    and n: "head_n (content st (l_start st)) \<le> int LOGSIZE"
  shows "\<exists>st'. read_head st = Ok st' \<and> bcache_ok st' \<and> cview st' = cview st \<and>
    cframe st' = cframe (st\<lparr>lh_n := head_n (content st (l_start st)),
      lh_block := head_blocks (content st (l_start st)) @ drop (nat (head_n (content st (l_start st)))) (lh_block st)\<rparr>)"
proof -
  let ?h = "content st (l_start st)"
  obtain b s1 where 1: "bread st 1 (l_start st) = Ok (b, s1)" "bcache_ok s1" "slot s1 b (l_start st)"
      "cview s1 = (cview st)\<lparr>cv_held := {l_start st}\<rparr>" "cframe s1 = cframe st"
    using bread_view [OF ok(1), of "l_start st"] ok by auto
  have c1: "content s1 = content st" "memdisk s1 = memdisk st" "held s1 = {l_start st}" "pinned s1 = pinned st"
    by (simp_all add: cviewD [OF 1(4)])
  have d: "b_data (bufs s1 b) = ?h" using content_slot [OF 1(2,3)] c1 by simp
  define s2 where "s2 = s1\<lparr>lh_n := head_n ?h, lh_block := head_blocks ?h @ drop (nat (head_n ?h)) (lh_block s1)\<rparr>"
  have same: "bcache_ok s2" "slot s2 b (l_start st)" "content s2 = content s1" "held s2 = held s1" "pinned s2 = pinned s1"
      "memdisk s2 = memdisk s1" "cview s2 = cview s1"
    using same_cache [of s2 s1] 1(2,3) by (simp_all add: s2_def cview_def)
  have "l_start st \<in> pinned s2 \<or> content s2 (l_start st) = memdisk s2 (l_start st)"
    using content_clean [OF ok(1)] ok(2) same c1 by auto
  then obtain s3 where 3: "brelse s2 b = Ok s3" "bcache_ok s3" "cview s3 = (cview s2)\<lparr>cv_held := held s2 - {l_start st}\<rparr>"
      "cframe s3 = cframe s2"
    using brelse_view [OF same(1,2)] same c1 by auto
  have "read_head st = Ok s3"
    using 1(1) 3(1) n d ok(4) by (simp add: read_head_def Let_def s2_def head_n_def head_blocks_def)
  moreover have "cview s3 = cview st"
    using 3(3) unfolding same 1(4) c1 by (simp add: ok(2) flip: cview_simps(3) [of st])
  moreover have "cframe s3 = cframe (st\<lparr>lh_n := head_n ?h, lh_block := head_blocks ?h @ drop (nat (head_n ?h)) (lh_block st)\<rparr>)"
    using 1(5) unfolding 3(4) s2_def by (cases s1; cases st) (simp add: cframe_def)
  ultimately show ?thesis using 3(2) by blast
qed

definition replay :: "u32 \<Rightarrow> (u32 \<Rightarrow> block) \<Rightarrow> (u32 \<times> block) list" where
  "replay start d =
     map (\<lambda>i. (head_blocks (d start) ! i, d (start + of_nat i + 1))) [0..<nat (head_n (d start))]"

definition head_ok :: "u32 \<Rightarrow> int \<Rightarrow> u32 \<Rightarrow> block \<Rightarrow> bool" where
  "head_ok start nlog sz h \<longleftrightarrow> head_n h \<le> int LOGSIZE \<and> head_n h < nlog \<and> distinct (head_blocks h) \<and>
     (\<forall>n\<in>set (head_blocks h). n < sz \<and> n \<notin> log_area start nlog)"

lemma recover_ok:
  assumes ok: "bcache_ok st" "held st = {}" "pinned st = {}" "l_dev st = 1" "length (lh_block st) = LOGSIZE"
    and sz: "log_fits (l_start st) (l_size st) (disksize st)"
    and h: "head_ok (l_start st) (l_size st) (disksize st) (memdisk st (l_start st))"
  shows "\<exists>st' h'. recover_from_log st = Ok st' \<and> log_ok st' \<and> lh_n st' = 0 \<and> l_start st' = l_start st \<and> l_size st' = l_size st \<and>
           memdisk st' = apply_writes (memdisk st) (replay (l_start st) (memdisk st) @ [(l_start st, h')])"
proof -
  let ?s = "l_start st" and ?h = "memdisk st (l_start st)"
  have cm: "content st = memdisk st" using content_clean [OF ok(1)] ok(2,3) by auto
  have lt: "?s < disksize st" using sz by (auto simp: log_fits_def word_less_nat_alt)
  obtain s1 where 1: "read_head st = Ok s1" "bcache_ok s1" "cview s1 = cview st"
      "cframe s1 = cframe (st\<lparr>lh_n := head_n ?h, lh_block := head_blocks ?h @ drop (nat (head_n ?h)) (lh_block st)\<rparr>)"
    using read_head_ok [OF ok(1,2) _ ok(4) lt] h ok(3) by (auto simp: cm head_ok_def)
  have c1: "content s1 = memdisk st" "memdisk s1 = memdisk st" "held s1 = {}" "pinned s1 = {}" "disksize s1 = disksize st"
    using ok cm by (simp_all add: cviewD [OF 1(3)])
  have f1: "l_start s1 = ?s" "l_size s1 = l_size st" "l_dev s1 = 1" "lh_n s1 = head_n ?h"
      "lh_block s1 = head_blocks ?h @ drop (nat (head_n ?h)) (lh_block st)"
    using log_frame [OF 1(4)] ok(4) by simp_all
  have len: "length (head_blocks ?h) = nat (head_n ?h)" by (simp add: head_blocks_def)
  have lg: "logged s1 = head_blocks ?h" by (simp add: logged_def f1 len)
  have ok1: "log_ok s1" using 1(2) c1 f1 lg h sz ok(5) len by (auto simp: log_ok_def head_ok_def)
  have "copy_home s1 [0..<nat (lh_n s1)] = replay ?s (memdisk st)"
    by (auto simp: copy_home_def replay_def f1 c1 nth_append len)
  then obtain s2 where 2: "install_trans s1 = Ok s2" "bcache_ok s2" "cframe s2 = cframe s1"
      "cview s2 = written_view (cview s1) (replay ?s (memdisk st))"
    using install_trans_loop [OF ok1] c1 by auto
  have ok2: "log_ok s2" by (rule log_ok_step [OF ok1 2(2-4)])
  note v2 = written_viewD [OF 2(4)]
  define s3 where "s3 = s2\<lparr>lh_n := 0\<rparr>"
  have same: "bcache_ok s3 = bcache_ok s2" "held s3 = held s2" "pinned s3 = {}" "cview s3 = cview s2" "memdisk s3 = memdisk s2"
    using same_cache [of s3 s2] v2(3) c1 by (simp_all add: s3_def cview_def)
  have ok3: "log_ok s3" using ok2 same by (simp add: log_ok_def log_fits_def s3_def logged_def)
  obtain s4 h' where 4: "write_head s3 = Ok s4" "bcache_ok s4" "cframe s4 = cframe s3"
      "cview s4 = written_view (cview s3) [(l_start s3, h')]"
    using write_head_ok [OF ok3] same by auto
  have "l_start s3 = ?s" using log_frame [OF 2(3)] f1 by (simp add: s3_def)
  then have "memdisk s4 = apply_writes (memdisk st) (replay ?s (memdisk st) @ [(?s, h')])"
    using written_viewD(2) [OF 4(4)] v2(2) c1 by (simp add: same)
  moreover have "log_ok s4" by (rule log_ok_step [OF ok3 4(2-4)])
  moreover have "lh_n s4 = 0" "l_start s4 = ?s" "l_size s4 = l_size st"
    using log_frame [OF 4(3)] log_frame [OF 2(3)] f1 by (simp_all add: s3_def)
  moreover have "recover_from_log st = Ok s4" using 1(1) 2(1) 4(1) by (simp add: recover_from_log_def s3_def)
  ultimately show ?thesis by blast
qed

section \<open>Boot after a crash\<close>

definition zero_lstate :: "(u32 \<Rightarrow> block) \<Rightarrow> u32 \<Rightarrow> lstate" where
  "zero_lstate d n =
     \<lparr>bufs = \<lambda>_. zero_buf, memdisk = d, disksize = n, written = [], mypid = 0,
      l_start = 0, l_size = 0, l_outstanding = 0, l_committing = False, l_dev = 0, lh_n = 0,
      lh_block = replicate LOGSIZE 0\<rparr>"

definition reboot :: "(u32 \<Rightarrow> block) \<Rightarrow> u32 \<Rightarrow> lstate res" where
  "reboot d n = initlog (binit (zero_lstate d n)) 1"

lemma readsb_ok:
  assumes "bcache_ok st" "held st = {}" "pinned st = {}" "1 < disksize st"
  shows "\<exists>st'. readsb st 1 = Ok (get_sb (memdisk st 1), st') \<and> bcache_ok st' \<and> cview st' = cview st \<and> cframe st' = cframe st"
proof -
  obtain b s1 s2 where r: "bread st 1 1 = Ok (b, s1)" "b_data (bufs s1 b) = content st 1" "brelse s1 b = Ok s2"
      "bcache_ok s2" "cview s2 = cview st" "cframe s2 = cframe st"
    using bc.read_release [of st 1] assms by (auto simp del: One_nat_def)
  moreover have "content st 1 = memdisk st 1" using content_clean [OF assms(1)] assms(2,3) by simp
  ultimately show ?thesis by (auto simp: readsb_def)
qed

lemma reboot_ok:
  assumes "1 < sz" and s: "sb_logstart (get_sb (d 1)) = start" "sint (sb_nlog (get_sb (d 1))) = nlog" "log_fits start nlog sz"
    and h: "head_ok start nlog sz (d start)"
  shows "\<exists>r h'. reboot d sz = Ok r \<and> log_ok r \<and> lh_n r = 0 \<and> l_start r = start \<and> l_size r = nlog \<and>
           memdisk r = apply_writes d (replay start d @ [(start, h')])"
proof -
  define z where "z = binit (zero_lstate d sz)"
  have z: "bcache_ok z" "held z = {}" "pinned z = {}" "memdisk z = d" "disksize z = sz" "cframe z = cframe (zero_lstate d sz)"
    using binit_ok [of "zero_lstate d sz"] bufs_frame [of z "zero_lstate d sz"]
    by (simp_all add: zero_lstate_def zero_buf_def z_def)
  obtain s1 where 1: "readsb z 1 = Ok (get_sb (d 1), s1)" "bcache_ok s1" "cview s1 = cview z" "cframe s1 = cframe z"
    using readsb_ok [OF z(1-3)] assms(1) z(4,5) by auto
  have c1: "memdisk s1 = d" "held s1 = {}" "pinned s1 = {}" "disksize s1 = sz"
    using z by (simp_all add: cviewD [OF 1(3)])
  define s2 where "s2 = s1\<lparr>l_start := start, l_size := nlog, l_dev := 1\<rparr>"
  have "length (lh_block s2) = LOGSIZE"
    using log_frame [of s1 "zero_lstate d sz"] 1(4) z(6) by (simp add: s2_def zero_lstate_def)
  then obtain r h' where "recover_from_log s2 = Ok r" "log_ok r" "lh_n r = 0" "l_start r = start" "l_size r = nlog"
      "memdisk r = apply_writes d (replay start d @ [(start, h')])"
    using recover_ok [of s2] same_cache [of s2 s1] 1(2) c1 s(3) h by (auto simp: s2_def)
  moreover have "reboot d sz = recover_from_log s2"
    using 1(1) s(1,2) by (simp add: reboot_def initlog_def z_def s2_def)
  ultimately show ?thesis by auto
qed

lemma sint_small: "0 \<le> n \<Longrightarrow> n \<le> 30 \<Longrightarrow> sint (word_of_int n :: u32) = n"
  by (simp add: signed_of_int signed_take_bit_int_eq_self)

lemma commit_head_decode:
  assumes ok: "log_ok st" "0 \<le> lh_n st" and len: "length (content st (l_start st)) = BSIZE"
  shows "head_n (commit_head st) = lh_n st" "head_blocks (commit_head st) = logged st"
    "head_n (head_block (commit_head st) 0 bs) = 0"
proof -
  let ?d = "put32 (content st (l_start st)) 0 (word_of_int (lh_n st))"
  have n: "lh_n st \<le> 30" using ok(1) by (simp add: log_ok_def)
  have ll: "length (logged st) = nat (lh_n st)" by (rule length_logged [OF ok(1)])
  have h: "commit_head st = put32s ?d 4 (logged st)" by (simp add: commit_head_def head_block_def logged_def)
  have "get32 (commit_head st) 0 = word_of_int (lh_n st)" unfolding h using len by (simp add: get32_put32s_other)
  then show hn: "head_n (commit_head st) = lh_n st" using ok(2) n by (simp add: head_n_def sint_small)
  have "get32 (commit_head st) (4 + 4 * i) = logged st ! i" if "i < nat (lh_n st)" for i
    unfolding h using that len n ll by (intro get32_put32s) auto
  then show "head_blocks (commit_head st) = logged st"
    unfolding head_blocks_def hn using ll by (auto intro: nth_equalityI)
  have "length (commit_head st) = BSIZE" unfolding h using len by simp
  then show "head_n (head_block (commit_head st) 0 bs) = 0" by (simp add: head_n_def head_block_def)
qed

definition committed :: "'a lstate_scheme \<Rightarrow> u32 \<Rightarrow> block" where
  "committed st n = (if n \<in> set (logged st) then content st n else memdisk st n)"

lemma apply_install_writes:
  assumes "log_ok st"
  shows "apply_writes d (install_writes st) m = (if m \<in> set (logged st) then content st m else d m)"
proof (cases "m \<in> set (logged st)")
  case True
  then have "m \<in> fst ` set (install_writes st)" using install_writes_fst [OF assms] by (metis set_map)
  then have "(m, content st m) \<in> set (install_writes st)" by (auto simp: install_writes_def)
  moreover have "distinct (map fst (install_writes st))"
    using assms by (simp add: install_writes_fst log_ok_def)
  ultimately show ?thesis using True apply_writes_same by simp
next
  case False
  then show ?thesis using install_writes_area [OF assms] by (auto intro!: apply_writes_other)
qed

lemma in_set_takeE: "x \<in> set (take k xs) \<Longrightarrow> x \<in> set xs"
  by (meson in_set_takeD)

lemma recover_empty:
  assumes "1 < sz" "sb_logstart (get_sb (d 1)) = start" "sint (sb_nlog (get_sb (d 1))) = nlog" "log_fits start nlog sz" "head_n (d start) = 0"
  shows "\<exists>r. reboot d sz = Ok r \<and> (\<forall>m. m \<notin> log_area start nlog \<longrightarrow> memdisk r m = d m)"
proof -
  have "head_ok start nlog sz (d start)" using assms(4,5) by (simp add: head_ok_def head_blocks_def log_fits_def)
  from reboot_ok [OF assms(1-4) this] obtain r h' where "reboot d sz = Ok r" "memdisk r = d(start := h')"
    by (auto simp: replay_def assms(5))
  moreover have "start \<in> log_area start nlog" using assms(4) by (simp add: log_area_def log_fits_def)
  ultimately show ?thesis by auto
qed

lemma crash_cases:
  assumes ok: "log_ok st" and n: "0 < lh_n st"
    and sb: "1 < disksize st" "sb_logstart (get_sb (memdisk st 1)) = l_start st" "sint (sb_nlog (get_sb (memdisk st 1))) = l_size st"
      "1 \<notin> log_area (l_start st) (l_size st)" "1 \<notin> set (logged st)"
    and head: "content st (l_start st) = memdisk st (l_start st)" "length (memdisk st (l_start st)) = BSIZE"
      "get32 (memdisk st (l_start st)) 0 = 0"
  shows "\<exists>r. reboot (apply_writes (memdisk st) (take k (commit_writes st))) (disksize st) = Ok r \<and>
     (\<forall>m. m \<notin> log_area (l_start st) (l_size st) \<longrightarrow> memdisk r m = (if k \<le> nat (lh_n st) then memdisk st m else committed st m))"
proof -
  let ?n = "nat (lh_n st)" and ?s = "l_start st" and ?sz = "disksize st"
  define W where "W = copy_to_log st [0..<?n]"
  define I where "I = install_writes st"
  define D where "D = apply_writes (memdisk st) (take k (commit_writes st))"
  have sz: "log_fits ?s (l_size st) ?sz" using ok by (simp add: log_ok_def)
  have len: "length W = ?n" "length I = ?n" by (simp_all add: W_def I_def copy_to_log_def install_writes_def)
  have Wa: "fst ` set W \<subseteq> log_area ?s (l_size st) - {?s}" using copy_to_log_area [OF ok] by (auto simp: W_def)
  have Ia: "fst ` set I = set (logged st)" using install_writes_fst [OF ok] by (metis I_def set_map)
  have la: "set (logged st) \<inter> log_area ?s (l_size st) = {}" using ok by (auto simp: log_ok_def)
  note dec = commit_head_decode [OF ok less_imp_le [OF n]] 
  have "set (commit_writes st) = set W \<union> {(?s, commit_head st)} \<union> set I \<union> {(?s, head_block (commit_head st) 0 (lh_block st))}"
    unfolding commit_writes_def W_def I_def set_append by simp
  then have "fst ` set (commit_writes st) = insert ?s (fst ` set W \<union> fst ` set I)"
    by (simp only: image_Un image_insert image_empty fst_conv) blast
  then have "fst ` set (commit_writes st) \<subseteq> log_area ?s (l_size st) \<union> set (logged st)"
    unfolding Ia using Wa start_in_area [OF ok] by auto
  then have "fst ` set (take k (commit_writes st)) \<subseteq> log_area ?s (l_size st) \<union> set (logged st)"
    using image_mono [OF set_take_subset [of k "commit_writes st"], of fst] by (rule order_trans [rotated])
  then have D1: "D 1 = memdisk st 1" unfolding D_def using sb(4,5) by (intro apply_writes_other) auto
  consider "k \<le> ?n" | j where "k = ?n + 1 + j" "j \<le> ?n" | "k > 2 * ?n + 1"
  proof -
    have "k = ?n + 1 + (k - ?n - 1) \<and> k - ?n - 1 \<le> ?n" if "\<not> k \<le> ?n" "\<not> k > 2 * ?n + 1" using that by linarith
    then show thesis using that by blast
  qed
  then show ?thesis
  proof cases
    case 1
    then have t: "take k (commit_writes st) = take k W" using len by (simp add: commit_writes_def W_def)
    have o: "D m = memdisk st m" if "m \<notin> log_area ?s (l_size st) - {?s}" for m
      unfolding D_def t using that Wa by (intro apply_writes_other) (auto dest!: in_set_takeE)
    have "head_n (D ?s) = 0" using o head(3) by (simp add: head_n_def)
    from recover_empty [of ?sz D ?s, OF sb(1) _ _ sz this] sb(2,3) D1 o show ?thesis using 1 by (auto simp: D_def)
  next
    case 2
    then have t: "take k (commit_writes st) = W @ [(?s, commit_head st)] @ take j I"
      using len by (simp add: commit_writes_def W_def I_def)
    have Ij: "fst ` set (take j I) \<subseteq> set (logged st)" using Ia by (auto dest!: in_set_takeE)
    have Ds: "D ?s = commit_head st"
      unfolding D_def t apply_writes_append using Ij la start_in_area [OF ok] by (subst apply_writes_other) auto
    have Dm: "D m = memdisk st m" if "m \<notin> log_area ?s (l_size st)" "m \<notin> set (logged st)" for m
      unfolding D_def t using that Ij Wa start_in_area [OF ok] by (intro apply_writes_other) auto
    have "D (?s + of_nat i + 1) = content st (lh_block st ! i)" if "i < ?n" for i
    proof -
      have i: "i + 1 < nat (l_size st)" using that ok by (auto simp: log_ok_def)
      note a = log_slot_area(1,3) [OF sz i]
      have "D (?s + of_nat i + 1) = apply_writes (memdisk st) W (?s + of_nat i + 1)"
        unfolding D_def t apply_writes_append using Ij la a by (subst apply_writes_other) auto
      then show ?thesis using copied_in_log [OF ok that] by (simp add: W_def)
    qed
    then have rp: "replay ?s D = I"
      using dec(1,2) head by (auto simp: replay_def Ds I_def install_writes_def logged_def)
    have "head_ok ?s (l_size st) ?sz (D ?s)" using ok dec head by (simp add: Ds head_ok_def log_ok_def)
    from reboot_ok [of ?sz D ?s, OF sb(1) _ _ sz this] sb(2,3) D1 obtain r h' where r: "reboot D ?sz = Ok r"
        "memdisk r = apply_writes D (I @ [(?s, h')])" by (auto simp: rp)
    have "memdisk r m = committed st m" if "m \<notin> log_area ?s (l_size st)" for m
      using that start_in_area [OF ok] Dm [OF that] apply_install_writes [OF ok, of D m]
      by (auto simp: r(2) I_def committed_def)
    then show ?thesis using r(1) 2 by (auto simp: D_def)
  next
    case 3
    then have t: "take k (commit_writes st) = W @ [(?s, commit_head st)] @ I @ [(?s, head_block (commit_head st) 0 (lh_block st))]"
      using len by (simp add: commit_writes_def W_def I_def)
    have "D ?s = head_block (commit_head st) 0 (lh_block st)" by (simp add: D_def t apply_writes_append)
    then have "head_n (D ?s) = 0" using dec(3) head by simp
    moreover have "D m = committed st m" if "m \<notin> log_area ?s (l_size st)" for m
    proof -
      have "apply_writes (memdisk st) (W @ [(?s, commit_head st)]) m = memdisk st m"
        using that Wa start_in_area [OF ok] by (intro apply_writes_other) auto
      then show ?thesis using that start_in_area [OF ok] apply_install_writes [OF ok]
        by (auto simp: D_def t apply_writes_append I_def committed_def)
    qed
    ultimately show ?thesis using recover_empty [of ?sz D ?s "l_size st"] sb(1-3) sz D1 3 by (auto simp: D_def)
  qed
qed

end
