(* ===== verification/LogOps.thy ===== *)
theory LogOps
  imports LogCrash
begin

text \<open>
  Operations on the log: what \<open>log_write\<close> records, and the space \<open>begin_op\<close> reserves for
  operations that run at the same time.
\<close>

section \<open>Recording a block\<close>

lemma find_block_le: "find_block n xs \<le> length xs"
  by (induction xs) auto

lemma find_block_in: "n \<in> set xs \<Longrightarrow> find_block n xs < length xs \<and> xs ! find_block n xs = n"
  by (induction xs) auto

lemma find_block_out: "n \<notin> set xs \<Longrightarrow> find_block n xs = length xs"
  by (induction xs) auto

lemma log_write_logged:
  assumes "0 \<le> lh_n st" "lh_n st < int (length (lh_block st))" "log_write st b = Ok st'"
  shows "logged st' = (let n = b_blockno (bufs st b) in if n \<in> set (logged st) then logged st else logged st @ [n]) \<and>
         lh_n st' = int (length (logged st')) \<and> length (lh_block st') = length (lh_block st)"
proof -
  let ?n = "b_blockno (bufs st b)"
  let ?i = "find_block ?n (take (nat (lh_n st)) (lh_block st))"
  have len: "length (logged st) = nat (lh_n st)" using assms(2) by (simp add: logged_def)
  have st': "lh_block st' = (lh_block st)[?i := ?n]" "lh_n st' = (if int ?i = lh_n st then lh_n st + 1 else lh_n st)"
    using assms(3) by (auto simp: log_write_def Let_def split: if_splits)
  show ?thesis
  proof (cases "?n \<in> set (logged st)")
    case True
    then have i: "?i < nat (lh_n st)" "lh_block st ! ?i = ?n"
      using find_block_in [of ?n "logged st"] len by (auto simp: logged_def)
    then have "lh_block st' = lh_block st" "lh_n st' = lh_n st" using st' by (metis list_update_id) (use i(1) st' in auto)
    then show ?thesis using True len assms(1) by (simp add: logged_def Let_def)
  next
    case False
    then have i: "?i = nat (lh_n st)" using find_block_out [of ?n "logged st"] len by (simp add: logged_def)
    then have "lh_n st' = lh_n st + 1" using st' assms(1) by simp
    moreover have "take (nat (lh_n st + 1)) ((lh_block st)[nat (lh_n st) := ?n]) = take (nat (lh_n st)) (lh_block st) @ [?n]"
      using assms(1,2) by (simp add: nat_add_distrib take_Suc_conv_app_nth)
    ultimately show ?thesis using False len st' i assms(1) by (simp add: logged_def Let_def)
  qed
qed

lemma log_write_frame:
  assumes "log_write st b = Ok st'"
  shows "l_start st' = l_start st \<and> l_size st' = l_size st \<and> l_outstanding st' = l_outstanding st \<and>
    l_committing st' = l_committing st \<and> l_dev st' = l_dev st \<and> memdisk st' = memdisk st \<and>
    written st' = written st \<and> disksize st' = disksize st \<and> mypid st' = mypid st \<and>
    bufs st' = (bufs st)(b := (bufs st b)\<lparr>b_flags := b_flags (bufs st b) OR B_DIRTY\<rparr>)"
  using assms by (auto simp: log_write_def Let_def split: if_splits)

lemma log_write_view:
  assumes ok: "bcache_ok st" "slot st b n" "n \<in> held st" and w: "log_write st b = Ok st'"
  shows "bcache_ok st' \<and> slot st' = slot st \<and> cview st' = (cview st)\<lparr>cv_pinned := insert n (pinned st)\<rparr>"
proof -
  note f = log_write_frame [OF w]
  define x where "x = (bufs st b)\<lparr>b_flags := b_flags (bufs st b) OR B_DIRTY\<rparr>"
  have b: "b < NBUF" "b_dev x = 1" "b_blockno x = n" using ok(2) by (auto simp: slot_def x_def)
  have okb: "buf_ok st b" using ok(1) b by (simp add: bcache_ok_def)
  have lk: "sl_locked (b_lock (bufs st b))" using held_slot [OF ok(1,2)] ok(3) by simp
  have xd: "is_dirty x" "is_valid x = is_valid (bufs st b)" unfolding x_def by (simp_all only: set_dirty) (simp add: is_valid_def)
  have "buf_ok st' b" using okb lk b f xd by (simp add: buf_ok_def Let_def x_def [symmetric]) (simp add: x_def)
  then have "bcache_ok st' \<and> slot st' b n \<and> (\<forall>i m. m \<in> held st \<and> slot st i m \<longrightarrow> slot st' i m) \<and>
         content st' = (content st)(n := b_data x) \<and>
         held st' = (if sl_locked (b_lock x) then insert n (held st) else held st - {n}) \<and>
         pinned st' = (if is_dirty x then insert n (pinned st) else pinned st - {n})"
    using f b ok(2) by (intro replace_buf [OF ok(1) b(1)]) (auto simp: x_def)
  moreover have "slot st' = slot st" using f by (auto simp: slot_def fun_eq_iff)
  moreover have "b_data x = content st n" "sl_locked (b_lock x)" using content_slot [OF ok(1,2)] lk by (simp_all add: x_def)
  ultimately show ?thesis using f xd(1) ok(3) by (auto simp: cview_def)
qed

section \<open>Concurrent operations\<close>

text \<open>
  The states the log goes through while file system operations run, together with the number of further
  blocks each operation in progress may still log; every operation starts with \<open>MAXOPBLOCKS\<close>.
  \<open>other\<close> stands for the steps that leave the variables of the log alone.
\<close>

inductive op_run :: "'a lstate_scheme \<Rightarrow> 'a lstate_scheme \<Rightarrow> nat list \<Rightarrow> bool" for st0 where
  start: "l_outstanding st0 = 0 \<Longrightarrow> lh_n st0 = 0 \<Longrightarrow> \<not> l_committing st0 \<Longrightarrow> length (lh_block st0) = LOGSIZE \<Longrightarrow>
    op_run st0 st0 []"
| begin_op: "op_run st0 st rem \<Longrightarrow> begin_op st = Ok st' \<Longrightarrow> op_run st0 st' (10 # rem)"
| log_write: "op_run st0 st rem \<Longrightarrow> i < length rem \<Longrightarrow> 0 < rem ! i \<Longrightarrow> log_write st b = Ok st' \<Longrightarrow>
    op_run st0 st' (rem[i := rem ! i - 1])"
| other: "op_run st0 st rem \<Longrightarrow> cframe st' = cframe st \<Longrightarrow> op_run st0 st' rem"
| end_op: "op_run st0 st (us @ r # vs) \<Longrightarrow> end_op_section st = Ok (False, st') \<Longrightarrow> op_run st0 st' (us @ vs)"
| end_commit: "op_run st0 st [r] \<Longrightarrow> end_op st = Ok st' \<Longrightarrow> op_run st0 st' []"

inductive_cases op_run_begin: "op_run st0 st (r # rem)"

lemma for_each_frame:
  assumes "\<And>x s s'. f x s = Ok s' \<Longrightarrow> g s' = g s" "for_each f xs s = Ok s'"
  shows "g s' = g s"
  using assms(2) by (induction xs arbitrary: s) (auto dest: assms(1))

lemma brelse_frame: "brelse st b = Ok st' \<Longrightarrow> cframe st' = cframe st"
  by (auto simp: brelse_def Let_def cframe_def split: if_splits)

lemma bwrite_frame: "bwrite st b = Ok st' \<Longrightarrow> cframe st' = cframe st"
  by (auto simp: bwrite_def Let_def split: if_splits dest!: iderw_read_frame) (simp add: cframe_def)

lemma set_data_frame [simp]: "cframe (set_data st b d) = cframe st"
  by (simp add: cframe_def set_data_def)

lemma write_head_frame: "write_head st = Ok st' \<Longrightarrow> cframe st' = cframe st"
  by (auto simp: write_head_def dest!: bread_frame bwrite_frame brelse_frame)

lemma write_log_frame: "write_log st = Ok st' \<Longrightarrow> cframe st' = cframe st"
  unfolding write_log_def
  by (erule for_each_frame [rotated])
    (auto simp: write_log_block_def dest!: bread_frame bwrite_frame brelse_frame)

lemma install_trans_frame: "install_trans st = Ok st' \<Longrightarrow> cframe st' = cframe st"
  unfolding install_trans_def
  by (erule for_each_frame [rotated])
    (auto simp: install_block_def dest!: bread_frame bwrite_frame brelse_frame)

lemma commit_frame:
  assumes "commit st = Ok st'" "0 \<le> lh_n st"
  shows "lh_n st' = 0 \<and> l_outstanding st' = l_outstanding st \<and> lh_block st' = lh_block st \<and> l_size st' = l_size st"
proof (cases "lh_n st > 0")
  case True
  then obtain s1 s2 s3 where 1: "write_log st = Ok s1" and 2: "write_head s1 = Ok s2" and 3: "install_trans s2 = Ok s3"
      and 4: "write_head (s3\<lparr>lh_n := 0\<rparr>) = Ok st'"
    using assms(1) by (auto simp: commit_def)
  show ?thesis
    using log_frame [OF write_log_frame [OF 1]] log_frame [OF write_head_frame [OF 2]]
      log_frame [OF install_trans_frame [OF 3]] log_frame [OF write_head_frame [OF 4]] by simp
next
  case False
  then show ?thesis using assms by (simp add: commit_def)
qed

lemma sum_list_dec: "i < length xs \<Longrightarrow> 0 < xs ! i \<Longrightarrow> sum_list (xs[i := xs ! i - 1]) + 1 = (sum_list xs :: nat)"
proof (induction xs arbitrary: i)
  case (Cons x xs)
  then show ?case by (cases i) auto
qed simp

lemma sum_list_le_const: "(\<forall>r\<in>set xs. r \<le> c) \<Longrightarrow> sum_list xs \<le> c * length (xs :: nat list)"
  by (induction xs) auto

lemma op_run_inv:
  "op_run st0 st rem \<Longrightarrow>
     \<not> l_committing st \<and> 0 \<le> lh_n st \<and> length (lh_block st) = LOGSIZE \<and> l_size st = l_size st0 \<and>
     l_outstanding st = int (length rem) \<and> (\<forall>r\<in>set rem. r \<le> 10) \<and> lh_n st + int (sum_list rem) \<le> int LOGSIZE"
proof (induction rule: op_run.induct)
  case (begin_op st rem st')
  then have "int (sum_list rem) \<le> 10 * int (length rem)" using sum_list_le_const [of rem 10] by linarith
  then show ?case using begin_op by (auto simp: begin_op_def split: if_splits)
next
  case (log_write st rem i b st')
  have n: "lh_n st < int LOGSIZE" using log_write.hyps(4) by (auto simp: log_write_def split: if_splits)
  have "int (length (logged st)) = lh_n st" using log_write.IH n by (simp add: logged_def)
  then have "0 \<le> lh_n st' \<and> lh_n st' \<le> lh_n st + 1 \<and> length (lh_block st') = LOGSIZE"
    using log_write_logged [of st b st'] log_write n by (auto simp: Let_def)
  moreover have "int (sum_list (rem[i := rem ! i - 1])) + 1 = int (sum_list rem)"
    using sum_list_dec [of i rem] log_write.hyps by linarith
  moreover have "r \<le> 10" if "r \<in> set (rem[i := rem ! i - 1])" for r
  proof -
    have "rem ! i \<in> set rem" using log_write.hyps(2) by simp
    moreover have "r = rem ! i - 1 \<or> r \<in> set rem" using that set_update_subset_insert [of rem i "rem ! i - 1"] by auto
    ultimately show ?thesis using log_write.IH by fastforce
  qed
  ultimately show ?case using log_write.IH log_write_frame [OF log_write.hyps(4)] by auto
next
  case (other st rem st')
  then show ?case using log_frame [of st' st] by simp
next
  case (end_op st us r vs st')
  then show ?case by (auto simp: end_op_section_def Let_def split: if_splits)
next
  case (end_commit st r st')
  then obtain s1 s2 where "end_op_section st = Ok (True, s1)" "commit s1 = Ok s2" "st' = s2\<lparr>l_committing := False\<rparr>"
    by (auto simp: end_op_def end_op_section_def Let_def split: if_splits)
  moreover from this have "0 \<le> lh_n s1" "lh_block s1 = lh_block st" "l_size s1 = l_size st" "l_outstanding s1 = 0"
    using end_commit.IH by (auto simp: end_op_section_def Let_def split: if_splits)
  ultimately show ?case using commit_frame [of s1 s2] end_commit.IH by simp
qed auto

lemma log_write_room:
  assumes "op_run st0 st rem" "i < length rem" "0 < rem ! i"
  shows "lh_n st < int LOGSIZE" "1 \<le> l_outstanding st"
    "lh_n st < l_size st0 - 1 \<Longrightarrow> \<exists>st'. log_write st b = Ok st'"
proof -
  note inv = op_run_inv [OF assms(1)]
  have "rem ! i \<le> sum_list rem" using assms(2) by (simp add: elem_le_sum_list)
  then show n: "lh_n st < int LOGSIZE" using inv assms(3) by linarith
  show o: "1 \<le> l_outstanding st" using inv assms(2) by auto
  show "\<exists>st'. log_write st b = Ok st'" if "lh_n st < l_size st0 - 1"
    using that inv n o by (auto simp: log_write_def Let_def)
qed

definition overcommit_init :: lstate where
  "overcommit_init = (zero_lstate (\<lambda>_. []) 1000)\<lparr>l_size := 30, bufs := \<lambda>i. zero_buf\<lparr>b_blockno := of_nat i\<rparr>\<rparr>"

lemma overcommit_start: "\<exists>st. op_run overcommit_init st [10, 10, 10] \<and> lh_n st = 0 \<and> (\<forall>i. b_blockno (bufs st i) = of_nat i)"
proof -
  let ?s = "\<lambda>k. overcommit_init\<lparr>l_outstanding := k\<rparr>"
  have "op_run overcommit_init overcommit_init []"
    by (rule op_run.start) (simp_all add: overcommit_init_def zero_lstate_def)
  moreover have b: "begin_op overcommit_init = Ok (?s 1)" "begin_op (?s 1) = Ok (?s 2)" "begin_op (?s 2) = Ok (?s 3)"
    by (simp_all add: begin_op_def overcommit_init_def zero_lstate_def)
  ultimately have "op_run overcommit_init (?s 3) [10, 10, 10]"
    using op_run.begin_op [OF op_run.begin_op [OF op_run.begin_op [OF _ b(1)] b(2)] b(3)] by blast
  then show ?thesis by (intro exI [of _ "?s 3"]) (simp add: overcommit_init_def zero_lstate_def zero_buf_def)
qed

lemma overcommit_writes:
  "k \<le> 29 \<Longrightarrow> \<exists>st rem. op_run overcommit_init st rem \<and> logged st = map of_nat [0..<k] \<and> lh_n st = int k \<and>
     sum_list rem + k = 30 \<and> (\<forall>i. b_blockno (bufs st i) = of_nat i)"
proof (induction k)
  case 0
  then show ?case using overcommit_start by (force simp: logged_def)
next
  case (Suc k)
  then obtain st rem where st: "op_run overcommit_init st rem" "logged st = map of_nat [0..<k]" "lh_n st = int k"
      "sum_list rem + k = 30" "\<forall>i. b_blockno (bufs st i) = of_nat i" by auto
  have "\<exists>i<length rem. 0 < rem ! i"
  proof (rule ccontr)
    assume "\<not> ?thesis"
    then have "\<forall>r\<in>set rem. r \<le> 0" by (auto simp: in_set_conv_nth)
    then have "sum_list rem \<le> 0 * length rem" by (rule sum_list_le_const)
    then show False using st(4) Suc.prems by linarith
  qed
  then obtain i where i: "i < length rem" "0 < rem ! i" by blast
  have "l_size overcommit_init = 30" by (simp add: overcommit_init_def)
  then obtain st' where w: "log_write st k = Ok st'" using log_write_room(3) [OF st(1) i, of k] st(3) Suc.prems by auto
  have inv: "length (lh_block st) = LOGSIZE" using op_run_inv [OF st(1)] by simp
  have "(of_nat k :: u32) \<notin> set (logged st)"
  proof
    assume "(of_nat k :: u32) \<in> set (logged st)"
    then obtain j where "j < k" "(of_nat k :: u32) = of_nat j" using st(2) by auto
    from arg_cong [OF this(2), of unat] show False using \<open>j < k\<close> Suc.prems by (simp add: unat_of_nat)
  qed
  then have "logged st' = map of_nat [0..<Suc k]" "lh_n st' = int (Suc k)"
    using log_write_logged [of st k st'] w st inv Suc.prems by (auto simp: Let_def)
  moreover have "sum_list (rem[i := rem ! i - 1]) + Suc k = 30" using sum_list_dec [OF i] st(4) by simp
  moreover have "\<forall>i. b_blockno (bufs st' i) = of_nat i" using log_write_frame [OF w] st(5) by simp
  ultimately show ?case using op_run.log_write [OF st(1) i w] by blast
qed

text \<open>C13. What \<open>begin_op\<close> reserves.  However operations begin, log blocks and end, an operation that has not used up its
  \<open>MAXOPBLOCKS\<close> finds fewer than \<open>LOGSIZE\<close> blocks in the log and is inside a transaction; \<open>log_write\<close> then fails
  only when the log on disk is full, which needs a log of at most \<open>LOGSIZE\<close> blocks, header included.  \<open>end_op\<close> of an
  operation never panics itself: the last one in progress runs \<open>commit\<close>, any other only gives up its reservation.\<close>

theorem log_reservation:
  assumes "op_run st0 st rem" "i < length rem" "0 < rem ! i"
  shows "lh_n st < int LOGSIZE \<and> 1 \<le> l_outstanding st \<and>
         (if lh_n st \<ge> l_size st0 - 1 then log_write st b = Panic ''too big a transaction'' \<and> l_size st0 \<le> int LOGSIZE
          else \<exists>st'. log_write st b = Ok st') \<and>
         end_op st = (if length rem = 1
           then bindr (commit (st\<lparr>l_outstanding := 0, l_committing := True\<rparr>)) (\<lambda>st. Ok (st\<lparr>l_committing := False\<rparr>))
           else Ok (st\<lparr>l_outstanding := int (length rem) - 1\<rparr>))"
proof -
  note inv = op_run_inv [OF assms(1)]
  have "end_op st = (if length rem = 1
      then bindr (commit (st\<lparr>l_outstanding := 0, l_committing := True\<rparr>)) (\<lambda>st. Ok (st\<lparr>l_committing := False\<rparr>))
      else Ok (st\<lparr>l_outstanding := int (length rem) - 1\<rparr>))"
    using inv assms(2) by (auto simp: end_op_def end_op_section_def Let_def)
  then show ?thesis using log_write_room [OF assms] inv by (auto simp: log_write_def Let_def)
qed

theorem log_reservation_witness:
  "\<exists>st. op_run overcommit_init st [10, 10, 10] \<and> (\<exists>st'. log_write st 5 = Ok st')"
proof -
  obtain st where st: "op_run overcommit_init st [10, 10, 10]" "lh_n st = 0" using overcommit_start by blast
  have "l_size overcommit_init = 30" by (simp add: overcommit_init_def)
  then show ?thesis using log_reservation [OF st(1), of 0 5] st by auto
qed

text \<open>C35. The reservation is one block too generous for the file systems \<open>mkfs\<close> makes, whose log has \<open>LOGSIZE\<close> blocks of
  which one is the header: three operations can be admitted together and each stay within \<open>MAXOPBLOCKS\<close>, and still the
  kernel panics on the last block.\<close>

theorem log_overcommit:
  "l_size overcommit_init = int LOGSIZE \<and>
   (\<exists>st rem i b. op_run overcommit_init st rem \<and> i < length rem \<and> 0 < rem ! i \<and>
      log_write st b = Panic ''too big a transaction'')"
proof -
  obtain st rem where st: "op_run overcommit_init st rem" "lh_n st = 29" "sum_list rem + 29 = 30"
    using overcommit_writes [of 29] by auto
  have "\<exists>i<length rem. 0 < rem ! i"
  proof (rule ccontr)
    assume "\<not> ?thesis"
    then have "\<forall>r\<in>set rem. r \<le> 0" by (auto simp: in_set_conv_nth)
    then have "sum_list rem \<le> 0 * length rem" by (rule sum_list_le_const)
    then show False using st(3) by linarith
  qed
  moreover have l: "l_size overcommit_init = 30" "l_size st = l_size overcommit_init"
    using op_run_inv [OF st(1)] by (simp_all add: overcommit_init_def)
  then have "log_write st 0 = Panic ''too big a transaction''" using st(2) by (simp add: log_write_def)
  ultimately show ?thesis using st(1) l(1) by auto
qed

section \<open>Crashes\<close>

text \<open>C1. Commit is atomic.  For a transaction of at most 29 blocks, all pinned in the cache, \<open>commit\<close> succeeds, and
  if the machine stops after any number \<open>k\<close> of the block writes it performs, the next boot recovers (without a
  panic) a disk in which every block but the \<open>nlog\<close> blocks of the log itself is either as before the transaction or as
  the transaction left it: the former for all of them when the header block had not been written, the latter for all of
  them from then on.\<close>

theorem commit_crash_atomic:
  assumes ok: "log_ok st" and n: "0 < lh_n st" "lh_n st < int LOGSIZE" and pin: "pinned st = set (logged st)"
    and sb: "1 < disksize st" "sb_logstart (get_sb (memdisk st 1)) = l_start st" "sint (sb_nlog (get_sb (memdisk st 1))) = l_size st"
      "1 \<notin> log_area (l_start st) (l_size st)" "1 \<notin> set (logged st)"
    and head: "length (memdisk st (l_start st)) = BSIZE" "get32 (memdisk st (l_start st)) 0 = 0"
  shows "\<exists>st'. commit st = Ok st' \<and> log_ok st' \<and> lh_n st' = 0 \<and> pinned st' = {} \<and>
           (\<forall>m. m \<notin> log_area (l_start st) (l_size st) \<longrightarrow> memdisk st' m = committed st m) \<and>
           (\<forall>k. let ws = drop (length (written st)) (written st');
                    d = apply_writes (memdisk st) (take k ws)
                in \<exists>r. reboot d (disksize st) = Ok r \<and>
                     (\<forall>m. m \<notin> log_area (l_start st) (l_size st) \<longrightarrow>
                        memdisk r m = (if k \<le> nat (lh_n st) then memdisk st m else committed st m)))"
proof -
  have len: "length (logged st) = nat (lh_n st)" by (rule length_logged [OF ok])
  have "card (pinned st) < NBUF" using card_length [of "logged st"] len n pin by simp
  then obtain st' where st': "commit st = Ok st'" "log_ok st'" "cframe st' = cframe (st\<lparr>lh_n := 0\<rparr>)"
      "cview st' = written_view (cview st) (commit_writes st)"
    using commit_ok [OF ok n(1) pin] by blast
  note v = written_viewD [OF st'(4)]
  have "l_start st \<notin> pinned st" using ok start_in_area [OF ok] by (auto simp: log_ok_def pin)
  then have h: "content st (l_start st) = memdisk st (l_start st)"
    using content_clean [of st "l_start st"] ok by (simp add: log_ok_def)
  have "lh_n st' = 0" using log_frame [OF st'(3)] by simp
  moreover have "pinned st' = {}"
    using install_writes_fst [OF ok] by (auto simp: v(3) pin commit_writes_def image_Un simp flip: set_map)
  moreover have "memdisk st' m = committed st m" if "m \<notin> log_area (l_start st) (l_size st)" for m
  proof -
    have s: "m \<noteq> l_start st" using that start_in_area [OF ok] by auto
    have "m \<notin> fst ` set (copy_to_log st [0..<nat (lh_n st)])" using that copy_to_log_area [OF ok] by auto
    then have "apply_writes (memdisk st) (copy_to_log st [0..<nat (lh_n st)]) m = memdisk st m" by (rule apply_writes_other)
    then show ?thesis using s apply_install_writes [OF ok]
      by (simp add: v(2) commit_writes_def apply_writes_append committed_def)
  qed
  moreover have ws: "drop (length (written st)) (written st') = commit_writes st" by (simp add: v(6))
  ultimately show ?thesis
    using st'(1,2) crash_cases [OF ok n(1) sb h head]
    by (intro exI [of _ st']) (simp add: Let_def ws)
qed

definition small_disk :: "u32 \<Rightarrow> block" where
  "small_disk n = (if n = 1 then put32 (put32 (replicate BSIZE 0) 12 30) 16 2 else replicate BSIZE 0)"

theorem commit_crash_atomic_witness:
  "\<exists>(st :: lstate) st'. log_ok st \<and> logged st = [32] \<and> content st 32 = replicate BSIZE 7 \<and> memdisk st 32 = replicate BSIZE 0 \<and>
     commit st = Ok st' \<and> memdisk st' 32 = replicate BSIZE 7"
proof -
  define z where "z = (binit (zero_lstate small_disk 1000))\<lparr>l_start := 2, l_size := 30, l_outstanding := 1, l_dev := 1\<rparr>"
  have z0: "bcache_ok z \<and> held z = {} \<and> pinned z = {} \<and> content z = small_disk \<and> memdisk z = small_disk \<and> disksize z = 1000"
  proof -
    let ?z = "binit (zero_lstate small_disk 1000)"
    have "bcache_ok ?z \<and> held ?z = {} \<and> pinned ?z = {} \<and> content ?z = small_disk \<and> memdisk ?z = small_disk \<and> disksize ?z = 1000 \<and>
        cframe ?z = cframe (zero_lstate small_disk 1000)"
      using binit_ok [of "zero_lstate small_disk 1000"] bufs_frame [of ?z "zero_lstate small_disk 1000"]
      by (simp add: zero_lstate_def zero_buf_def)
    then show ?thesis using same_cache [of z ?z] by (simp add: z_def)
  qed
  have zf: "l_start z = 2" "l_size z = 30" "l_outstanding z = 1" "l_dev z = 1" "lh_n z = 0" "lh_block z = replicate LOGSIZE 0"
  proof -
    have "cframe (binit (zero_lstate small_disk 1000)) = cframe (zero_lstate small_disk 1000)"
      by (simp add: cframe_def binit_def Let_def)
    from log_frame [OF this] show "l_start z = 2" "l_size z = 30" "l_outstanding z = 1" "l_dev z = 1" "lh_n z = 0" "lh_block z = replicate LOGSIZE 0"
      by (simp_all add: z_def zero_lstate_def)
  qed
  obtain b s1 where 1: "bcache_ok s1" "slot s1 b 32" "cview s1 = (cview z)\<lparr>cv_held := {32}\<rparr>" "cframe s1 = cframe z"
    using bread_view [of z 32] z0 by auto
  have v1: "held s1 = {32}" "pinned s1 = {}" "content s1 = small_disk" "memdisk s1 = small_disk" "disksize s1 = 1000"
    using z0 by (simp_all add: cviewD [OF 1(3)])
  define s2 where "s2 = set_data s1 b (replicate BSIZE 7)"
  have 2: "bcache_ok s2" "slot s2 b 32" "cview s2 = (cview s1)\<lparr>cv_content := (content s1)(32 := replicate BSIZE 7)\<rparr>" "cframe s2 = cframe z"
    using set_data_view [OF 1(1,2), of "replicate BSIZE 7"] v1 1(2,4) by (simp_all add: s2_def)
  have v2: "held s2 = {32}" "pinned s2 = {}" "content s2 = small_disk(32 := replicate BSIZE 7)" "memdisk s2 = small_disk" "disksize s2 = 1000"
    using v1 by (simp_all add: cviewD [OF 2(3)])
  note f2 = log_frame [OF 2(4), unfolded zf]
  obtain s3 where w: "log_write s2 b = Ok s3" using f2 by (auto simp: log_write_def Let_def)
  have 3: "bcache_ok s3 \<and> slot s3 = slot s2 \<and> cview s3 = (cview s2)\<lparr>cv_pinned := {32}\<rparr>"
    using log_write_view [OF 2(1,2) _ w] v2 by simp
  note f3 = log_write_frame [OF w]
  have bn: "b_blockno (bufs s2 b) = 32" using 2(2) by (simp add: slot_def)
  have l3: "logged s3 = [32] \<and> lh_n s3 = 1 \<and> length (lh_block s3) = LOGSIZE"
  proof -
    have "logged s2 = []" using f2 by (simp add: logged_def)
    then have "logged s3 = [32] \<and> lh_n s3 = int (length (logged s3)) \<and> length (lh_block s3) = LOGSIZE"
      using log_write_logged [of s2 b s3] w f2 bn by (simp add: Let_def)
    then show ?thesis by simp
  qed
  have v3: "held s3 = {32}" "pinned s3 = {32}" "content s3 = small_disk(32 := replicate BSIZE 7)" "memdisk s3 = small_disk" "disksize s3 = 1000"
    using cviewD [OF conjunct2 [OF conjunct2 [OF 3]]] f3 v2 by simp_all
  obtain s4 where 4: "bcache_ok s4" "cview s4 = (cview s3)\<lparr>cv_held := {}\<rparr>" "cframe s4 = cframe s3"
    using brelse_view [of s3 b 32] 3 v3 2(2) by auto
  have v4: "held s4 = {}" "pinned s4 = {32}" "content s4 = small_disk(32 := replicate BSIZE 7)" "memdisk s4 = small_disk" "disksize s4 = 1000"
    using v3 by (simp_all add: cviewD [OF 4(2)])
  have "logged s4 = logged s3" using log_frame [OF 4(3)] by (simp add: logged_def)
  then have f4: "l_start s4 = 2" "l_size s4 = 30" "l_dev s4 = 1" "lh_n s4 = 1" "logged s4 = [32]" "length (lh_block s4) = LOGSIZE"
    using log_frame [OF 4(3)] f3 f2 l3 by simp_all
  have ok: "log_ok s4" using 4(1) v4 f4 by (simp add: log_ok_def log_area_def log_fits_def)
  have h: "sb_logstart (get_sb (small_disk 1)) = 2" "sint (sb_nlog (get_sb (small_disk 1))) = 30" "length (small_disk 2) = BSIZE"
    by (simp_all add: small_disk_def get_sb_def get32_put32_other)
  have h0: "get32 (small_disk 2) 0 = 0" by (simp add: small_disk_def get32_def join32_def)
  obtain st' where "commit s4 = Ok st'" "memdisk st' 32 = committed s4 32"
    using commit_crash_atomic [OF ok] f4 v4 h h0 by (auto simp: log_area_def)
  moreover have "committed s4 32 = replicate BSIZE 7" using f4 v4 by (simp add: committed_def)
  moreover have "memdisk s4 32 = replicate BSIZE 0" using v4 by (simp add: small_disk_def)
  ultimately show ?thesis using ok f4 v4 by (intro exI [of _ s4] exI [of _ st']) simp
qed

end
