(* ===== verification/CString.thy ===== *)
theory CString
  imports Prelude
begin

text \<open>
  The byte and string routines of \<open>string.c\<close>, \<open>util.c\<close> and \<open>x86.h\<close>.  Routines that take
  pointers into kernel memory work on the byte memory of the prelude, so that overlap of source
  and destination is part of the model; \<open>atoi\<close> and \<open>strcmp\<close>, which the network code calls on
  local arrays, work on the array as a list and make a read past its end explicit.
\<close>

unbundle bit_operations_syntax

section \<open>Definitions\<close>

text \<open>\<open>rep stosb\<close> and \<open>rep stosl\<close>.\<close>

primrec stosb :: "mem \<Rightarrow> u32 \<Rightarrow> u32 \<Rightarrow> nat \<Rightarrow> mem" where
  "stosb m addr data 0 = m"
| "stosb m addr data (Suc cnt) = stosb (m(addr := ucast data)) (addr + 1) data cnt"

primrec stosl :: "mem \<Rightarrow> u32 \<Rightarrow> u32 \<Rightarrow> nat \<Rightarrow> mem" where
  "stosl m addr data 0 = m"
| "stosl m addr data (Suc cnt) = stosl (store32 m addr data) (addr + 4) data cnt"

definition memset :: "mem \<Rightarrow> u32 \<Rightarrow> u32 \<Rightarrow> u32 \<Rightarrow> mem" where
  "memset m dst c n =
     (if dst mod 4 = 0 \<and> n mod 4 = 0
      then let c = c AND 0xFF
           in stosl m dst (push_bit 24 c OR push_bit 16 c OR push_bit 8 c OR c) (unat (n div 4))
      else stosb m dst c (unat n))"

primrec memcmp :: "mem \<Rightarrow> u32 \<Rightarrow> u32 \<Rightarrow> nat \<Rightarrow> int" where
  "memcmp m s1 s2 0 = 0"
| "memcmp m s1 s2 (Suc n) =
     (if m s1 \<noteq> m s2 then uint (m s1) - uint (m s2) else memcmp m (s1 + 1) (s2 + 1) n)"

text \<open>The two loops of \<open>memmove\<close>: from the end of the regions down, and from their start up.\<close>

primrec move_down :: "mem \<Rightarrow> u32 \<Rightarrow> u32 \<Rightarrow> nat \<Rightarrow> mem" where
  "move_down m d s 0 = m"
| "move_down m d s (Suc n) = move_down (m(d - 1 := m (s - 1))) (d - 1) (s - 1) n"

primrec move_up :: "mem \<Rightarrow> u32 \<Rightarrow> u32 \<Rightarrow> nat \<Rightarrow> mem" where
  "move_up m d s 0 = m"
| "move_up m d s (Suc n) = move_up (m(d := m s)) (d + 1) (s + 1) n"

definition memmove :: "mem \<Rightarrow> u32 \<Rightarrow> u32 \<Rightarrow> u32 \<Rightarrow> mem" where
  "memmove m dst src n =
     (if src < dst \<and> src + n > dst then move_down m (dst + n) (src + n) (unat n)
      else move_up m dst src (unat n))"

primrec strncmp :: "mem \<Rightarrow> u32 \<Rightarrow> u32 \<Rightarrow> nat \<Rightarrow> int" where
  "strncmp m p q 0 = 0"
| "strncmp m p q (Suc n) =
     (if m p \<noteq> 0 \<and> m p = m q then strncmp m (p + 1) (q + 1) n else uint (m p) - uint (m q))"

text \<open>The second loop of \<open>strncpy\<close> fills the rest of the field with zeros.\<close>

primrec zero_fill :: "mem \<Rightarrow> u32 \<Rightarrow> nat \<Rightarrow> mem" where
  "zero_fill m s 0 = m"
| "zero_fill m s (Suc n) = zero_fill (m(s := 0)) (s + 1) n"

primrec strncpy :: "mem \<Rightarrow> u32 \<Rightarrow> u32 \<Rightarrow> nat \<Rightarrow> mem" where
  "strncpy m s t 0 = m"
| "strncpy m s t (Suc n) =
     (let m' = m(s := m t)
      in if m t \<noteq> 0 then strncpy m' (s + 1) (t + 1) n else zero_fill m' (s + 1) n)"

primrec safestrcpy_loop :: "mem \<Rightarrow> u32 \<Rightarrow> u32 \<Rightarrow> nat \<Rightarrow> mem" where
  "safestrcpy_loop m s t 0 = m(s := 0)"
| "safestrcpy_loop m s t (Suc n) =
     (let m' = m(s := m t)
      in if m t \<noteq> 0 then safestrcpy_loop m' (s + 1) (t + 1) n else m'(s + 1 := 0))"

definition safestrcpy :: "mem \<Rightarrow> u32 \<Rightarrow> u32 \<Rightarrow> int \<Rightarrow> mem" where
  "safestrcpy m s t n = (if n \<le> 0 then m else safestrcpy_loop m s t (nat (n - 1)))"

text \<open>\<open>strlen\<close> has no bound: it returns where the memory holds a zero byte.\<close>

partial_function (option) strlen_loop :: "mem \<Rightarrow> u32 \<Rightarrow> nat \<Rightarrow> nat option" where
  "strlen_loop m s n = (if m (s + of_nat n) = 0 then Some n else strlen_loop m s (Suc n))"

definition strlen :: "mem \<Rightarrow> u32 \<Rightarrow> nat option" where
  "strlen m s = strlen_loop m s 0"

text \<open>The bytes of a string literal, without its NUL.\<close>

definition ascii :: "string \<Rightarrow> u8 list" where
  "ascii s = map of_char s"

text \<open>\<open>atoi\<close> and \<open>strcmp\<close> of \<open>util.c\<close>, on arrays.\<close>

fun atoi_loop :: "u8 list \<Rightarrow> int \<Rightarrow> int res" where
  "atoi_loop [] n = Undef ''index''"
| "atoi_loop (c # cs) n =
     (if 48 \<le> c \<and> c \<le> 57
      then if n * 10 + uint c > 2147483647 then Undef ''overflow''
           else atoi_loop cs (n * 10 + uint c - 48)
      else Ok n)"

definition atoi :: "u8 list \<Rightarrow> int res" where
  "atoi s = atoi_loop s 0"

fun strcmp :: "u8 list \<Rightarrow> u8 list \<Rightarrow> int res" where
  "strcmp (p # ps) (q # qs) =
     (if p \<noteq> 0 \<and> p = q then strcmp ps qs else Ok (uint p - uint q))"
| "strcmp [] qs = Undef ''index''"
| "strcmp (p # ps) [] = Undef ''index''"

text \<open>\<open>strncmp\<close> on two arrays.\<close>

fun strncmp_arr :: "u8 list \<Rightarrow> u8 list \<Rightarrow> nat \<Rightarrow> int res" where
  "strncmp_arr ps qs 0 = Ok 0"
| "strncmp_arr (p # ps) (q # qs) (Suc n) =
     (if p \<noteq> 0 \<and> p = q then strncmp_arr ps qs n else Ok (uint p - uint q))"
| "strncmp_arr ps qs (Suc n) = Undef ''index''"

section \<open>Properties\<close>

subsection \<open>memset\<close>

lemma stosb_bytes: "stosb m a d n = store_bytes m a (replicate n (ucast d))"
  by (induction n arbitrary: m a) simp_all

lemma stosl_bytes: "stosl m a d n = store_bytes m a (concat (replicate n (le32 d)))"
proof (induction n arbitrary: m a)
  case 0
  then show ?case by simp
next
  case (Suc n)
  have "store_bytes (store_bytes m a (le32 d)) (a + 4) bs = store_bytes m a (le32 d @ bs)" for bs
    by (simp add: le32_def add.assoc)
  with Suc show ?case by (simp add: store32_bytes)
qed

lemma le32_same_byte:
  fixes c :: u32
  assumes "c' = c AND 0xFF"
  shows "le32 (push_bit 24 c' OR push_bit 16 c' OR push_bit 8 c' OR c') = replicate 4 (ucast c)"
proof -
  let ?w = "push_bit 24 c' OR push_bit 16 c' OR push_bit 8 c' OR c'"
  have "byte_of 0 ?w = ucast c" "byte_of 1 ?w = ucast c"
    "byte_of 2 ?w = ucast c" "byte_of 3 ?w = ucast c"
    unfolding assms and_0xFF byte_of_def by (rule bit_word_eqI; auto simp: bit_simps)+
  then show ?thesis by (simp add: le32_def numeral_eq_Suc)
qed

lemma concat_replicate_replicate: "concat (replicate n (replicate k x)) = replicate (n * k) x"
  by (induction n) (simp_all add: replicate_add)

lemma memset_bytes: "memset m dst c n = store_bytes m dst (replicate (unat n) (ucast c))"
proof (cases "dst mod 4 = 0 \<and> n mod 4 = 0")
  case True
  then have "unat (n mod 4) = unat (0 :: u32)" by simp
  then have "unat (n div 4) * 4 = unat n"
    by (auto simp: unat_div_distrib unat_mod_distrib)
  with True show ?thesis
    by (simp only: memset_def if_True simp_thms Let_def stosl_bytes le32_same_byte [OF refl]
      concat_replicate_replicate)
next
  case False
  then show ?thesis by (auto simp: memset_def stosb_bytes)
qed

lemma memset_apply: "memset m dst c n x = (if off dst x < unat n then ucast c else m x)"
  by (simp add: memset_bytes store_bytes_apply less_imp_le)

subsection \<open>memmove\<close>

text \<open>Each loop copies faithfully unless it overwrites source bytes it still has to read.\<close>

lemma move_up_apply:
  assumes "d = s \<or> n \<le> off s d" and "n \<le> 2 ^ 32"
  shows "move_up m d s n x = (if off d x < n then m (s + (x - d)) else m x)"
  using assms
proof (induction n arbitrary: m d s)
  case 0
  then show ?case by simp
next
  case (Suc n)
  have IH: "move_up m' (d + 1) (s + 1) n x =
      (if off (d + 1) x < n then m' (s + (x - d)) else m' x)" for m'
    using Suc by (auto simp: off_def)
  show ?case
  proof (cases "x = d")
    case True
    have "\<not> off (d + 1) d < n"
      using Suc.prems by (simp add: off_def unsigned_minus_1_eq_mask mask_eq_exp_minus_1)
    with IH True show ?thesis by simp
  next
    case False
    have "off (d + 1) x < n \<longleftrightarrow> off d x < Suc n"
      using False off_Suc [of x d] off_zero_iff [of d x] by linarith
    moreover have "s + (x - d) \<noteq> d" if "off d x < Suc n"
    proof
      assume eq: "s + (x - d) = d"
      then have "d - s = x - d" by (simp add: algebra_simps)
      then have "off s d = off d x" by (simp only: off_def)
      with that Suc.prems(1) False eq show False by auto
    qed
    ultimately show ?thesis using IH False by simp
  qed
qed

lemma move_down_apply:
  assumes "d = s \<or> n \<le> off d s" and "n \<le> 2 ^ 32"
  shows "move_down m (d + of_nat n) (s + of_nat n) n x =
    (if off d x < n then m (s + (x - d)) else m x)"
  using assms
proof (induction n arbitrary: m)
  case 0
  then show ?case by simp
next
  case (Suc n)
  have n: "off d (d + of_nat n) = n" using Suc.prems by simp
  have IH: "move_down m' (d + of_nat n) (s + of_nat n) n x =
      (if off d x < n then m' (s + (x - d)) else m' x)" for m'
    using Suc by auto
  have "s + (x - d) \<noteq> d + of_nat n" if "off d x < n"
  proof
    assume "s + (x - d) = d + of_nat n"
    then have "s - d = of_nat n - (x - d)" by (simp add: algebra_simps)
    also have "\<dots> = of_nat (n - off d x)"
      using that by (simp add: off_def of_nat_diff)
    finally have "off d s = n - off d x"
      using Suc.prems(2) by (simp add: off_def unat_of_nat)
    with that Suc.prems(1) show False by auto
  qed
  moreover have "off d x < Suc n \<longleftrightarrow> off d x < n \<or> x = d + of_nat n"
    using n by (metis add_off less_Suc_eq)
  moreover have "move_down m (d + of_nat (Suc n)) (s + of_nat (Suc n)) (Suc n) x =
    move_down (m(d + of_nat n := m (s + of_nat n))) (d + of_nat n) (s + of_nat n) n x"
    by (simp add: algebra_simps)
  ultimately show ?case using n by (auto simp: IH)
qed

lemma off_flip: "unat a \<le> unat b \<Longrightarrow> off a b = unat b - unat a"
  by (simp add: off_def unat_sub word_le_nat_alt)

lemma off_flip': "unat b < unat a \<Longrightarrow> off a b = 2 ^ 32 - (unat a - unat b)"
  using unat_sub_if' [of b a] by (simp add: off_def)

lemma memmove_apply:
  assumes "unat dst + unat n \<le> 2 ^ 32" and "unat src + unat n \<le> 2 ^ 32"
  shows "memmove m dst src n x = (if off dst x < unat n then m (src + (x - dst)) else m x)"
proof (cases "src < dst \<and> src + n > dst")
  case True
  then have "off dst src = 2 ^ 32 - (unat dst - unat src)"
    by (intro off_flip') (simp add: word_less_nat_alt)
  then have "unat n \<le> off dst src" using assms(1) by simp
  then show ?thesis
    using True move_down_apply [of dst src "unat n" m x] by (simp add: memmove_def less_imp_le)
next
  case False
  have "dst = src \<or> unat n \<le> off src dst"
  proof (cases src dst rule: linorder_cases)
    case less
    then have "unat src + unat n < 2 ^ 32" using assms by (simp add: word_less_nat_alt)
    then have "unat (src + n) = unat src + unat n" by (simp add: unat_word_ariths)
    moreover have "off src dst = unat dst - unat src"
      using less by (intro off_flip) (simp add: word_less_nat_alt)
    ultimately have "unat n \<le> off src dst" using False less by (simp add: word_less_nat_alt)
    then show ?thesis ..
  next
    case greater
    then have "off src dst = 2 ^ 32 - (unat src - unat dst)"
      by (intro off_flip') (simp add: word_less_nat_alt)
    then have "unat n \<le> off src dst" using assms(2) by simp
    then show ?thesis ..
  qed simp
  then have "move_up m dst src (unat n) x =
      (if off dst x < unat n then m (src + (x - dst)) else m x)"
    by (rule move_up_apply) (simp add: less_imp_le)
  with False show ?thesis by (auto simp: memmove_def)
qed

subsection \<open>Strings\<close>

text \<open>A NUL-terminated string at an address, as the list of its bytes before the NUL.\<close>

definition cstr :: "mem \<Rightarrow> u32 \<Rightarrow> u8 list \<Rightarrow> bool" where
  "cstr m a xs \<longleftrightarrow>
     (\<forall>i < length xs. m (a + of_nat i) = xs ! i \<and> xs ! i \<noteq> 0) \<and> m (a + of_nat (length xs)) = 0"

lemma cstr_Nil [simp]: "cstr m a [] \<longleftrightarrow> m a = 0"
  by (simp add: cstr_def)

lemma cstr_Cons [simp]: "cstr m a (x # xs) \<longleftrightarrow> m a = x \<and> x \<noteq> 0 \<and> cstr m (a + 1) xs"
proof -
  have "(\<forall>i < Suc (length xs). m (a + of_nat i) = (x # xs) ! i \<and> (x # xs) ! i \<noteq> 0) \<longleftrightarrow>
      m a = x \<and> x \<noteq> 0 \<and> (\<forall>i < length xs. m (a + 1 + of_nat i) = xs ! i \<and> xs ! i \<noteq> 0)"
    by (auto simp: All_less_Suc2 add.assoc)
  then show ?thesis by (auto simp: cstr_def add.assoc)
qed

lemma strlen_loop_cstr:
  "cstr m (a + of_nat n) xs \<Longrightarrow> strlen_loop m a n = Some (n + length xs)"
proof (induction xs arbitrary: n)
  case Nil
  then show ?case by (subst strlen_loop.simps) simp
next
  case (Cons x xs)
  then have "strlen_loop m a (Suc n) = Some (Suc n + length xs)"
    by (intro Cons.IH) (simp add: ac_simps)
  with Cons.prems show ?case by (subst strlen_loop.simps) simp
qed

lemma strlen_cstr: "cstr m a xs \<Longrightarrow> strlen m a = Some (length xs)"
  using strlen_loop_cstr [of m a 0 xs] by (simp add: strlen_def)

lemma strncmp_zero_iff:
  assumes "cstr m p xs" and "cstr m q ys"
  shows "strncmp m p q n = 0 \<longleftrightarrow> take n xs = take n ys"
  using assms
proof (induction n arbitrary: p q xs ys)
  case 0
  then show ?case by simp
next
  case (Suc n)
  then show ?case by (cases xs; cases ys) (auto simp: uint_0_iff word_uint_eq_iff [symmetric])
qed

lemma memcmp_zero_iff: "memcmp m a b n = 0 \<longleftrightarrow> load_bytes m a n = load_bytes m b n"
proof -
  have "memcmp m a b n = 0 \<longleftrightarrow> (\<forall>i<n. m (a + of_nat i) = m (b + of_nat i))"
  proof (induction n arbitrary: a b)
    case 0
    then show ?case by simp
  next
    case (Suc n)
    have "uint (m a) - uint (m b) = 0 \<longleftrightarrow> m a = m b"
      by (simp add: word_uint_eq_iff)
    then show ?case by (auto simp: Suc All_less_Suc2 add.assoc)
  qed
  then show ?thesis by (auto simp: load_bytes_def)
qed

text \<open>The field at \<open>s\<close> shares no byte with the string at \<open>t\<close> and its NUL.\<close>

definition apart :: "u32 \<Rightarrow> nat \<Rightarrow> u32 \<Rightarrow> nat \<Rightarrow> bool" where
  "apart s n t k \<longleftrightarrow> (\<forall>i < n. \<forall>j < k. s + of_nat i \<noteq> t + of_nat j)"

lemma apart_Suc:
  assumes "apart s (Suc n) t (Suc k)"
  shows "apart (s + 1) n (t + 1) k"
  unfolding apart_def
proof (intro allI impI)
  fix i j
  assume "i < n" and "j < k"
  then have "s + of_nat (Suc i) \<noteq> t + of_nat (Suc j)"
    using assms unfolding apart_def by blast
  then show "s + 1 + of_nat i \<noteq> t + 1 + of_nat j" by (simp add: add.assoc)
qed

lemma apart_first:
  assumes "apart s (Suc n) t k" and "j < k"
  shows "t + of_nat j \<noteq> s"
proof -
  have "s + of_nat 0 \<noteq> t + of_nat j"
    using assms unfolding apart_def by blast
  then show ?thesis by simp
qed

lemma cstr_upd:
  assumes "apart s (Suc n) t (Suc (length xs))" and "cstr m t xs"
  shows "cstr (m(s := v)) t xs"
  using assms(2) apart_first [OF assms(1)] by (simp add: cstr_def less_Suc_eq)

lemma cstr_upd_next:
  assumes "apart s (Suc n) t (Suc (length (x # xs)))" and "cstr m t (x # xs)"
  shows "cstr (m(s := v)) (t + 1) xs"
  using cstr_upd [OF assms] by simp

lemma zero_fill_bytes: "zero_fill m s n = store_bytes m s (replicate n 0)"
  by (induction n arbitrary: m s) simp_all

lemma strncpy_bytes:
  assumes "cstr m t xs" and "apart s n t (Suc (length xs))"
  shows "strncpy m s t n = store_bytes m s (take n (xs @ replicate n 0))"
  using assms
proof (induction n arbitrary: m s t xs)
  case 0
  then show ?case by simp
next
  case (Suc n)
  show ?case
  proof (cases xs)
    case Nil
    with Suc.prems show ?thesis by (simp add: zero_fill_bytes)
  next
    case (Cons x xs')
    have "cstr (m(s := x)) (t + 1) xs'"
      using Suc.prems Cons by (auto intro: cstr_upd_next)
    moreover have "apart (s + 1) n (t + 1) (Suc (length xs'))"
      using Suc.prems(2) Cons by (auto intro: apart_Suc)
    ultimately have "strncpy (m(s := x)) (s + 1) (t + 1) n =
        store_bytes (m(s := x)) (s + 1) (take n (xs' @ replicate n 0))"
      by (rule Suc.IH)
    moreover have "take n (xs' @ replicate n 0) = take n (xs' @ replicate (Suc n) 0)"
      by (simp add: min_def del: replicate.simps)
    ultimately show ?thesis using Suc.prems(1) Cons by simp
  qed
qed

lemma safestrcpy_loop_bytes:
  assumes "cstr m t xs" and "apart s (Suc n) t (Suc (length xs))"
  shows "safestrcpy_loop m s t n =
    store_bytes m s (if length xs < n then xs @ [0, 0] else take n xs @ [0])"
  using assms
proof (induction n arbitrary: m s t xs)
  case 0
  then show ?case by simp
next
  case (Suc n)
  show ?case
  proof (cases xs)
    case Nil
    with Suc.prems show ?thesis by simp
  next
    case (Cons x xs')
    have "cstr (m(s := x)) (t + 1) xs'"
      using Suc.prems Cons by (auto intro: cstr_upd_next)
    moreover have "apart (s + 1) (Suc n) (t + 1) (Suc (length xs'))"
      using Suc.prems(2) Cons by (auto intro: apart_Suc)
    ultimately have "safestrcpy_loop (m(s := x)) (s + 1) (t + 1) n = store_bytes (m(s := x)) (s + 1)
        (if length xs' < n then xs' @ [0, 0] else take n xs' @ [0])"
      by (rule Suc.IH)
    then show ?thesis using Suc.prems(1) Cons by simp
  qed
qed

lemma cstr_store_bytes:
  assumes "length xs < 2 ^ 32 - length ys" and "0 \<notin> set xs"
  shows "cstr (store_bytes m s (xs @ 0 # ys)) s xs"
  using assms by (auto simp: cstr_def store_bytes_apply nth_append in_set_conv_nth)

lemma safestrcpy_cstr:
  assumes "0 < n" "n < 2 ^ 32" and "cstr m t xs" and "apart s (nat n) t (Suc (length xs))"
  shows "cstr (safestrcpy m s t n) s (take (nat n - 1) xs)"
    and "nat n \<le> off s x \<Longrightarrow> safestrcpy m s t n x = m x"
proof -
  let ?bs = "if length xs < nat (n - 1) then xs @ [0, 0] else take (nat (n - 1)) xs @ [0]"
  have eq: "safestrcpy m s t n = store_bytes m s ?bs"
  proof -
    have "Suc (nat (n - 1)) = nat n" using assms(1) by simp
    with assms(3,4) have "safestrcpy_loop m s t (nat (n - 1)) = store_bytes m s ?bs"
      by (intro safestrcpy_loop_bytes) simp_all
    with assms(1) show ?thesis by (simp only: safestrcpy_def) simp
  qed
  have len: "length ?bs \<le> nat n" using assms(1) by auto
  have nz: "0 \<notin> set xs" using assms(3) by (auto simp: cstr_def in_set_conv_nth)
  have short: "cstr (store_bytes m s (xs @ [0, 0])) s xs" if "length xs < nat (n - 1)"
    using that assms(1,2) nz by (intro cstr_store_bytes) auto
  have "cstr (store_bytes m s (take k xs @ [0])) s (take k xs)" if "k < 2 ^ 32" for k
    using that nz by (intro cstr_store_bytes) (auto dest: in_set_takeD)
  then have "cstr (store_bytes m s (take (nat (n - 1)) xs @ [0])) s (take (nat (n - 1)) xs)"
    using assms(2) by auto
  with short have "cstr (store_bytes m s ?bs) s (take (nat (n - 1)) xs)" by auto
  then show "cstr (safestrcpy m s t n) s (take (nat n - 1) xs)"
    using assms(1) by (simp add: eq nat_diff_distrib)
  show "nat n \<le> off s x \<Longrightarrow> safestrcpy m s t n x = m x"
    unfolding eq using len assms(2) by (subst store_bytes_apply) auto
qed

end
