(* ===== verification/Fs.thy ===== *)
theory Fs
  imports LogOps CString
begin

text \<open>
  The file system, \<open>fs.c\<close>: the block allocator, the inode cache, inode contents, directories and path
  names, on top of the log and the buffer cache.  An inode pointer is an index into \<open>icache.inode\<close>.
  A read that the code hands to a device driver (\<open>devsw[major].read\<close>) is the result \<open>Device\<close>: the driver's
  answer is what the caller returns.  Buffers of the caller are byte lists: \<open>readi\<close> returns the bytes it copies to
  \<open>dst\<close>, \<open>writei\<close> takes the bytes at \<open>src\<close>.
\<close>

section \<open>Definitions\<close>

abbreviation NINODE :: nat where "NINODE \<equiv> 50"
abbreviation NDEV :: int where "NDEV \<equiv> 10"
abbreviation ROOTDEV :: u32 where "ROOTDEV \<equiv> 1"
abbreviation ROOTINO :: u32 where "ROOTINO \<equiv> 1"

abbreviation T_DIR :: u16 where "T_DIR \<equiv> 1"
abbreviation T_FILE :: u16 where "T_FILE \<equiv> 2"
abbreviation T_DEV :: u16 where "T_DEV \<equiv> 3"

record inode =
  i_dev :: u32
  i_inum :: u32
  i_ref :: int
  i_lock :: sleeplock
  i_valid :: bool
  i_type :: u16
  i_major :: u16
  i_minor :: u16
  i_nlink :: u16
  i_size :: u32
  i_addrs :: "u32 list"

record fstate = lstate +
  sb :: superblock
  inodes :: "nat \<Rightarrow> inode"
  cwd :: nat
  dev_read :: "nat \<Rightarrow> bool"
  dev_write :: "nat \<Rightarrow> bool"

definition upd_inode :: "'a fstate_scheme \<Rightarrow> nat \<Rightarrow> (inode \<Rightarrow> inode) \<Rightarrow> 'a fstate_scheme" where
  "upd_inode st ip f = st\<lparr>inodes := (inodes st)(ip := f (inodes st ip))\<rparr>"

text \<open>The idiom described in \<open>log.c\<close>: read a block, change it, log it, release it.\<close>

definition modify_block :: "'a lstate_scheme \<Rightarrow> u32 \<Rightarrow> u32 \<Rightarrow> (block \<Rightarrow> block) \<Rightarrow> 'a lstate_scheme res" where
  "modify_block st dev n f =
     bindr (bread st dev n) (\<lambda>(bp, st).
     bindr (log_write (set_data st bp (f (b_data (bufs st bp)))) bp) (\<lambda>st.
     brelse st bp))"

definition bzero :: "'a fstate_scheme \<Rightarrow> u32 \<Rightarrow> u32 \<Rightarrow> 'a fstate_scheme res" where
  "bzero st dev bno = modify_block st dev bno (\<lambda>_. replicate BSIZE 0)"

definition bit_free :: "block \<Rightarrow> nat \<Rightarrow> bool" where
  "bit_free d bi \<longleftrightarrow> d ! (bi div 8) AND push_bit (bi mod 8) 1 = 0"

definition mark_bit :: "nat \<Rightarrow> block \<Rightarrow> block" where
  "mark_bit bi d = d[bi div 8 := d ! (bi div 8) OR push_bit (bi mod 8) 1]"

definition clear_bit :: "nat \<Rightarrow> block \<Rightarrow> block" where
  "clear_bit bi d = d[bi div 8 := d ! (bi div 8) AND NOT (push_bit (bi mod 8) 1)]"

primrec balloc_loop :: "u32 \<Rightarrow> nat list \<Rightarrow> 'a fstate_scheme \<Rightarrow> (u32 \<times> 'a fstate_scheme) res" where
  "balloc_loop dev [] st = Panic ''balloc: out of blocks''"
| "balloc_loop dev (b # bs) st =
     bindr (bread st dev (BBLOCK (of_nat b) (sb st))) (\<lambda>(bp, st).
       case List.find (\<lambda>bi. b + bi < unat (sb_size (sb st)) \<and> bit_free (b_data (bufs st bp)) bi) [0..<4096] of
         Some bi \<Rightarrow>
           bindr (log_write (set_data st bp (mark_bit bi (b_data (bufs st bp)))) bp) (\<lambda>st.
           bindr (brelse st bp) (\<lambda>st.
           bindr (bzero st dev (of_nat (b + bi))) (\<lambda>st.
           Ok (of_nat (b + bi), st))))
       | None \<Rightarrow> bindr (brelse st bp) (balloc_loop dev bs))"

definition balloc :: "'a fstate_scheme \<Rightarrow> u32 \<Rightarrow> (u32 \<times> 'a fstate_scheme) res" where
  "balloc st dev =
     balloc_loop dev (map (\<lambda>k. 4096 * k) [0..<(unat (sb_size (sb st)) + 4095) div 4096]) st"

definition bfree :: "'a fstate_scheme \<Rightarrow> u32 \<Rightarrow> u32 \<Rightarrow> 'a fstate_scheme res" where
  "bfree st dev b =
     bindr (readsb st dev) (\<lambda>(s, st).
     let st = st\<lparr>sb := s\<rparr> in
     bindr (bread st dev (BBLOCK b (sb st))) (\<lambda>(bp, st).
     let bi = unat (b mod BPB) in
     if bit_free (b_data (bufs st bp)) bi then Panic ''freeing free block''
     else bindr (log_write (set_data st bp (clear_bit bi (b_data (bufs st bp)))) bp) (\<lambda>st.
          brelse st bp)))"

definition iinit :: "'a fstate_scheme \<Rightarrow> u32 \<Rightarrow> 'a fstate_scheme res" where
  "iinit st dev =
     (let st = st\<lparr>inodes := \<lambda>i. if i < NINODE then (inodes st i)\<lparr>i_lock := initsleeplock\<rparr> else inodes st i\<rparr>
      in bindr (readsb st dev) (\<lambda>(s, st). Ok (st\<lparr>sb := s\<rparr>)))"

text \<open>The inode cache.\<close>

definition iget :: "'a fstate_scheme \<Rightarrow> u32 \<Rightarrow> u32 \<Rightarrow> (nat \<times> 'a fstate_scheme) res" where
  "iget st dev inum =
     (case List.find (\<lambda>i. i_ref (inodes st i) > 0 \<and> i_dev (inodes st i) = dev \<and> i_inum (inodes st i) = inum) [0..<NINODE] of
        Some ip \<Rightarrow> Ok (ip, upd_inode st ip (\<lambda>x. x\<lparr>i_ref := i_ref x + 1\<rparr>))
      | None \<Rightarrow>
          (case List.find (\<lambda>i. i_ref (inodes st i) = 0) [0..<NINODE] of
             None \<Rightarrow> Panic ''iget: no inodes''
           | Some ip \<Rightarrow>
               Ok (ip, upd_inode st ip (\<lambda>x. x\<lparr>i_dev := dev, i_inum := inum, i_ref := 1, i_valid := False\<rparr>))))"

definition idup :: "'a fstate_scheme \<Rightarrow> nat \<Rightarrow> 'a fstate_scheme" where
  "idup st ip = upd_inode st ip (\<lambda>x. x\<lparr>i_ref := i_ref x + 1\<rparr>)"

definition inode_slot :: "u32 \<Rightarrow> nat" where
  "inode_slot inum = unat (inum mod IPB)"

primrec ialloc_loop :: "u32 \<Rightarrow> u16 \<Rightarrow> nat list \<Rightarrow> 'a fstate_scheme \<Rightarrow> (nat \<times> 'a fstate_scheme) res" where
  "ialloc_loop dev type [] st = Panic ''ialloc: no inodes''"
| "ialloc_loop dev type (inum # rest) st =
     bindr (bread st dev (IBLOCK (of_nat inum) (sb st))) (\<lambda>(bp, st).
       let d = b_data (bufs st bp); k = inode_slot (of_nat inum) in
       if di_type (get_dinode d k) = 0
       then let x = \<lparr>di_type = type, di_major = 0, di_minor = 0, di_nlink = 0, di_size = 0,
                     di_addrs = replicate (NDIRECT + 1) 0\<rparr> in
            bindr (log_write (set_data st bp (put_dinode d k x)) bp) (\<lambda>st.
            bindr (brelse st bp) (\<lambda>st.
            iget st dev (of_nat inum)))
       else bindr (brelse st bp) (ialloc_loop dev type rest))"

definition ialloc :: "'a fstate_scheme \<Rightarrow> u32 \<Rightarrow> u16 \<Rightarrow> (nat \<times> 'a fstate_scheme) res" where
  "ialloc st dev type = ialloc_loop dev type [1..<unat (sb_ninodes (sb st))] st"

definition to_dinode :: "inode \<Rightarrow> dinode" where
  "to_dinode x = \<lparr>di_type = i_type x, di_major = i_major x, di_minor = i_minor x, di_nlink = i_nlink x,
     di_size = i_size x, di_addrs = i_addrs x\<rparr>"

definition iupdate :: "'a fstate_scheme \<Rightarrow> nat \<Rightarrow> 'a fstate_scheme res" where
  "iupdate st ip =
     (let x = inodes st ip
      in modify_block st (i_dev x) (IBLOCK (i_inum x) (sb st))
           (\<lambda>d. put_dinode d (inode_slot (i_inum x)) (to_dinode x)))"

definition load_dinode :: "dinode \<Rightarrow> inode \<Rightarrow> inode" where
  "load_dinode d x = x\<lparr>i_type := di_type d, i_major := di_major d, i_minor := di_minor d, i_nlink := di_nlink d,
     i_size := di_size d, i_addrs := di_addrs d, i_valid := True\<rparr>"

definition ilock :: "'a fstate_scheme \<Rightarrow> nat \<Rightarrow> 'a fstate_scheme res" where
  "ilock st ip =
     (if i_ref (inodes st ip) < 1 then Panic ''ilock''
      else bindr (acquiresleep (mypid st) (i_lock (inodes st ip))) (\<lambda>lk.
        let st = upd_inode st ip (\<lambda>x. x\<lparr>i_lock := lk\<rparr>); x = inodes st ip in
        if i_valid x then Ok st
        else bindr (bread st (i_dev x) (IBLOCK (i_inum x) (sb st))) (\<lambda>(bp, st).
             let d = get_dinode (b_data (bufs st bp)) (inode_slot (i_inum x)) in
             bindr (brelse st bp) (\<lambda>st.
             let st = upd_inode st ip (load_dinode d) in
             if i_type (inodes st ip) = 0 then Panic ''ilock: no type'' else Ok st))))"

definition iunlock :: "'a fstate_scheme \<Rightarrow> nat \<Rightarrow> 'a fstate_scheme res" where
  "iunlock st ip =
     (if \<not> holdingsleep (i_lock (inodes st ip)) \<or> i_ref (inodes st ip) < 1 then Panic ''iunlock''
      else Ok (upd_inode st ip (\<lambda>x. x\<lparr>i_lock := releasesleep (i_lock x)\<rparr>)))"

text \<open>Inode contents.\<close>

definition set_addr :: "nat \<Rightarrow> u32 \<Rightarrow> inode \<Rightarrow> inode" where
  "set_addr i a x = x\<lparr>i_addrs := (i_addrs x)[i := a]\<rparr>"

text \<open>\<open>if((addr = ip->addrs[i]) == 0) ip->addrs[i] = addr = balloc(ip->dev);\<close>\<close>

definition addr_or_alloc :: "'a fstate_scheme \<Rightarrow> nat \<Rightarrow> nat \<Rightarrow> (u32 \<times> 'a fstate_scheme) res" where
  "addr_or_alloc st ip i =
     (let addr = i_addrs (inodes st ip) ! i in
      if addr = 0
      then bindr (balloc st (i_dev (inodes st ip))) (\<lambda>(addr, st). Ok (addr, upd_inode st ip (set_addr i addr)))
      else Ok (addr, st))"

definition bmap :: "'a fstate_scheme \<Rightarrow> nat \<Rightarrow> nat \<Rightarrow> (u32 \<times> 'a fstate_scheme) res" where
  "bmap st ip bn =
     (if bn < NDIRECT then addr_or_alloc st ip bn
      else let bn = bn - NDIRECT in
        if bn < NINDIRECT then
          bindr (addr_or_alloc st ip NDIRECT) (\<lambda>(addr, st).
          bindr (bread st (i_dev (inodes st ip)) addr) (\<lambda>(bp, st).
          let addr = get32 (b_data (bufs st bp)) (4 * bn) in
          if addr = 0
          then bindr (balloc st (i_dev (inodes st ip))) (\<lambda>(addr, st).
               bindr (log_write (set_data st bp (put32 (b_data (bufs st bp)) (4 * bn) addr)) bp) (\<lambda>st.
               bindr (brelse st bp) (\<lambda>st. Ok (addr, st))))
          else bindr (brelse st bp) (\<lambda>st. Ok (addr, st))))
        else Panic ''bmap: out of range'')"

definition itrunc_direct :: "nat \<Rightarrow> nat \<Rightarrow> 'a fstate_scheme \<Rightarrow> 'a fstate_scheme res" where
  "itrunc_direct ip i st =
     (if i_addrs (inodes st ip) ! i \<noteq> 0
      then bindr (bfree st (i_dev (inodes st ip)) (i_addrs (inodes st ip) ! i)) (\<lambda>st.
           Ok (upd_inode st ip (set_addr i 0)))
      else Ok st)"

definition itrunc_indirect :: "nat \<Rightarrow> nat \<Rightarrow> nat \<Rightarrow> 'a fstate_scheme \<Rightarrow> 'a fstate_scheme res" where
  "itrunc_indirect ip bp j st =
     (let a = get32 (b_data (bufs st bp)) (4 * j)
      in if a \<noteq> 0 then bfree st (i_dev (inodes st ip)) a else Ok st)"

definition itrunc :: "'a fstate_scheme \<Rightarrow> nat \<Rightarrow> 'a fstate_scheme res" where
  "itrunc st ip =
     bindr (for_each (itrunc_direct ip) [0..<NDIRECT] st) (\<lambda>st.
     bindr (if i_addrs (inodes st ip) ! NDIRECT \<noteq> 0
            then bindr (bread st (i_dev (inodes st ip)) (i_addrs (inodes st ip) ! NDIRECT)) (\<lambda>(bp, st).
                 bindr (for_each (itrunc_indirect ip bp) [0..<NINDIRECT] st) (\<lambda>st.
                 bindr (brelse st bp) (\<lambda>st.
                 bindr (bfree st (i_dev (inodes st ip)) (i_addrs (inodes st ip) ! NDIRECT)) (\<lambda>st.
                 Ok (upd_inode st ip (set_addr NDIRECT 0))))))
            else Ok st) (\<lambda>st.
     iupdate (upd_inode st ip (\<lambda>x. x\<lparr>i_size := 0\<rparr>)) ip))"

definition iput :: "'a fstate_scheme \<Rightarrow> nat \<Rightarrow> 'a fstate_scheme res" where
  "iput st ip =
     bindr (acquiresleep (mypid st) (i_lock (inodes st ip))) (\<lambda>lk.
     let st = upd_inode st ip (\<lambda>x. x\<lparr>i_lock := lk\<rparr>); x = inodes st ip in
     bindr (if i_valid x \<and> i_nlink x = 0 \<and> i_ref x = 1
            then bindr (itrunc st ip) (\<lambda>st.
                 bindr (iupdate (upd_inode st ip (\<lambda>x. x\<lparr>i_type := 0\<rparr>)) ip) (\<lambda>st.
                 Ok (upd_inode st ip (\<lambda>x. x\<lparr>i_valid := False\<rparr>))))
            else Ok st) (\<lambda>st.
     Ok (upd_inode st ip (\<lambda>x. x\<lparr>i_lock := releasesleep (i_lock x), i_ref := i_ref x - 1\<rparr>))))"

definition iunlockput :: "'a fstate_scheme \<Rightarrow> nat \<Rightarrow> 'a fstate_scheme res" where
  "iunlockput st ip = bindr (iunlock st ip) (\<lambda>st. iput st ip)"

record stat =
  st_type :: u16
  st_dev :: u32
  st_ino :: u32
  st_nlink :: u16
  st_size :: u32

definition stati :: "inode \<Rightarrow> stat" where
  "stati x = \<lparr>st_type = i_type x, st_dev = i_dev x, st_ino = i_inum x, st_nlink = i_nlink x, st_size = i_size x\<rparr>"

datatype 'a io = Failed | Device nat | Done 'a

text \<open>The part of a block at file offset \<open>pos\<close> that one round of the copying loops handles.\<close>

definition chunk :: "nat \<Rightarrow> nat \<Rightarrow> nat" where
  "chunk pos n = min n (BSIZE - pos mod BSIZE)"

lemma chunk_pos: "0 < n \<Longrightarrow> 0 < chunk pos n"
  by (simp add: chunk_def)

function readi_loop :: "'a fstate_scheme \<Rightarrow> nat \<Rightarrow> nat \<Rightarrow> nat \<Rightarrow> (u8 list \<times> 'a fstate_scheme) res" where
  "readi_loop st ip pos n =
     (if n = 0 then Ok ([], st)
      else bindr (bmap st ip (pos div BSIZE)) (\<lambda>(addr, st).
           bindr (bread st (i_dev (inodes st ip)) addr) (\<lambda>(bp, st).
           let m = chunk pos n; xs = take m (drop (pos mod BSIZE) (b_data (bufs st bp))) in
           bindr (brelse st bp) (\<lambda>st.
           bindr (readi_loop st ip (pos + m) (n - m)) (\<lambda>(ys, st).
           Ok (xs @ ys, st))))))"
  by pat_completeness auto
termination
  by (relation "measure (\<lambda>(st, ip, pos, n). n)") (auto simp: chunk_pos)

definition readi :: "'a fstate_scheme \<Rightarrow> nat \<Rightarrow> u32 \<Rightarrow> u32 \<Rightarrow> (u8 list io \<times> 'a fstate_scheme) res" where
  "readi st ip pos n =
     (let x = inodes st ip in
      if i_type x = T_DEV
      then if sint (i_major x) < 0 \<or> sint (i_major x) \<ge> NDEV \<or> \<not> dev_read st (unat (i_major x))
           then Ok (Failed, st) else Ok (Device (unat (i_major x)), st)
      else if pos > i_size x \<or> pos + n < pos then Ok (Failed, st)
      else let n = (if pos + n > i_size x then i_size x - pos else n)
           in bindr (readi_loop st ip (unat pos) (unat n)) (\<lambda>(xs, st). Ok (Done xs, st)))"

definition patch :: "nat \<Rightarrow> u8 list \<Rightarrow> block \<Rightarrow> block" where
  "patch o' xs d = take o' d @ xs @ drop (o' + length xs) d"

function writei_loop :: "'a fstate_scheme \<Rightarrow> nat \<Rightarrow> nat \<Rightarrow> u8 list \<Rightarrow> 'a fstate_scheme res" where
  "writei_loop st ip pos src =
     (if src = [] then Ok st
      else bindr (bmap st ip (pos div BSIZE)) (\<lambda>(addr, st).
           let m = chunk pos (length src) in
           bindr (modify_block st (i_dev (inodes st ip)) addr (patch (pos mod BSIZE) (take m src))) (\<lambda>st.
           writei_loop st ip (pos + m) (drop m src))))"
  by pat_completeness auto
termination
  by (relation "measure (\<lambda>(st, ip, pos, src). length src)") (auto simp: chunk_pos)

definition writei :: "'a fstate_scheme \<Rightarrow> nat \<Rightarrow> u8 list \<Rightarrow> u32 \<Rightarrow> u32 \<Rightarrow> (u32 io \<times> 'a fstate_scheme) res" where
  "writei st ip src pos n =
     (let x = inodes st ip in
      if i_type x = T_DEV
      then if sint (i_major x) < 0 \<or> sint (i_major x) \<ge> NDEV \<or> \<not> dev_write st (unat (i_major x))
           then Ok (Failed, st) else Ok (Device (unat (i_major x)), st)
      else if pos > i_size x \<or> pos + n < pos then Ok (Failed, st)
      else if unat (pos + n) > MAXFILE * BSIZE then Ok (Failed, st)
      else if length src < unat n then Undef ''src''
      else bindr (writei_loop st ip (unat pos) (take (unat n) src)) (\<lambda>st.
           if n > 0 \<and> pos + n > i_size (inodes st ip)
           then bindr (iupdate (upd_inode st ip (\<lambda>x. x\<lparr>i_size := pos + n\<rparr>)) ip) (\<lambda>st. Ok (Done n, st))
           else Ok (Done n, st)))"

declare readi_loop.simps [simp del] writei_loop.simps [simp del]

text \<open>Directories.\<close>

definition namecmp :: "u8 list \<Rightarrow> u8 list \<Rightarrow> int res" where
  "namecmp s t = strncmp_arr s t DIRSIZ"

definition read_dirent :: "string \<Rightarrow> 'a fstate_scheme \<Rightarrow> nat \<Rightarrow> nat \<Rightarrow> (dirent \<times> 'a fstate_scheme) res" where
  "read_dirent msg st dp pos =
     bindr (readi st dp (of_nat pos) (of_nat DIRENT_SIZE)) (\<lambda>(r, st).
       case r of Done xs \<Rightarrow> if length xs = DIRENT_SIZE then Ok (get_dirent xs, st) else Panic msg
       | _ \<Rightarrow> Panic msg)"

definition dir_offsets :: "inode \<Rightarrow> nat list" where
  "dir_offsets x = map (\<lambda>k. DIRENT_SIZE * k) [0..<(unat (i_size x) + (DIRENT_SIZE - 1)) div DIRENT_SIZE]"

primrec dirlookup_loop :: "nat \<Rightarrow> u8 list \<Rightarrow> nat list \<Rightarrow> 'a fstate_scheme \<Rightarrow> ((nat \<times> nat) option \<times> 'a fstate_scheme) res" where
  "dirlookup_loop dp name [] st = Ok (None, st)"
| "dirlookup_loop dp name (pos # rest) st =
     bindr (read_dirent ''dirlookup read'' st dp pos) (\<lambda>(de, st).
       if de_inum de = 0 then dirlookup_loop dp name rest st
       else bindr (namecmp name (de_name de)) (\<lambda>c.
         if c = 0
         then bindr (iget st (i_dev (inodes st dp)) (ucast (de_inum de))) (\<lambda>(ip, st). Ok (Some (ip, pos), st))
         else dirlookup_loop dp name rest st))"

definition dirlookup :: "'a fstate_scheme \<Rightarrow> nat \<Rightarrow> u8 list \<Rightarrow> ((nat \<times> nat) option \<times> 'a fstate_scheme) res" where
  "dirlookup st dp name =
     (if i_type (inodes st dp) \<noteq> T_DIR then Panic ''dirlookup not DIR''
      else dirlookup_loop dp name (dir_offsets (inodes st dp)) st)"

primrec find_empty :: "nat \<Rightarrow> nat list \<Rightarrow> nat \<Rightarrow> 'a fstate_scheme \<Rightarrow> (nat \<times> 'a fstate_scheme) res" where
  "find_empty dp [] fin st = Ok (fin, st)"
| "find_empty dp (pos # rest) fin st =
     bindr (read_dirent ''dirlink read'' st dp pos) (\<lambda>(de, st).
       if de_inum de = 0 then Ok (pos, st) else find_empty dp rest (pos + DIRENT_SIZE) st)"

text \<open>\<open>strncpy(de.name, name, DIRSIZ)\<close>: up to the NUL, the rest of the field zero.\<close>

definition name_field :: "u8 list \<Rightarrow> u8 list" where
  "name_field name = take DIRSIZ (takeWhile (\<lambda>c. c \<noteq> 0) name @ replicate DIRSIZ 0)"

definition dirlink :: "'a fstate_scheme \<Rightarrow> nat \<Rightarrow> u8 list \<Rightarrow> u32 \<Rightarrow> (bool \<times> 'a fstate_scheme) res" where
  "dirlink st dp name inum =
     bindr (dirlookup st dp name) (\<lambda>(r, st).
       case r of
         Some (ip, _) \<Rightarrow> bindr (iput st ip) (\<lambda>st. Ok (False, st))
       | None \<Rightarrow>
           bindr (find_empty dp (dir_offsets (inodes st dp)) 0 st) (\<lambda>(pos, st).
           bindr (writei st dp (dirent_bytes \<lparr>de_inum = ucast inum, de_name = name_field name\<rparr>)
                    (of_nat pos) (of_nat DIRENT_SIZE)) (\<lambda>(w, st).
           if w = Done (of_nat DIRENT_SIZE) then Ok (True, st) else Panic ''dirlink'')))"

text \<open>Path names.  A path is the string without its NUL; \<open>name\<close> is the caller's array of \<open>DIRSIZ\<close> bytes.\<close>

definition slash :: u8 where "slash = 0x2F"

definition skipelem :: "u8 list \<Rightarrow> u8 list \<Rightarrow> (u8 list \<times> u8 list) option" where
  "skipelem path name =
     (let path = dropWhile (\<lambda>c. c = slash) path in
      if path = [] then None
      else let s = takeWhile (\<lambda>c. c \<noteq> slash) path;
               path = dropWhile (\<lambda>c. c \<noteq> slash) path;
               len = length s;
               name = (if len \<ge> DIRSIZ then take DIRSIZ s else s @ [0] @ drop (len + 1) name)
           in Some (dropWhile (\<lambda>c. c = slash) path, name))"

lemma skipelem_shorter: "skipelem path name = Some (path', name') \<Longrightarrow> length path' < length path"
proof -
  assume s: "skipelem path name = Some (path', name')"
  let ?p = "dropWhile (\<lambda>c. c = slash) path"
  have ne: "?p \<noteq> []" and p': "path' = dropWhile (\<lambda>c. c = slash) (dropWhile (\<lambda>c. c \<noteq> slash) ?p)"
    using s by (auto simp: skipelem_def Let_def split: if_splits)
  then obtain c cs where c: "?p = c # cs" by (cases ?p) auto
  have "c \<noteq> slash" using c by (metis (mono_tags) dropWhile_eq_Cons_conv)
  then have "length path' \<le> length cs"
    using p' c by (simp add: order_trans [OF length_dropWhile_le length_dropWhile_le])
  also have "\<dots> < length ?p" using c by simp
  also have "\<dots> \<le> length path" by (rule length_dropWhile_le)
  finally show ?thesis .
qed

function namex_loop ::
  "'a fstate_scheme \<Rightarrow> nat \<Rightarrow> u8 list \<Rightarrow> bool \<Rightarrow> u8 list \<Rightarrow> (nat option \<times> u8 list \<times> 'a fstate_scheme) res" where
  "namex_loop st ip path parent name =
     (case skipelem path name of
        None \<Rightarrow> if parent then bindr (iput st ip) (\<lambda>st. Ok (None, name, st)) else Ok (Some ip, name, st)
      | Some (path, name) \<Rightarrow>
          bindr (ilock st ip) (\<lambda>st.
          if i_type (inodes st ip) \<noteq> T_DIR then bindr (iunlockput st ip) (\<lambda>st. Ok (None, name, st))
          else if parent \<and> path = [] then bindr (iunlock st ip) (\<lambda>st. Ok (Some ip, name, st))
          else bindr (dirlookup st ip name) (\<lambda>(r, st).
               case r of
                 None \<Rightarrow> bindr (iunlockput st ip) (\<lambda>st. Ok (None, name, st))
               | Some (nxt, _) \<Rightarrow> bindr (iunlockput st ip) (\<lambda>st. namex_loop st nxt path parent name))))"
  by pat_completeness auto
termination
  by (relation "measure (\<lambda>(st, ip, path, parent, name). length path)") (auto dest: skipelem_shorter)

definition namex :: "'a fstate_scheme \<Rightarrow> u8 list \<Rightarrow> bool \<Rightarrow> u8 list \<Rightarrow> (nat option \<times> u8 list \<times> 'a fstate_scheme) res" where
  "namex st path parent name =
     (if path \<noteq> [] \<and> hd path = slash
      then bindr (iget st ROOTDEV ROOTINO) (\<lambda>(ip, st). namex_loop st ip path parent name)
      else namex_loop (idup st (cwd st)) (cwd st) path parent name)"

declare namex_loop.simps [simp del]

text \<open>The local array of \<open>namei\<close> starts with arbitrary bytes; \<open>skipelem\<close> ends every name it stores, so zeros stand
  for them.\<close>

definition namei :: "'a fstate_scheme \<Rightarrow> u8 list \<Rightarrow> (nat option \<times> 'a fstate_scheme) res" where
  "namei st path = bindr (namex st path False (replicate DIRSIZ 0)) (\<lambda>(r, _, st). Ok (r, st))"

definition nameiparent :: "'a fstate_scheme \<Rightarrow> u8 list \<Rightarrow> u8 list \<Rightarrow> (nat option \<times> u8 list \<times> 'a fstate_scheme) res" where
  "nameiparent st path name = namex st path True name"

end
