(* ===== verification/Pipe.thy ===== *)
theory Pipe
  imports Prelude
begin

text \<open>
  Pipes, \<open>pipe.c\<close>: the ring buffer with its 32-bit counters, \<open>piperead\<close>, \<open>pipewrite\<close> and \<open>pipeclose\<close>, and a writer and
  a reader that run them in any order.  The pipe's lock is held from one sleep to the next, so what a call does between
  two sleeps is one step.  A call that goes to sleep says where it will resume; \<open>wakeup\<close> calls are part of its result.
  (\<open>pipealloc\<close>, which needs the file table, is in the theory of files.)
\<close>

section \<open>Definitions\<close>

abbreviation PIPESIZE :: u32 where "PIPESIZE \<equiv> 512"

record pipe =
  p_data :: "u8 list"
  p_nread :: u32
  p_nwrite :: u32
  p_readopen :: bool
  p_writeopen :: bool

text \<open>The two channels, \<open>&p->nread\<close> and \<open>&p->nwrite\<close>.\<close>

datatype pipe_chan = Nread | Nwrite

text \<open>How far a call gets: it returns, or it sleeps with the work that is left.\<close>

datatype ('a, 'b) progress = Returns 'a | Sleeps 'b

definition put_byte :: "pipe \<Rightarrow> u8 \<Rightarrow> pipe" where
  "put_byte p c = p\<lparr>p_data := (p_data p)[unat (p_nwrite p mod PIPESIZE) := c], p_nwrite := p_nwrite p + 1\<rparr>"

definition get_byte :: "pipe \<Rightarrow> u8 \<times> pipe" where
  "get_byte p = (p_data p ! unat (p_nread p mod PIPESIZE), p\<lparr>p_nread := p_nread p + 1\<rparr>)"

definition pipe_full :: "pipe \<Rightarrow> bool" where
  "pipe_full p \<longleftrightarrow> p_nwrite p = p_nread p + PIPESIZE"

definition pipe_empty :: "pipe \<Rightarrow> bool" where
  "pipe_empty p \<longleftrightarrow> p_nread p = p_nwrite p"

text \<open>\<open>pipewrite\<close> from its \<open>i\<close>th byte on, where \<open>bs\<close> is what is left of \<open>addr\<close> and \<open>n\<close> what it will return.\<close>

primrec pipewrite :: "bool \<Rightarrow> int \<Rightarrow> pipe \<Rightarrow> u8 list \<Rightarrow> (int, u8 list) progress \<times> pipe \<times> pipe_chan list" where
  "pipewrite killed n p [] = (Returns n, p, [Nread])"
| "pipewrite killed n p (b # bs) =
     (if pipe_full p
      then if \<not> p_readopen p \<or> killed then (Returns (- 1), p, []) else (Sleeps (b # bs), p, [Nread])
      else pipewrite killed n (put_byte p b) bs)"

primrec piperead_copy :: "nat \<Rightarrow> pipe \<Rightarrow> u8 list \<times> pipe" where
  "piperead_copy 0 p = ([], p)"
| "piperead_copy (Suc n) p =
     (if pipe_empty p then ([], p)
      else let (c, p1) = get_byte p; (cs, p2) = piperead_copy n p1 in (c # cs, p2))"

text \<open>\<open>piperead\<close> returns -1 (\<open>None\<close>) or the bytes it has copied.\<close>

definition piperead :: "bool \<Rightarrow> pipe \<Rightarrow> nat \<Rightarrow> (u8 list option, nat) progress \<times> pipe \<times> pipe_chan list" where
  "piperead killed p n =
     (if pipe_empty p \<and> p_writeopen p
      then if killed then (Returns None, p, []) else (Sleeps n, p, [])
      else let (cs, p') = piperead_copy n p in (Returns (Some cs), p', [Nwrite]))"

text \<open>\<open>pipeclose\<close>: the channel it wakes, and whether the page of the pipe is freed.\<close>

definition pipeclose :: "pipe \<Rightarrow> bool \<Rightarrow> pipe \<times> pipe_chan \<times> bool" where
  "pipeclose p writable =
     (let (p, c) = (if writable then (p\<lparr>p_writeopen := False\<rparr>, Nread) else (p\<lparr>p_readopen := False\<rparr>, Nwrite))
      in (p, c, \<not> p_readopen p \<and> \<not> p_writeopen p))"

section \<open>A bounded queue\<close>

text \<open>What a pipe is to its users: a queue of at most 512 bytes.\<close>

locale bounded_queue =
  fixes inv :: "'s \<Rightarrow> bool" and contents :: "'s \<Rightarrow> 'b list" and put :: "'s \<Rightarrow> 'b \<Rightarrow> 's" and get :: "'s \<Rightarrow> 'b \<times> 's"
    and full :: "'s \<Rightarrow> bool" and empty :: "'s \<Rightarrow> bool" and capacity :: nat
  assumes room: "inv q \<Longrightarrow> length (contents q) \<le> capacity"
    and full_iff: "inv q \<Longrightarrow> full q \<longleftrightarrow> length (contents q) = capacity"
    and empty_iff: "inv q \<Longrightarrow> empty q \<longleftrightarrow> contents q = []"
    and put_spec: "inv q \<Longrightarrow> \<not> full q \<Longrightarrow> inv (put q b) \<and> contents (put q b) = contents q @ [b]"
    and get_spec: "inv q \<Longrightarrow> \<not> empty q \<Longrightarrow> inv (snd (get q)) \<and> contents q = fst (get q) # contents (snd (get q))"
    and capacity_pos: "0 < capacity"
begin

primrec put_all :: "'s \<Rightarrow> 'b list \<Rightarrow> 's" where
  "put_all q [] = q"
| "put_all q (b # bs) = (if full q then q else put_all (put q b) bs)"

primrec get_all :: "nat \<Rightarrow> 's \<Rightarrow> 'b list \<times> 's" where
  "get_all 0 q = ([], q)"
| "get_all (Suc n) q = (if empty q then ([], q) else let (c, q1) = get q; (cs, q2) = get_all n q1 in (c # cs, q2))"

lemma put_all_spec:
  "inv q \<Longrightarrow> inv (put_all q bs) \<and> contents (put_all q bs) = contents q @ take (capacity - length (contents q)) bs"
proof (induction bs arbitrary: q)
  case (Cons b bs)
  show ?case
  proof (cases "full q")
    case True
    then show ?thesis using Cons.prems full_iff by simp
  next
    case False
    then have "length (contents q) < capacity" using room [OF Cons.prems] full_iff [OF Cons.prems] by simp
    then show ?thesis using Cons.IH [of "put q b"] put_spec [OF Cons.prems False, of b] False
      by (simp add: take_Cons' Suc_diff_Suc)
  qed
qed simp

lemma get_all_spec:
  "inv q \<Longrightarrow> inv (snd (get_all n q)) \<and> fst (get_all n q) = take n (contents q) \<and> contents (snd (get_all n q)) = drop n (contents q)"
proof (induction n arbitrary: q)
  case (Suc n)
  show ?case
  proof (cases "empty q")
    case True
    then show ?thesis using Suc.prems empty_iff by simp
  next
    case False
    obtain c q1 where g: "get q = (c, q1)" by fastforce
    then have "inv q1" "contents q = c # contents q1" using get_spec [OF Suc.prems False] by auto
    then show ?thesis using Suc.IH [of q1] g False by (simp add: case_prod_beta Let_def)
  qed
qed simp

lemma not_full_and_empty: "inv q \<Longrightarrow> \<not> (full q \<and> empty q)"
  using full_iff empty_iff capacity_pos by fastforce

end

section \<open>The ring buffer is one\<close>

text \<open>The bytes between the two counters.  The counters wrap around at \<open>2 ^ 32\<close>, which 512 divides, so that the positions in
  the ring stay right.\<close>

definition pipe_contents :: "pipe \<Rightarrow> u8 list" where
  "pipe_contents p = map (\<lambda>k. p_data p ! unat ((p_nread p + of_nat k) mod PIPESIZE)) [0..<unat (p_nwrite p - p_nread p)]"

definition pipe_ok :: "pipe \<Rightarrow> bool" where
  "pipe_ok p \<longleftrightarrow> length (p_data p) = 512 \<and> unat (p_nwrite p - p_nread p) \<le> 512"

lemma ring_position: "unat ((w + of_nat k) mod PIPESIZE) = (unat (w :: u32) + k) mod 512"
proof -
  have "unat ((w + of_nat k) mod PIPESIZE) = (unat w + k) mod 4294967296 mod 512"
    by (simp add: unat_mod_distrib unat_word_ariths unat_of_nat mod_add_right_eq)
  also have "\<dots> = (unat w + k) mod 512" by (rule mod_mod_cancel) simp
  finally show ?thesis .
qed

lemma unat_plus_minus_one: "(d :: u32) \<noteq> - 1 \<Longrightarrow> unat (d + 1) = unat d + 1"
  by (metis Suc_eq_plus1 add.commute neg_eq_iff_add_eq_0 unatSuc)

lemma ring_distinct: "j < k \<Longrightarrow> k < j + 512 \<Longrightarrow> (a + j) mod 512 \<noteq> (a + k) mod (512 :: nat)"
proof
  assume jk: "j < k" "k < j + 512" and e: "(a + j) mod 512 = (a + k) mod 512"
  then have "512 dvd (a + k) - (a + j)" by (subst mod_eq_dvd_iff_nat [symmetric]) simp_all
  then show False using jk by (auto dest: dvd_imp_le)
qed

lemma put_byte_ok:
  assumes ok: "pipe_ok p" and nf: "\<not> pipe_full p"
  shows "pipe_ok (put_byte p b) \<and> pipe_contents (put_byte p b) = pipe_contents p @ [b]"
proof -
  let ?d = "p_nwrite p - p_nread p" and ?a = "unat (p_nread p)"
  have "?d \<noteq> 512" using nf by (simp add: pipe_full_def diff_eq_eq add.commute)
  have "unat ?d \<noteq> 512"
  proof
    assume h: "unat ?d = 512"
    have "?d = of_nat (unat ?d)" by simp
    then show False using \<open>?d \<noteq> 512\<close> unfolding h by simp
  qed
  then have d: "unat ?d < 512" using ok unfolding pipe_ok_def by linarith
  moreover have "?d \<noteq> - 1"
  proof
    assume h: "?d = - 1"
    show False using d unfolding h by (simp add: unsigned_minus_1_eq_mask mask_eq_exp_minus_1)
  qed
  ultimately have d1: "unat (p_nwrite p + 1 - p_nread p) = unat ?d + 1"
    using unat_plus_minus_one [of ?d] by (simp add: algebra_simps)
  have w: "p_nwrite p = p_nread p + of_nat (unat ?d)" by simp
  have pos: "unat (p_nwrite p mod PIPESIZE) = (?a + unat ?d) mod 512" by (subst w, rule ring_position)
  have len: "length (p_data p) = 512" using ok by (simp add: pipe_ok_def)
  have "(p_data p)[(?a + unat ?d) mod 512 := b] ! ((?a + k) mod 512) = p_data p ! ((?a + k) mod 512)" if "k < unat ?d" for k
    using ring_distinct [OF that, of ?a] that d by simp
  then show ?thesis using d d1 len
    by (simp add: pipe_ok_def put_byte_def pipe_contents_def ring_position pos)
qed

lemma get_byte_ok:
  assumes ok: "pipe_ok p" and ne: "\<not> pipe_empty p"
  shows "pipe_ok (snd (get_byte p)) \<and> pipe_contents p = fst (get_byte p) # pipe_contents (snd (get_byte p))"
proof -
  let ?d = "p_nwrite p - p_nread p" and ?a = "unat (p_nread p)"
  have "?d \<noteq> 0" using ne by (auto simp: pipe_empty_def)
  then have d: "0 < unat ?d" by (simp add: unat_gt_0)
  then have d1: "unat (p_nwrite p - (p_nread p + 1)) = unat ?d - 1"
    using unat_minus_one [OF \<open>?d \<noteq> 0\<close>] by (simp add: algebra_simps)
  have "[0..<unat ?d] = 0 # map Suc [0..<unat ?d - 1]" using d by (simp add: upt_conv_Cons map_Suc_upt)
  moreover have "unat ((p_nread p + (1 + of_nat k)) mod PIPESIZE) = (?a + Suc k) mod 512" for k
    using ring_position [of "p_nread p" "Suc k"] by (simp add: algebra_simps)
  moreover have "unat (p_nread p mod PIPESIZE) = ?a mod 512" using ring_position [of "p_nread p" 0] by simp
  moreover have "unat ?d - Suc 0 \<le> 512" using ok unfolding pipe_ok_def by linarith
  ultimately show ?thesis using ok d d1
    by (simp add: pipe_ok_def get_byte_def pipe_contents_def ring_position [of _ "Suc _"] ring_position [of _ 0] comp_def add.assoc)
qed

interpretation ring: bounded_queue pipe_ok pipe_contents put_byte get_byte pipe_full pipe_empty 512
proof unfold_locales
  fix q b
  assume ok: "pipe_ok q"
  show "length (pipe_contents q) \<le> 512" using ok by (simp add: pipe_ok_def pipe_contents_def)
  have "pipe_full q \<longleftrightarrow> p_nwrite q - p_nread q = 512" by (auto simp: pipe_full_def algebra_simps)
  then show "pipe_full q \<longleftrightarrow> length (pipe_contents q) = 512" by (simp add: pipe_contents_def word_unat_eq_iff)
  have "pipe_empty q \<longleftrightarrow> p_nwrite q - p_nread q = 0" by (auto simp: pipe_empty_def)
  then show "pipe_empty q \<longleftrightarrow> pipe_contents q = []" by (simp add: pipe_contents_def unat_eq_0)
  show "pipe_ok (put_byte q b) \<and> pipe_contents (put_byte q b) = pipe_contents q @ [b]" if "\<not> pipe_full q"
    using put_byte_ok [OF ok that] .
  show "pipe_ok (snd (get_byte q)) \<and> pipe_contents q = fst (get_byte q) # pipe_contents (snd (get_byte q))" if "\<not> pipe_empty q"
    using get_byte_ok [OF ok that] .
qed simp

lemma piperead_copy_ring: "piperead_copy n p = ring.get_all n p"
  by (induction n arbitrary: p) (auto simp: Let_def split: prod.split)

lemmas piperead_copy_spec = ring.get_all_spec [folded piperead_copy_ring]

text \<open>\<open>pipewrite\<close> either puts all its bytes, or stops at a full pipe after those that fit.\<close>

lemma pipewrite_spec:
  "pipe_ok p \<Longrightarrow>
     (let (out, p', wk) = pipewrite killed n p bs in
      \<exists>us vs. bs = us @ vs \<and> pipe_ok p' \<and> pipe_contents p' = pipe_contents p @ us \<and> p_nwrite p' = p_nwrite p + of_nat (length us) \<and>
        p_readopen p' = p_readopen p \<and> p_writeopen p' = p_writeopen p \<and>
        (if vs = [] then out = Returns n \<and> wk = [Nread]
         else pipe_full p' \<and> (if \<not> p_readopen p \<or> killed then out = Returns (- 1) \<and> wk = [] else out = Sleeps vs \<and> wk = [Nread])))"
proof (induction bs arbitrary: p)
  case (Cons b bs)
  show ?case
  proof (cases "pipe_full p")
    case True
    then show ?thesis using Cons.prems by (auto intro!: exI [of _ "[]"])
  next
    case False
    note q = ring.put_spec [OF Cons.prems False, of b]
    obtain out p' wk where o: "pipewrite killed n (put_byte p b) bs = (out, p', wk)" by (metis prod_cases3)
    have f: "p_readopen (put_byte p b) = p_readopen p" "p_writeopen (put_byte p b) = p_writeopen p" "p_nwrite (put_byte p b) = p_nwrite p + 1"
      by (simp_all add: put_byte_def)
    obtain us vs where "bs = us @ vs" "pipe_ok p'" "pipe_contents p' = pipe_contents (put_byte p b) @ us" "p_nwrite p' = p_nwrite p + 1 + of_nat (length us)"
      "p_readopen p' = p_readopen p" "p_writeopen p' = p_writeopen p"
      "if vs = [] then out = Returns n \<and> wk = [Nread]
       else pipe_full p' \<and> (if \<not> p_readopen p \<or> killed then out = Returns (- 1) \<and> wk = [] else out = Sleeps vs \<and> wk = [Nread])"
      using Cons.IH [of "put_byte p b"] q unfolding o f by auto
    then show ?thesis using False q o by (auto intro!: exI [of _ "b # us"] exI [of _ vs])
  qed
qed simp

section \<open>A writer and a reader\<close>

text \<open>A thread that uses one end of the pipe: outside a call, running inside one, or asleep inside one.\<close>

datatype 'a thread = Idle | Running 'a | Asleep 'a

fun wake :: "'a thread \<Rightarrow> 'a thread" where
  "wake (Asleep x) = Running x"
| "wake t = t"

text \<open>\<open>sent\<close> records the bytes that \<open>pipewrite\<close> has taken from its callers, and \<open>got\<close> those that \<open>piperead\<close> has returned.\<close>

record pipe_sys =
  the_pipe :: pipe
  writer :: "(int \<times> u8 list) thread"
  reader :: "nat thread"
  sent :: "u8 list"
  got :: "u8 list"

definition wakes :: "pipe_chan list \<Rightarrow> pipe_sys \<Rightarrow> pipe_sys" where
  "wakes wk s = s\<lparr>writer := (if Nwrite \<in> set wk then wake (writer s) else writer s),
                  reader := (if Nread \<in> set wk then wake (reader s) else reader s)\<rparr>"

text \<open>The bytes a call of \<open>pipewrite\<close> has taken from its caller's \<open>bs\<close>: all of them if it returns their number, those before
  the rest if it sleeps, and if it fails as many as it has counted.\<close>

definition taken :: "u8 list \<Rightarrow> (int, u8 list) progress \<Rightarrow> pipe \<Rightarrow> pipe \<Rightarrow> u8 list" where
  "taken bs out p p' =
     (case out of
        Returns k \<Rightarrow> if k < 0 then take (unat (p_nwrite p' - p_nwrite p)) bs else bs
      | Sleeps vs \<Rightarrow> take (length bs - length vs) bs)"

lemma pipewrite_taken:
  assumes "pipe_ok p" "pipewrite killed n p bs = (out, p', wk)"
  shows "pipe_ok p' \<and> pipe_contents p' = pipe_contents p @ taken bs out p p'"
proof -
  obtain us vs where u: "bs = us @ vs" "pipe_ok p'" "pipe_contents p' = pipe_contents p @ us" "p_nwrite p' = p_nwrite p + of_nat (length us)"
      "if vs = [] then out = Returns n
       else if \<not> p_readopen p \<or> killed then out = Returns (- 1) else out = Sleeps vs"
    using pipewrite_spec [OF assms(1), of killed n bs] unfolding assms(2) by (auto split: if_splits)
  have "length us \<le> 512" using ring.room [OF u(2)] u(3) by simp
  then have "unat (p_nwrite p' - p_nwrite p) = length us" using u(4) by (simp add: unat_of_nat)
  then have "taken bs out p p' = us" using u(1,5) by (auto simp: taken_def split: if_splits)
  then show ?thesis using u(2,3) by simp
qed

text \<open>\<open>kills\<close> says whether a thread may be killed while it is writing.\<close>

inductive pipe_step :: "bool \<Rightarrow> pipe_sys \<Rightarrow> pipe_sys \<Rightarrow> bool" for kills where
  call_write: "writer s = Idle \<Longrightarrow> p_writeopen (the_pipe s) \<Longrightarrow> pipe_step kills s (s\<lparr>writer := Running (int (length bs), bs)\<rparr>)"
| do_write: "writer s = Running (n, bs) \<Longrightarrow> pipewrite killed n (the_pipe s) bs = (out, p', wk) \<Longrightarrow> (killed \<longrightarrow> kills) \<Longrightarrow>
    pipe_step kills s (wakes wk (s\<lparr>the_pipe := p', sent := sent s @ taken bs out (the_pipe s) p',
      writer := (case out of Returns _ \<Rightarrow> Idle | Sleeps vs \<Rightarrow> Asleep (n, vs))\<rparr>))"
| call_read: "reader s = Idle \<Longrightarrow> p_readopen (the_pipe s) \<Longrightarrow> pipe_step kills s (s\<lparr>reader := Running n\<rparr>)"
| do_read: "reader s = Running n \<Longrightarrow> piperead killed (the_pipe s) n = (out, p', wk) \<Longrightarrow>
    pipe_step kills s (wakes wk (s\<lparr>the_pipe := p',
      got := got s @ (case out of Returns (Some cs) \<Rightarrow> cs | _ \<Rightarrow> []),
      reader := (case out of Returns _ \<Rightarrow> Idle | Sleeps k \<Rightarrow> Asleep k)\<rparr>))"
| kill_writer: "pipe_step kills s (s\<lparr>writer := wake (writer s)\<rparr>)"
| kill_reader: "pipe_step kills s (s\<lparr>reader := wake (reader s)\<rparr>)"
| close_write: "writer s = Idle \<Longrightarrow> pipeclose (the_pipe s) True = (p', c, freed) \<Longrightarrow> pipe_step kills s (wakes [c] (s\<lparr>the_pipe := p'\<rparr>))"
| close_read: "reader s = Idle \<Longrightarrow> pipeclose (the_pipe s) False = (p', c, freed) \<Longrightarrow> pipe_step kills s (wakes [c] (s\<lparr>the_pipe := p'\<rparr>))"

inductive pipe_reach :: "bool \<Rightarrow> pipe_sys \<Rightarrow> pipe_sys \<Rightarrow> bool" for kills where
  start: "pipe_reach kills s s"
| step: "pipe_reach kills s t \<Longrightarrow> pipe_step kills t u \<Longrightarrow> pipe_reach kills s u"

text \<open>A new pipe, as \<open>pipealloc\<close> makes it, with both threads outside any call.\<close>

definition fresh_pipe :: "pipe \<Rightarrow> bool" where
  "fresh_pipe p \<longleftrightarrow> length (p_data p) = 512 \<and> p_nread p = 0 \<and> p_nwrite p = 0 \<and> p_readopen p \<and> p_writeopen p"

definition pipe_start :: "pipe \<Rightarrow> pipe_sys" where
  "pipe_start p = \<lparr>the_pipe = p, writer = Idle, reader = Idle, sent = [], got = []\<rparr>"

definition fifo_ok :: "pipe_sys \<Rightarrow> bool" where
  "fifo_ok s \<longleftrightarrow> pipe_ok (the_pipe s) \<and> got s @ pipe_contents (the_pipe s) = sent s"

definition sleep_ok :: "pipe_sys \<Rightarrow> bool" where
  "sleep_ok s \<longleftrightarrow>
     (writer s \<noteq> Idle \<longrightarrow> p_writeopen (the_pipe s)) \<and> (reader s \<noteq> Idle \<longrightarrow> p_readopen (the_pipe s)) \<and>
     (\<forall>x. writer s = Asleep x \<longrightarrow> pipe_full (the_pipe s) \<and> p_readopen (the_pipe s)) \<and>
     (\<forall>n. reader s = Asleep n \<longrightarrow> pipe_empty (the_pipe s) \<and> p_writeopen (the_pipe s))"

lemma wake_not_asleep [simp]: "wake t \<noteq> Asleep x" "wake t = Idle \<longleftrightarrow> t = Idle"
  by (cases t; simp)+

lemma wakes_simps [simp]:
  "the_pipe (wakes wk s) = the_pipe s" "sent (wakes wk s) = sent s" "got (wakes wk s) = got s"
  "writer (wakes wk s) = (if Nwrite \<in> set wk then wake (writer s) else writer s)"
  "reader (wakes wk s) = (if Nread \<in> set wk then wake (reader s) else reader s)"
  by (simp_all add: wakes_def)

lemma close_contents [simp]:
  "pipe_ok (p\<lparr>p_writeopen := x\<rparr>) = pipe_ok p" "pipe_ok (p\<lparr>p_readopen := x\<rparr>) = pipe_ok p"
  "pipe_contents (p\<lparr>p_writeopen := x\<rparr>) = pipe_contents p" "pipe_contents (p\<lparr>p_readopen := x\<rparr>) = pipe_contents p"
  "pipe_full (p\<lparr>p_writeopen := x\<rparr>) = pipe_full p" "pipe_full (p\<lparr>p_readopen := x\<rparr>) = pipe_full p"
  "pipe_empty (p\<lparr>p_writeopen := x\<rparr>) = pipe_empty p" "pipe_empty (p\<lparr>p_readopen := x\<rparr>) = pipe_empty p"
  by (simp_all add: pipe_ok_def pipe_contents_def pipe_full_def pipe_empty_def)

lemma piperead_copy_frame:
  "p_readopen (snd (piperead_copy n p)) = p_readopen p \<and> p_writeopen (snd (piperead_copy n p)) = p_writeopen p"
  by (induction n arbitrary: p) (simp_all add: Let_def get_byte_def case_prod_beta)

lemma pipe_step_fifo: "pipe_step kills s t \<Longrightarrow> fifo_ok s \<Longrightarrow> fifo_ok t"
proof (induction rule: pipe_step.induct)
  case (do_write s n bs killed out p' wk)
  then have "pipe_ok (the_pipe s)" by (simp add: fifo_ok_def)
  then show ?case using pipewrite_taken [of "the_pipe s" killed n bs out p' wk] do_write by (auto simp: fifo_ok_def)
next
  case (do_read s n killed out p' wk)
  then have "pipe_ok (the_pipe s)" by (simp add: fifo_ok_def)
  then show ?case using piperead_copy_spec [of "the_pipe s" n] do_read
    by (auto simp: fifo_ok_def piperead_def Let_def split: if_splits prod.splits)
qed (auto simp: fifo_ok_def pipeclose_def)

lemma write_step_sleep:
  assumes ok: "fifo_ok s" "sleep_ok s" and w: "writer s = Running (n, bs)" "pipewrite False n (the_pipe s) bs = (out, p', wk)"
  shows "sleep_ok (wakes wk (s\<lparr>the_pipe := p', sent := q,
      writer := (case out of Returns _ \<Rightarrow> Idle | Sleeps vs \<Rightarrow> Asleep (n, vs))\<rparr>))"
proof -
  let ?p = "the_pipe s"
  have p: "pipe_ok ?p" using ok by (simp add: fifo_ok_def)
  obtain us vs where u: "bs = us @ vs" "pipe_ok p'" "pipe_contents p' = pipe_contents ?p @ us"
      "p_readopen p' = p_readopen ?p" "p_writeopen p' = p_writeopen ?p"
      "if vs = [] then out = Returns n \<and> wk = [Nread]
       else pipe_full p' \<and> (if \<not> p_readopen ?p then out = Returns (- 1) \<and> wk = [] else out = Sleeps vs \<and> wk = [Nread])"
    using pipewrite_spec [OF p, of False n bs] unfolding w by auto
  have "reader s = Asleep k \<Longrightarrow> Nread \<in> set wk" for k using ok u by (auto simp: sleep_ok_def split: if_splits)
  then show ?thesis using ok u w by (auto simp: sleep_ok_def split: if_splits progress.splits)
qed

lemma read_step_sleep:
  assumes ok: "fifo_ok s" "sleep_ok s" and w: "reader s = Running n" "piperead killed (the_pipe s) n = (out, p', wk)"
  shows "sleep_ok (wakes wk (s\<lparr>the_pipe := p', got := q,
      reader := (case out of Returns _ \<Rightarrow> Idle | Sleeps k \<Rightarrow> Asleep k)\<rparr>))"
proof (cases "pipe_empty (the_pipe s) \<and> p_writeopen (the_pipe s)")
  case True
  then show ?thesis using ok w by (auto simp: sleep_ok_def piperead_def split: if_splits)
next
  case False
  have "the_pipe s = p' \<or> p_readopen p' = p_readopen (the_pipe s) \<and> p_writeopen p' = p_writeopen (the_pipe s)"
    using piperead_copy_frame [of n "the_pipe s"] False w(2) by (auto simp: piperead_def Let_def split: prod.splits)
  moreover have "wk = [Nwrite]" "\<exists>cs. out = Returns cs" using False w(2) by (auto simp: piperead_def Let_def split: prod.splits)
  ultimately show ?thesis using ok w(1) by (auto simp: sleep_ok_def)
qed

lemma pipe_step_sleep: "pipe_step False s t \<Longrightarrow> fifo_ok s \<Longrightarrow> sleep_ok s \<Longrightarrow> sleep_ok t"
proof (induction rule: pipe_step.induct)
  case (do_write s n bs killed out p' wk)
  then show ?case using write_step_sleep [of s n bs out p' wk] by simp
next
  case (do_read s n killed out p' wk)
  then show ?case using read_step_sleep by blast
qed (auto simp: sleep_ok_def pipeclose_def Let_def)

lemma pipe_reach_two: "pipe_step kills s t \<Longrightarrow> pipe_step kills t u \<Longrightarrow> pipe_reach kills s u"
  using pipe_reach.step [OF pipe_reach.step [OF pipe_reach.start]] .

lemma fresh_ok: "fresh_pipe p \<Longrightarrow> fifo_ok (pipe_start p) \<and> sleep_ok (pipe_start p)"
  by (simp add: fresh_pipe_def fifo_ok_def sleep_ok_def pipe_start_def pipe_ok_def pipe_contents_def)

lemma pipe_reach_fifo: "pipe_reach kills s t \<Longrightarrow> fifo_ok s \<Longrightarrow> fifo_ok t"
  by (induction rule: pipe_reach.induct) (auto intro: pipe_step_fifo)

lemma pipe_reach_sleep: "pipe_reach False s t \<Longrightarrow> fifo_ok s \<Longrightarrow> sleep_ok s \<Longrightarrow> sleep_ok t"
  by (induction rule: pipe_reach.induct) (auto intro: pipe_step_sleep pipe_reach_fifo)

text \<open>C11. A pipe is a queue: whatever a writer and a reader do with a new pipe, in whatever order, with whatever kills and
  closes, the bytes that were read followed by those still in the pipe are exactly the bytes that the writer's calls have
  taken from its buffers, in order - all bytes of every call that has succeeded - and the pipe never holds more than 512, also when its 32-bit counters wrap around.\<close>

theorem pipe_fifo:
  assumes "fresh_pipe p" "pipe_reach kills (pipe_start p) s"
  shows "got s @ pipe_contents (the_pipe s) = sent s \<and> length (pipe_contents (the_pipe s)) \<le> 512"
  using pipe_reach_fifo [OF assms(2)] fresh_ok [OF assms(1)] ring.room by (auto simp: fifo_ok_def)

definition new_pipe :: pipe where
  "new_pipe = \<lparr>p_data = replicate 512 0, p_nread = 0, p_nwrite = 0, p_readopen = True, p_writeopen = True\<rparr>"

lemma fresh_new_pipe: "fresh_pipe new_pipe"
  by (simp add: fresh_pipe_def new_pipe_def)

lemma write_some:
  assumes "length bs \<le> 512"
  shows "\<exists>p'. pipewrite killed n new_pipe bs = (Returns n, p', [Nread]) \<and> pipe_contents p' = bs \<and> pipe_ok p'"
proof -
  have ok: "pipe_ok new_pipe" "pipe_contents new_pipe = []" by (simp_all add: pipe_ok_def new_pipe_def pipe_contents_def)
  obtain out p' wk where w: "pipewrite killed n new_pipe bs = (out, p', wk)" by (metis prod_cases3)
  obtain us vs where u: "bs = us @ vs" "pipe_ok p'" "pipe_contents p' = us"
      "if vs = [] then out = Returns n \<and> wk = [Nread] else pipe_full p'"
    using pipewrite_spec [OF ok(1), of killed n bs] ok(2) unfolding w by (auto split: if_splits)
  have "vs = []" using u ring.full_iff [OF u(2)] assms by (auto split: if_splits)
  then show ?thesis using u w by simp
qed

lemma one_write:
  assumes "length bs \<le> 512"
  shows "\<exists>p'. pipe_reach kills (pipe_start new_pipe) \<lparr>the_pipe = p', writer = Idle, reader = Idle, sent = bs, got = []\<rparr> \<and>
    pipe_contents p' = bs \<and> pipe_ok p'"
proof -
  let ?n = "int (length bs)"
  obtain p' where p: "pipewrite False ?n new_pipe bs = (Returns ?n, p', [Nread])" "pipe_contents p' = bs" "pipe_ok p'"
    using write_some [OF assms] by blast
  have "pipe_step kills (pipe_start new_pipe) ((pipe_start new_pipe)\<lparr>writer := Running (?n, bs)\<rparr>)"
    by (rule pipe_step.call_write) (simp_all add: pipe_start_def new_pipe_def)
  moreover have "pipe_contents new_pipe = []" by (simp add: new_pipe_def pipe_contents_def)
  moreover from this have "pipe_step kills ((pipe_start new_pipe)\<lparr>writer := Running (?n, bs)\<rparr>)
      \<lparr>the_pipe = p', writer = Idle, reader = Idle, sent = bs, got = []\<rparr>"
    using pipe_step.do_write [of "(pipe_start new_pipe)\<lparr>writer := Running (?n, bs)\<rparr>" ?n bs False "Returns ?n" p' "[Nread]" kills] p
    by (simp add: pipe_start_def wakes_def taken_def)
  ultimately have "pipe_reach kills (pipe_start new_pipe) \<lparr>the_pipe = p', writer = Idle, reader = Idle, sent = bs, got = []\<rparr>"
    by (blast intro: pipe_reach_two)
  then show ?thesis using p by blast
qed

theorem pipe_fifo_witness:
  "\<exists>s. pipe_reach True (pipe_start new_pipe) s \<and> sent s = [7, 8] \<and> got s @ pipe_contents (the_pipe s) = [7, 8]"
proof -
  obtain p' where "pipe_reach True (pipe_start new_pipe) \<lparr>the_pipe = p', writer = Idle, reader = Idle, sent = [7, 8], got = []\<rparr>"
    using one_write [of "[7, 8]" True] by auto
  from this pipe_fifo [OF fresh_new_pipe this] show ?thesis by (intro exI conjI) auto
qed

text \<open>C20. No wakeup is lost: as long as no thread is killed while it writes, a writer is asleep only at a full pipe that can
  still be read, a reader only at an empty one that can still be written, and so never both.\<close>

theorem pipe_no_lost_wakeup:
  assumes "fresh_pipe p" "pipe_reach False (pipe_start p) s"
  shows "(\<forall>x. writer s = Asleep x \<longrightarrow> length (pipe_contents (the_pipe s)) = 512 \<and> p_readopen (the_pipe s)) \<and>
     (\<forall>n. reader s = Asleep n \<longrightarrow> pipe_contents (the_pipe s) = [] \<and> p_writeopen (the_pipe s)) \<and>
     \<not> ((\<exists>x. writer s = Asleep x) \<and> (\<exists>n. reader s = Asleep n))"
proof -
  have ok: "fifo_ok s" "sleep_ok s"
    using pipe_reach_fifo [OF assms(2)] pipe_reach_sleep [OF assms(2)] fresh_ok [OF assms(1)] by auto
  then have p: "pipe_ok (the_pipe s)" by (simp add: fifo_ok_def)
  show ?thesis using ok ring.full_iff [OF p] ring.empty_iff [OF p] by (auto simp: sleep_ok_def)
qed

text \<open>A reader that finds the new pipe empty goes to sleep.\<close>

lemma reader_sleeps: "pipe_reach kills (pipe_start new_pipe) ((pipe_start new_pipe)\<lparr>reader := Asleep n\<rparr>)"
proof -
  have "pipe_step kills (pipe_start new_pipe) ((pipe_start new_pipe)\<lparr>reader := Running n\<rparr>)"
    by (rule pipe_step.call_read) (simp_all add: pipe_start_def new_pipe_def)
  moreover have "pipe_step kills ((pipe_start new_pipe)\<lparr>reader := Running n\<rparr>) ((pipe_start new_pipe)\<lparr>reader := Asleep n\<rparr>)"
    using pipe_step.do_read [of "(pipe_start new_pipe)\<lparr>reader := Running n\<rparr>" n False "Sleeps n" new_pipe "[]" kills]
    by (simp add: pipe_start_def new_pipe_def piperead_def pipe_empty_def wakes_def)
  ultimately show ?thesis by (rule pipe_reach_two)
qed

theorem pipe_no_lost_wakeup_witness:
  "\<exists>s. pipe_reach False (pipe_start new_pipe) s \<and> reader s = Asleep 3 \<and> pipe_contents (the_pipe s) = []"
  using pipe_no_lost_wakeup [OF fresh_new_pipe reader_sleeps [of False 3]] reader_sleeps [of False 3]
  by (intro exI [of _ "(pipe_start new_pipe)\<lparr>reader := Asleep 3\<rparr>"]) auto

text \<open>C38. The exception is real: a writer killed while the pipe is full returns without waking the readers, so a reader
  stays asleep at a pipe with 512 bytes in it.\<close>

theorem pipe_killed_writer_loses_wakeup:
  "\<exists>s. pipe_reach True (pipe_start new_pipe) s \<and> reader s = Asleep 1 \<and> writer s = Idle \<and> length (pipe_contents (the_pipe s)) = 512"
proof -
  let ?s = "(pipe_start new_pipe)\<lparr>reader := Asleep 1\<rparr>"
  define bs where "bs = replicate 513 (7 :: u8)"
  have len: "length bs = 513" by (simp only: bs_def length_replicate)
  have ok: "pipe_ok new_pipe" "pipe_contents new_pipe = []" by (simp_all add: pipe_ok_def new_pipe_def pipe_contents_def)
  obtain out p' wk where w: "pipewrite True 513 new_pipe bs = (out, p', wk)" by (metis prod_cases3)
  obtain us vs where u: "bs = us @ vs" "pipe_ok p'" "pipe_contents p' = us"
      "if vs = [] then out = Returns 513 \<and> wk = [Nread] else pipe_full p' \<and> out = Returns (- 1) \<and> wk = []"
    using pipewrite_spec [OF ok(1), of True 513 bs] ok(2) unfolding w by auto
  have "length us \<le> 512" using ring.room [OF u(2)] u(3) by simp
  moreover have "length us + length vs = 513" using arg_cong [OF u(1), of length] len by simp
  ultimately have v: "vs \<noteq> []" by auto
  then have f: "out = Returns (- 1)" "wk = []" "length us = 512" using u ring.full_iff [OF u(2)] by auto
  have 1: "pipe_step True ?s (?s\<lparr>writer := Running (513, bs)\<rparr>)"
    using pipe_step.call_write [of ?s True bs] by (simp add: pipe_start_def new_pipe_def len)
  let ?t = "?s\<lparr>writer := Idle, the_pipe := p', sent := us\<rparr>"
  have "taken bs out new_pipe p' = us" using pipewrite_taken [OF ok(1) w] ok(2) u(3) by simp
  then have 2: "pipe_step True (?s\<lparr>writer := Running (513, bs)\<rparr>) ?t"
    using pipe_step.do_write [of "?s\<lparr>writer := Running (513, bs)\<rparr>" 513 bs True out p' wk True] w f u(3) ok(2)
    by (simp add: pipe_start_def wakes_def)
  have "pipe_reach True (pipe_start new_pipe) ?t"
    using reader_sleeps [of True 1] 1 2 pipe_reach.step by blast
  then show ?thesis using f u(3) by (intro exI [of _ ?t]) simp
qed

end
