(* ===== verification/Mmu.thy ===== *)
theory Mmu
  imports Prelude
begin

text \<open>
  The memory layout (\<open>memlayout.h\<close>), page arithmetic and page table entry format (\<open>mmu.h\<close>), and
  the limits of \<open>param.h\<close>.
\<close>

unbundle bit_operations_syntax

section \<open>Definitions\<close>

abbreviation EXTMEM :: u32 where "EXTMEM \<equiv> 0x100000"
abbreviation PHYSTOP :: u32 where "PHYSTOP \<equiv> 0xE000000"
abbreviation DEVSPACE :: u32 where "DEVSPACE \<equiv> 0xFE000000"
abbreviation KERNBASE :: u32 where "KERNBASE \<equiv> 0x80000000"
abbreviation KERNLINK :: u32 where "KERNLINK \<equiv> KERNBASE + EXTMEM"

definition V2P :: "u32 \<Rightarrow> u32" where
  "V2P a = a - KERNBASE"

definition P2V :: "u32 \<Rightarrow> u32" where
  "P2V a = a + KERNBASE"

abbreviation PGSIZE :: u32 where "PGSIZE \<equiv> 4096"

definition PGROUNDUP :: "u32 \<Rightarrow> u32" where
  "PGROUNDUP sz = (sz + PGSIZE - 1) AND NOT (PGSIZE - 1)"

definition PGROUNDDOWN :: "u32 \<Rightarrow> u32" where
  "PGROUNDDOWN a = a AND NOT (PGSIZE - 1)"

definition PDX :: "u32 \<Rightarrow> u32" where
  "PDX va = drop_bit 22 va AND 0x3FF"

definition PTX :: "u32 \<Rightarrow> u32" where
  "PTX va = drop_bit 12 va AND 0x3FF"

definition PGADDR :: "u32 \<Rightarrow> u32 \<Rightarrow> u32 \<Rightarrow> u32" where
  "PGADDR d t x = push_bit 22 d OR push_bit 12 t OR x"

abbreviation PTE_P :: u32 where "PTE_P \<equiv> 0x001"
abbreviation PTE_W :: u32 where "PTE_W \<equiv> 0x002"
abbreviation PTE_U :: u32 where "PTE_U \<equiv> 0x004"

definition PTE_ADDR :: "u32 \<Rightarrow> u32" where
  "PTE_ADDR pte = pte AND NOT 0xFFF"

definition PTE_FLAGS :: "u32 \<Rightarrow> u32" where
  "PTE_FLAGS pte = pte AND 0xFFF"

section \<open>Properties\<close>

lemma V2P_P2V [simp]: "V2P (P2V a) = a"
  by (simp add: V2P_def P2V_def)

lemma P2V_V2P [simp]: "P2V (V2P a) = a"
  by (simp add: V2P_def P2V_def)

lemma and_not_mask12: "w AND NOT 0xFFF = w - take_bit 12 (w :: u32)"
proof -
  have "(0xFFF :: u32) = mask 12" by (simp add: mask_eq_exp_minus_1)
  then have "w AND NOT 0xFFF = w AND NOT (mask 12)" by (simp only:)
  also have "\<dots> = push_bit 12 (drop_bit 12 w)"
    by (rule bit_word_eqI) (auto simp: bit_simps)
  also have "\<dots> = w - take_bit 12 w"
    by (metis add_diff_cancel_right' bits_ident)
  finally show ?thesis .
qed

lemma unat_take_bit12: "unat (take_bit 12 (w :: u32)) = unat w mod 4096"
  by (simp add: take_bit_eq_mod unat_mod_distrib)

lemma PGROUNDDOWN_eq: "PGROUNDDOWN a = a - take_bit 12 a"
proof -
  have "PGSIZE - 1 = 0xFFF" by simp
  then show ?thesis by (simp only: PGROUNDDOWN_def and_not_mask12)
qed

lemma unat_PGROUNDDOWN: "unat (PGROUNDDOWN a) = unat a - unat a mod 4096"
proof -
  have "take_bit 12 a \<le> a"
    by (simp add: word_le_nat_alt unat_take_bit12)
  then show ?thesis
    by (simp add: PGROUNDDOWN_eq unat_sub unat_take_bit12)
qed

lemma PGROUNDDOWN_aligned: "unat (PGROUNDDOWN a) mod 4096 = 0"
  by (simp add: unat_PGROUNDDOWN minus_mod_eq_mult_div)

lemma PGROUNDUP_eq: "PGROUNDUP a = PGROUNDDOWN (a + 4095)"
  by (simp add: PGROUNDUP_def PGROUNDDOWN_def add.commute)

lemma unat_PGROUNDUP:
  assumes "unat a + 4095 < 2 ^ 32"
  shows "unat (PGROUNDUP a) = (unat a + 4095) div 4096 * 4096"
proof -
  have "unat (a + 4095) = unat a + 4095"
    using assms by (simp add: unat_word_ariths)
  then show ?thesis
    by (simp add: PGROUNDUP_eq unat_PGROUNDDOWN minus_mod_eq_div_mult)
qed

lemma PTE_split: "PTE_ADDR p OR PTE_FLAGS p = p"
  by (rule bit_word_eqI) (auto simp: PTE_ADDR_def PTE_FLAGS_def bit_simps)

subsection \<open>Pages\<close>

text \<open>Every address lies in exactly one page.\<close>

lemma in_page_iff:
  assumes "unat p mod 4096 = 0"
  shows "off p x < 4096 \<longleftrightarrow> PGROUNDDOWN x = p"
proof
  assume o: "off p x < 4096"
  have "unat p + off p x < 2 ^ 32"
  proof -
    have "unat p < 4096 * 1048576" by simp
    moreover obtain q where "unat p = 4096 * q" using assms by auto
    ultimately have "unat p + 4096 \<le> 2 ^ 32" by simp
    with o show ?thesis by simp
  qed
  then have "unat (p + of_nat (off p x)) = unat p + off p x"
    by (subst unat_word_ariths) (simp add: unat_of_nat less_imp_le)
  then have x: "unat x = unat p + off p x" by simp
  have "unat p mod 4096 + off p x < 4096" using assms o by simp
  then have "unat x mod 4096 = off p x"
    using x assms by (metis add_0 mod_add_left_eq mod_less)
  with x have "unat (PGROUNDDOWN x) = unat p" by (simp add: unat_PGROUNDDOWN)
  then show "PGROUNDDOWN x = p" by (simp add: word_unat_eq_iff)
next
  assume "PGROUNDDOWN x = p"
  then have "x - p = take_bit 12 x" by (auto simp: PGROUNDDOWN_eq)
  then show "off p x < 4096" by (simp add: off_def unat_take_bit12)
qed

lemma PGROUNDDOWN_self: "unat p mod 4096 = 0 \<Longrightarrow> PGROUNDDOWN p = p"
  using in_page_iff [of p p] by simp

lemma PGROUNDDOWN_offset: "unat p mod 4096 = 0 \<Longrightarrow> n < 4096 \<Longrightarrow> PGROUNDDOWN (p + of_nat n) = p"
  using in_page_iff [of p "p + of_nat n"] by simp

end
