(* ===== verification/Kalloc.thy ===== *)
theory Kalloc
  imports Mmu CString
begin

text \<open>
  The physical page allocator, \<open>kalloc.c\<close>.  The free list lives in the free pages themselves: a
  free page starts with the address of the next one, and \<open>kfree\<close> first fills the page with
  junk.  The model keeps that: a byte memory and the head of the list.  \<open>kend\<close> is the address
  \<open>end\<close> that the linker script puts after the kernel.  The lock calls, which \<open>use_lock\<close> turns
  on, only bracket the list update and are left out.
\<close>

section \<open>Definitions\<close>

record kmem =
  memory :: mem
  use_lock :: bool
  freelist :: u32

definition kfree :: "u32 \<Rightarrow> kmem \<Rightarrow> u32 \<Rightarrow> kmem res" where
  "kfree kend k v =
     (if v mod PGSIZE \<noteq> 0 \<or> v < kend \<or> V2P v \<ge> PHYSTOP then Panic ''kfree''
      else let m = memset (memory k) v 1 PGSIZE
           in Ok (k\<lparr>memory := store32 m v (freelist k), freelist := v\<rparr>))"

definition kalloc :: "kmem \<Rightarrow> u32 \<times> kmem" where
  "kalloc k =
     (let r = freelist k
      in if r \<noteq> 0 then (r, k\<lparr>freelist := load32 (memory k) r\<rparr>) else (r, k))"

lemma V2P_below: "V2P p < PHYSTOP \<Longrightarrow> 0x80000000 \<le> unat p \<and> unat p < 0x8E000000"
proof -
  assume "V2P p < PHYSTOP"
  then have l: "unat (p - 0x80000000) < 0xE000000" by (simp add: V2P_def word_less_nat_alt)
  have "unat p = (unat (p - 0x80000000) + 0x80000000) mod 2 ^ 32"
    using unat_word_ariths(1) [of "p - 0x80000000" "0x80000000"] by simp
  with l show ?thesis by simp
qed

lemma kfree_Ok_bound: "kfree kend k p = Ok k' \<Longrightarrow> unat (p + 4096) = unat p + 4096"
proof -
  assume "kfree kend k p = Ok k'"
  then have "V2P p < PHYSTOP" by (auto simp: kfree_def Let_def split: if_splits)
  from V2P_below [OF this] show ?thesis by (simp add: unat_word_ariths)
qed

function freerange_loop :: "u32 \<Rightarrow> kmem \<Rightarrow> u32 \<Rightarrow> u32 \<Rightarrow> kmem res" where
  "freerange_loop kend k p vend =
     (if p + PGSIZE \<le> vend
      then bindr (kfree kend k p) (\<lambda>k'. freerange_loop kend k' (p + PGSIZE) vend)
      else Ok k)"
  by pat_completeness auto
termination
  by (relation "measure (\<lambda>(kend, k, p, vend). 2 ^ 32 - unat p)") (auto dest!: kfree_Ok_bound intro!: diff_less_mono2)

definition freerange :: "u32 \<Rightarrow> kmem \<Rightarrow> u32 \<Rightarrow> u32 \<Rightarrow> kmem res" where
  "freerange kend k vstart vend = freerange_loop kend k (PGROUNDUP vstart) vend"

definition kinit1 :: "u32 \<Rightarrow> kmem \<Rightarrow> u32 \<Rightarrow> u32 \<Rightarrow> kmem res" where
  "kinit1 kend k vstart vend = freerange kend (k\<lparr>use_lock := False\<rparr>) vstart vend"

definition kinit2 :: "u32 \<Rightarrow> kmem \<Rightarrow> u32 \<Rightarrow> u32 \<Rightarrow> kmem res" where
  "kinit2 kend k vstart vend =
     bindr (freerange kend k vstart vend) (\<lambda>k. Ok (k\<lparr>use_lock := True\<rparr>))"

declare freerange_loop.simps [simp del]

text \<open>\<open>n\<close> allocations in a row, as \<open>setupkvm\<close>, \<open>allocuvm\<close> and the drivers perform them.\<close>

primrec alloc_n :: "('s \<Rightarrow> u32 \<times> 's) \<Rightarrow> nat \<Rightarrow> 's \<Rightarrow> u32 list \<times> 's" where
  "alloc_n al 0 s = ([], s)"
| "alloc_n al (Suc n) s =
     (let (p, s1) = al s; (ps, s2) = alloc_n al n s1 in (p # ps, s2))"

section \<open>The contract of a page allocator\<close>

locale page_allocator =
  fixes alloc :: "'s \<Rightarrow> u32 \<times> 's"
    and free :: "'s \<Rightarrow> u32 \<Rightarrow> 's res"
    and inv :: "'s \<Rightarrow> bool"
    and avail :: "'s \<Rightarrow> u32 set"
    and valid :: "u32 \<Rightarrow> bool"
  assumes avail_finite: "inv s \<Longrightarrow> finite (avail s)"
    and avail_valid: "inv s \<Longrightarrow> p \<in> avail s \<Longrightarrow> valid p"
    and valid_nonzero: "valid p \<Longrightarrow> p \<noteq> 0"
    and alloc_none: "inv s \<Longrightarrow> avail s = {} \<Longrightarrow> alloc s = (0, s)"
    and alloc_some: "inv s \<Longrightarrow> avail s \<noteq> {} \<Longrightarrow> alloc s = (p, s') \<Longrightarrow>
      p \<in> avail s \<and> inv s' \<and> avail s' = avail s - {p}"
    and free_ok: "inv s \<Longrightarrow> valid p \<Longrightarrow> p \<notin> avail s \<Longrightarrow>
      \<exists>s'. free s p = Ok s' \<and> inv s' \<and> avail s' = insert p (avail s)"
begin

lemma alloc_zero_iff: "inv s \<Longrightarrow> fst (alloc s) = 0 \<longleftrightarrow> avail s = {}"
  by (metis alloc_none alloc_some avail_valid fst_conv prod.collapse valid_nonzero)

lemma alloc_n_pages:
  assumes "inv s" "n \<le> card (avail s)" "alloc_n alloc n s = (ps, s')"
  shows "length ps = n \<and> distinct ps \<and> set ps \<subseteq> avail s \<and> inv s' \<and> avail s' = avail s - set ps"
  using assms
proof (induction n arbitrary: s ps s')
  case (Suc n)
  obtain p s1 where a: "alloc s = (p, s1)" by fastforce
  obtain qs s2 where b: "alloc_n alloc n s1 = (qs, s2)" by fastforce
  have "avail s \<noteq> {}" using Suc.prems by auto
  from alloc_some [OF Suc.prems(1) this a]
  have p: "p \<in> avail s" "inv s1" "avail s1 = avail s - {p}" by auto
  moreover from p Suc.prems avail_finite [OF Suc.prems(1)] have "n \<le> card (avail s1)" by simp
  ultimately have "length qs = n \<and> distinct qs \<and> set qs \<subseteq> avail s1 \<and> inv s2 \<and> avail s2 = avail s1 - set qs"
    using Suc.IH [OF _ _ b] by blast
  then show ?case using Suc.prems p a b by auto
qed simp

lemma free_alloc_avail:
  assumes "inv s" "avail s \<noteq> {}" "alloc s = (p, s1)"
  shows "\<exists>s2. free s1 p = Ok s2 \<and> inv s2 \<and> avail s2 = avail s"
  using alloc_some [OF assms] avail_valid [OF assms(1)] free_ok [of s1 p]
  by (metis Diff_iff insertI1 insert_Diff)

end

section \<open>The free list\<close>

definition page_ok :: "u32 \<Rightarrow> u32 \<Rightarrow> bool" where
  "page_ok kend p \<longleftrightarrow> p mod PGSIZE = 0 \<and> kend \<le> p \<and> V2P p < PHYSTOP"

primrec flist :: "mem \<Rightarrow> u32 \<Rightarrow> u32 list \<Rightarrow> bool" where
  "flist m p [] \<longleftrightarrow> p = 0"
| "flist m p (x # xs) \<longleftrightarrow> p = x \<and> x \<noteq> 0 \<and> flist m (load32 m x) xs"

definition kmem_list :: "u32 \<Rightarrow> kmem \<Rightarrow> u32 list \<Rightarrow> bool" where
  "kmem_list kend k xs \<longleftrightarrow>
     flist (memory k) (freelist k) xs \<and> distinct xs \<and> (\<forall>p\<in>set xs. page_ok kend p)"

lemma page_ok_aligned: "page_ok kend p \<Longrightarrow> unat p mod 4096 = 0"
proof -
  assume "page_ok kend p"
  then have "unat (p mod 4096) = 0" by (simp add: page_ok_def)
  then show ?thesis by (simp add: unat_mod_distrib)
qed

lemma page_ok_nonzero: "page_ok kend p \<Longrightarrow> p \<noteq> 0"
  by (auto simp: page_ok_def V2P_def)

lemma flist_unique: "flist m p xs \<Longrightarrow> flist m p ys \<Longrightarrow> xs = ys"
proof (induction xs arbitrary: p ys)
  case Nil
  then show ?case by (cases ys) auto
next
  case (Cons x xs)
  then show ?case by (cases ys) auto
qed

lemma flist_cong: "(\<And>q. q \<in> set xs \<Longrightarrow> load32 m' q = load32 m q) \<Longrightarrow> flist m' p xs \<longleftrightarrow> flist m p xs"
  by (induction xs arbitrary: p) auto

lemma kfree_frame:
  assumes "kfree kend k v = Ok k'" "PGROUNDDOWN x \<noteq> v"
  shows "memory k' x = memory k x"
proof -
  from assms(1) have v: "page_ok kend v"
    and k': "memory k' = store32 (memset (memory k) v 1 PGSIZE) v (freelist k)"
    by (auto simp: kfree_def page_ok_def Let_def split: if_splits)
  have "\<not> off v x < 4096" using assms(2) in_page_iff [OF page_ok_aligned [OF v]] by simp
  then show ?thesis by (simp add: k' store32_other memset_apply)
qed

lemma load32_page_cong:
  assumes "unat q mod 4096 = 0" "\<And>x. PGROUNDDOWN x = q \<Longrightarrow> m' x = m x"
  shows "load32 m' q = load32 m q"
proof -
  have "m' (q + of_nat n) = m (q + of_nat n)" if "n < 4096" for n
    by (rule assms(2)) (rule PGROUNDDOWN_offset [OF assms(1) that])
  from this [of 0] this [of 1] this [of 2] this [of 3] show ?thesis by (simp add: load32_def)
qed

lemma kfree_list:
  assumes "kmem_list kend k xs" "page_ok kend v" "v \<notin> set xs"
  shows "\<exists>k'. kfree kend k v = Ok k' \<and> kmem_list kend k' (v # xs)"
proof -
  from assms(2) obtain k' where k': "kfree kend k v = Ok k'" by (auto simp: kfree_def page_ok_def Let_def not_less not_le)
  then have head: "freelist k' = v" "load32 (memory k') v = freelist k"
    by (auto simp: kfree_def Let_def split: if_splits)
  have "load32 (memory k') q = load32 (memory k) q" if "q \<in> set xs" for q
  proof (rule load32_page_cong)
    show "unat q mod 4096 = 0" using assms(1) that by (auto simp: kmem_list_def intro: page_ok_aligned)
    show "memory k' x = memory k x" if "PGROUNDDOWN x = q" for x
      using kfree_frame [OF k', of x] that assms(3) \<open>q \<in> set xs\<close> by auto
  qed
  then have "flist (memory k') (freelist k) xs \<longleftrightarrow> flist (memory k) (freelist k) xs" by (rule flist_cong)
  then show ?thesis using k' head assms page_ok_nonzero [OF assms(2)] by (auto simp: kmem_list_def)
qed

lemma kalloc_Nil: "kmem_list kend k [] \<Longrightarrow> kalloc k = (0, k)"
  by (simp add: kmem_list_def kalloc_def)

lemma kalloc_Cons:
  "kmem_list kend k (p # ps) \<Longrightarrow>
   kalloc k = (p, k\<lparr>freelist := load32 (memory k) p\<rparr>) \<and> kmem_list kend (k\<lparr>freelist := load32 (memory k) p\<rparr>) ps"
  by (auto simp: kmem_list_def kalloc_def)

section \<open>The allocator meets the contract\<close>

definition kmem_inv :: "u32 \<Rightarrow> kmem \<Rightarrow> bool" where
  "kmem_inv kend k \<longleftrightarrow> (\<exists>xs. kmem_list kend k xs)"

definition kmem_avail :: "kmem \<Rightarrow> u32 set" where
  "kmem_avail k = {p. \<exists>xs. flist (memory k) (freelist k) xs \<and> p \<in> set xs}"

lemma kmem_avail_list: "kmem_list kend k xs \<Longrightarrow> kmem_avail k = set xs"
  by (auto simp: kmem_avail_def kmem_list_def dest: flist_unique)

lemma kmem_invE:
  assumes "kmem_inv kend k"
  obtains xs where "kmem_list kend k xs" "kmem_avail k = set xs"
  using assms kmem_avail_list by (auto simp: kmem_inv_def)

text \<open>Only the free pages matter to the free list.\<close>

lemma kmem_cong:
  assumes "kmem_inv kend k" "\<And>x. PGROUNDDOWN x \<in> kmem_avail k \<Longrightarrow> m' x = memory k x"
  shows "kmem_inv kend (k\<lparr>memory := m'\<rparr>)" "kmem_avail (k\<lparr>memory := m'\<rparr>) = kmem_avail k"
proof -
  obtain xs where xs: "kmem_list kend k xs" "kmem_avail k = set xs" using assms(1) by (rule kmem_invE)
  have "load32 m' q = load32 (memory k) q" if "q \<in> set xs" for q
  proof (rule load32_page_cong)
    show "unat q mod 4096 = 0" using xs(1) that by (auto simp: kmem_list_def intro: page_ok_aligned)
  qed (use assms(2) that xs(2) in auto)
  then have "flist m' (freelist k) xs \<longleftrightarrow> flist (memory k) (freelist k) xs" by (rule flist_cong)
  then have "kmem_list kend (k\<lparr>memory := m'\<rparr>) xs" using xs(1) by (simp add: kmem_list_def)
  then show "kmem_inv kend (k\<lparr>memory := m'\<rparr>)" "kmem_avail (k\<lparr>memory := m'\<rparr>) = kmem_avail k"
    using kmem_avail_list xs(2) by (auto simp: kmem_inv_def)
qed

lemma kalloc_some:
  assumes "kmem_inv kend k" "kmem_avail k \<noteq> {}" "kalloc k = (p, k')"
  shows "p \<in> kmem_avail k \<and> kmem_inv kend k' \<and> kmem_avail k' = kmem_avail k - {p}"
proof -
  from assms(1) obtain xs where xs: "kmem_list kend k xs" "kmem_avail k = set xs" by (rule kmem_invE)
  with assms(2) obtain q qs where q: "xs = q # qs" by (cases xs) auto
  with kalloc_Cons [of kend k q qs] xs assms(3) have "p = q" "kmem_list kend k' qs" by auto
  then show ?thesis using xs q kmem_avail_list [of kend k' qs] by (auto simp: kmem_inv_def kmem_list_def)
qed

interpretation kpages: page_allocator kalloc "kfree kend" "kmem_inv kend" kmem_avail "page_ok kend"
  for kend
proof unfold_locales
  fix k assume "kmem_inv kend k"
  then show "finite (kmem_avail k)" by (auto elim: kmem_invE)
next
  fix k p assume "kmem_inv kend k" "p \<in> kmem_avail k"
  then show "page_ok kend p" by (auto elim!: kmem_invE simp: kmem_list_def)
next
  fix k p assume "kmem_inv kend k" "page_ok kend p" "p \<notin> kmem_avail k"
  then obtain xs where xs: "kmem_list kend k xs" "p \<notin> set xs" by (auto elim!: kmem_invE)
  from kfree_list [OF xs(1) \<open>page_ok kend p\<close> xs(2)] obtain k' where
    "kfree kend k p = Ok k'" "kmem_list kend k' (p # xs)" by blast
  then show "\<exists>k'. kfree kend k p = Ok k' \<and> kmem_inv kend k' \<and> kmem_avail k' = insert p (kmem_avail k)"
    using kmem_avail_list [OF xs(1)] kmem_avail_list [of kend k' "p # xs"] by (auto simp: kmem_inv_def)
next
  fix k assume "kmem_inv kend k" "kmem_avail k = {}"
  then show "kalloc k = (0, k)" by (auto elim!: kmem_invE dest: kalloc_Nil)
qed (use kalloc_some page_ok_nonzero in blast)+

section \<open>Filling the allocator\<close>

definition pages_between :: "u32 \<Rightarrow> u32 \<Rightarrow> u32 set" where
  "pages_between lo hi = {p. unat p mod 4096 = 0 \<and> lo \<le> p \<and> unat p + 4096 \<le> unat hi}"

lemma pages_between_step:
  assumes "unat p mod 4096 = 0" "unat (p + 4096) = unat p + 4096" "p + 4096 \<le> hi"
  shows "pages_between p hi = insert p (pages_between (p + 4096) hi)"
proof -
  have "q = p \<or> p + 4096 \<le> q" if "4096 dvd unat q" "p \<le> q" for q
  proof (rule disjCI)
    assume "\<not> p + 4096 \<le> q"
    then have "unat q - unat p < 4096" using assms(2) that(2) by (simp add: word_le_nat_alt)
    moreover have "(unat q - unat p) mod 4096 = 0"
      using that assms(1) by (simp add: dvd_diff_nat mod_eq_0_iff_dvd)
    ultimately have "unat q = unat p" using that(2) by (simp add: word_le_nat_alt)
    then show "q = p" by (simp add: word_unat_eq_iff)
  qed
  then show ?thesis using assms by (auto simp: pages_between_def word_le_nat_alt)
qed

lemma page_okI:
  "unat p mod 4096 = 0 \<Longrightarrow> kend \<le> p \<Longrightarrow> KERNBASE \<le> p \<Longrightarrow> unat p < 0x8E000000 \<Longrightarrow> page_ok kend p"
proof -
  assume a: "unat p mod 4096 = 0" "kend \<le> p" "KERNBASE \<le> p" "unat p < 0x8E000000"
  have "unat (p mod 4096) = 0" using a(1) by (simp add: unat_mod_distrib)
  then have "p mod 4096 = 0" by (simp only: unsigned_eq_0_iff)
  moreover have "unat (V2P p) = unat p - 0x80000000" using a(3) by (simp add: V2P_def unat_sub)
  ultimately show ?thesis using a by (simp add: page_ok_def word_less_nat_alt)
qed

lemma freerange_loop_pages:
  assumes "kmem_inv kend k" "unat p mod 4096 = 0" "kend \<le> p" "KERNBASE \<le> p"
    "unat vend \<le> 0x8E000000" "unat p \<le> 0x8E000000" "kmem_avail k \<inter> pages_between p vend = {}"
  shows "\<exists>k'. freerange_loop kend k p vend = Ok k' \<and> kmem_inv kend k' \<and>
           kmem_avail k' = kmem_avail k \<union> pages_between p vend"
  using assms
proof (induction kend k p vend rule: freerange_loop.induct)
  case (1 kend k p vend)
  have up: "unat (p + 4096) = unat p + 4096" using "1.prems"(6) by (simp add: unat_word_ariths)
  show ?case
  proof (cases "p + PGSIZE \<le> vend")
    case True
    note step = pages_between_step [OF "1.prems"(2) up True]
    have "unat p + 4096 \<le> unat vend" using True up by (simp add: word_le_nat_alt)
    with "1.prems" have le: "unat p < 0x8E000000" "unat (p + 4096) \<le> 0x8E000000" using up by auto
    have "page_ok kend p" using "1.prems" le by (intro page_okI) auto
    moreover have "p \<notin> kmem_avail k" using "1.prems"(7) step by auto
    ultimately obtain k1 where k1: "kfree kend k p = Ok k1" "kmem_inv kend k1"
      "kmem_avail k1 = insert p (kmem_avail k)" using kpages.free_ok [OF "1.prems"(1)] by blast
    have "p \<notin> pages_between (p + 4096) vend" using up by (simp add: pages_between_def word_le_nat_alt)
    then have "\<exists>k'. freerange_loop kend k1 (p + PGSIZE) vend = Ok k' \<and> kmem_inv kend k' \<and>
           kmem_avail k' = kmem_avail k1 \<union> pages_between (p + PGSIZE) vend"
      using "1.prems" k1 up le step by (intro "1.IH" [OF True k1(1)]) (auto simp: word_le_nat_alt)
    then show ?thesis using k1 True step by (auto simp: freerange_loop.simps [of kend k p])
  next
    case False
    then have "pages_between p vend = {}" using up by (auto simp: pages_between_def word_le_nat_alt)
    then show ?thesis using False "1.prems" by (simp add: freerange_loop.simps)
  qed
qed

lemma PGROUNDUP_page:
  assumes "unat a + 4095 < 2 ^ 32"
  shows "unat (PGROUNDUP a) mod 4096 = 0" "a \<le> PGROUNDUP a" "unat (PGROUNDUP a) \<le> unat a + 4095"
proof -
  have u: "unat (a + 4095) = unat a + 4095" using assms by (simp add: unat_word_ariths)
  show "unat (PGROUNDUP a) mod 4096 = 0" by (simp only: PGROUNDUP_eq PGROUNDDOWN_aligned)
  have "unat (PGROUNDUP a) = unat a + 4095 - (unat a + 4095) mod 4096"
    by (simp only: PGROUNDUP_eq unat_PGROUNDDOWN u)
  moreover have "(unat a + 4095) mod 4096 < 4096" by simp
  ultimately show "a \<le> PGROUNDUP a" "unat (PGROUNDUP a) \<le> unat a + 4095"
    unfolding word_le_nat_alt by linarith+
qed

lemma freerange_pages:
  assumes "kmem_inv kend k" "kend \<le> PGROUNDUP vs" "KERNBASE \<le> vs" "unat ve \<le> 0x8E000000"
    "vs \<le> ve" "kmem_avail k \<inter> pages_between (PGROUNDUP vs) ve = {}"
  shows "\<exists>k'. freerange kend k vs ve = Ok k' \<and> kmem_inv kend k' \<and>
           kmem_avail k' = kmem_avail k \<union> pages_between (PGROUNDUP vs) ve"
proof -
  have v: "unat vs \<le> 0x8E000000" using assms(4,5) by (simp add: word_le_nat_alt)
  note up = PGROUNDUP_page [of vs]
  obtain q where q: "unat (PGROUNDUP vs) = 4096 * q" using up(1) v by auto
  then have "unat (PGROUNDUP vs) \<le> 0x8E000000" using up(3) v by simp
  then show ?thesis
    unfolding freerange_def using assms v up(1,2) by (intro freerange_loop_pages) auto
qed

lemma kfree_lock: "kfree kend k v = Ok k' \<Longrightarrow> use_lock k' = use_lock k"
  by (auto simp: kfree_def Let_def split: if_splits)

lemma freerange_loop_lock: "freerange_loop kend k p vend = Ok k' \<Longrightarrow> use_lock k' = use_lock k"
proof (induction kend k p vend rule: freerange_loop.induct)
  case (1 kend k p vend)
  then show ?case by (subst (asm) (2) freerange_loop.simps) (auto split: if_splits dest: kfree_lock)
qed

lemma freerange_lock: "freerange kend k vs ve = Ok k' \<Longrightarrow> use_lock k' = use_lock k"
  unfolding freerange_def by (rule freerange_loop_lock)

text \<open>C29. The two phases of allocator initialisation, with the arguments \<open>main\<close> gives them, for a kernel image that ends inside
  the first 4 MB.  The first, whatever the memory holds, never panics and leaves on the free list exactly the page frames
  that fit between the end of the kernel and 4 MB.  The second, whichever of those pages have been taken in the meantime,
  never panics, adds exactly the page frames between 4 MB and \<open>PHYSTOP\<close> to those still free, and switches the lock on.\<close>

theorem kinit_avail:
  assumes "freelist k = 0" "KERNBASE \<le> kend" "kend \<le> P2V (4 * 1024 * 1024)"
  shows "(\<exists>k1. kinit1 kend k kend (P2V (4 * 1024 * 1024)) = Ok k1 \<and> \<not> use_lock k1 \<and> kmem_inv kend k1 \<and>
           kmem_avail k1 = pages_between (PGROUNDUP kend) (P2V (4 * 1024 * 1024))) \<and>
    (\<forall>k2. kmem_inv kend k2 \<longrightarrow> kmem_avail k2 \<subseteq> pages_between (PGROUNDUP kend) (P2V (4 * 1024 * 1024)) \<longrightarrow>
       (\<exists>k3. kinit2 kend k2 (P2V (4 * 1024 * 1024)) (P2V PHYSTOP) = Ok k3 \<and> use_lock k3 \<and> kmem_inv kend k3 \<and>
          kmem_avail k3 = kmem_avail k2 \<union> pages_between (P2V (4 * 1024 * 1024)) (P2V PHYSTOP)))"
proof -
  have c: "P2V (4 * 1024 * 1024) = 0x80400000" "P2V PHYSTOP = 0x8E000000" "PGROUNDUP 0x80400000 = 0x80400000"
    by (simp_all add: P2V_def PGROUNDUP_def)
  define k0 where "k0 = k\<lparr>use_lock := False\<rparr>"
  have l0: "kmem_list kend k0 []" using assms(1) by (simp add: k0_def kmem_list_def)
  have b: "unat kend \<le> 0x80400000" using assms(3) unfolding c by (simp add: word_le_nat_alt)
  then have up: "kend \<le> PGROUNDUP kend" by (intro PGROUNDUP_page) simp
  obtain k1 where k1: "freerange kend k0 kend 0x80400000 = Ok k1" "kmem_inv kend k1"
      "kmem_avail k1 = pages_between (PGROUNDUP kend) 0x80400000"
    using freerange_pages [of kend k0 kend "0x80400000"] assms(2,3) up l0 kmem_avail_list [OF l0]
    unfolding c by (auto simp: kmem_inv_def)
  have "\<exists>k1. kinit1 kend k kend 0x80400000 = Ok k1 \<and> \<not> use_lock k1 \<and> kmem_inv kend k1 \<and>
      kmem_avail k1 = pages_between (PGROUNDUP kend) 0x80400000"
    using k1 freerange_lock [OF k1(1)] by (auto simp: kinit1_def k0_def)
  moreover have "\<exists>k3. kinit2 kend k2 0x80400000 0x8E000000 = Ok k3 \<and> use_lock k3 \<and> kmem_inv kend k3 \<and>
      kmem_avail k3 = kmem_avail k2 \<union> pages_between 0x80400000 0x8E000000"
    if k2: "kmem_inv kend k2" "kmem_avail k2 \<subseteq> pages_between (PGROUNDUP kend) 0x80400000" for k2
  proof -
    have "kmem_avail k2 \<inter> pages_between 0x80400000 0x8E000000 = {}"
      using k2(2) by (fastforce simp: pages_between_def word_le_nat_alt)
    then obtain k3 where k3: "freerange kend k2 0x80400000 0x8E000000 = Ok k3" "kmem_inv kend k3"
        "kmem_avail k3 = kmem_avail k2 \<union> pages_between 0x80400000 0x8E000000"
      using freerange_pages [OF k2(1), of "0x80400000" "0x8E000000"] assms(2,3) unfolding c by auto
    define k4 where "k4 = k3\<lparr>use_lock := True\<rparr>"
    have "kmem_inv kend k4" "kmem_avail k4 = kmem_avail k3" "use_lock k4"
      using k3(2) by (simp_all add: k4_def kmem_inv_def kmem_list_def kmem_avail_def)
    then show ?thesis using k3 by (intro exI [of _ k4]) (simp add: kinit2_def k4_def)
  qed
  ultimately show ?thesis unfolding c by blast
qed

theorem kinit_avail_witness:
  "\<exists>k1 k3. kinit1 0x80110000 \<lparr>memory = \<lambda>_. 0, use_lock = True, freelist = 0\<rparr> 0x80110000 (P2V (4 * 1024 * 1024)) = Ok k1 \<and>
     kinit2 0x80110000 k1 (P2V (4 * 1024 * 1024)) (P2V PHYSTOP) = Ok k3 \<and>
     0x80110000 \<in> kmem_avail k3 \<and> 0x8DFFF000 \<in> kmem_avail k3 \<and> 0x8010F000 \<notin> kmem_avail k3"
proof -
  have k: "freelist \<lparr>memory = \<lambda>_. 0, use_lock = True, freelist = 0\<rparr> = 0" "KERNBASE \<le> 0x80110000" "0x80110000 \<le> P2V (4 * 1024 * 1024)"
    by (simp_all add: P2V_def)
  note t = kinit_avail [OF k]
  obtain k1 where k1: "kinit1 0x80110000 \<lparr>memory = \<lambda>_. 0, use_lock = True, freelist = 0\<rparr> 0x80110000 (P2V (4 * 1024 * 1024)) = Ok k1"
    "kmem_inv 0x80110000 k1" "kmem_avail k1 = pages_between (PGROUNDUP 0x80110000) (P2V (4 * 1024 * 1024))"
    using conjunct1 [OF t] by blast
  then obtain k3 where "kinit2 0x80110000 k1 (P2V (4 * 1024 * 1024)) (P2V PHYSTOP) = Ok k3"
    "kmem_avail k3 = kmem_avail k1 \<union> pages_between (P2V (4 * 1024 * 1024)) (P2V PHYSTOP)"
    using conjunct2 [OF t] by blast
  then show ?thesis using k1 by (intro exI [of _ k1] exI [of _ k3]) (simp add: P2V_def PGROUNDUP_def pages_between_def)
qed

text \<open>C18. No page is handed out twice: \<open>n\<close> calls of \<open>kalloc\<close> return \<open>n\<close> different page frames, all of them
  from the free list and none of them free afterwards, as long as that many are free; the call on an
  empty list returns 0 and only that one does.\<close>

theorem kalloc_distinct:
  assumes "kmem_inv kend k"
  shows "(kalloc k = (0, k) \<longleftrightarrow> kmem_avail k = {}) \<and>
         (n \<le> card (kmem_avail k) \<longrightarrow>
          (\<exists>ps k'. alloc_n kalloc n k = (ps, k') \<and> length ps = n \<and> distinct ps \<and>
             (\<forall>p\<in>set ps. page_ok kend p \<and> p \<in> kmem_avail k) \<and>
             kmem_inv kend k' \<and> kmem_avail k' = kmem_avail k - set ps))"
proof (intro conjI impI)
  show "kalloc k = (0, k) \<longleftrightarrow> kmem_avail k = {}"
    using kpages.alloc_zero_iff [OF assms] kpages.alloc_none [OF assms] by auto
  assume "n \<le> card (kmem_avail k)"
  moreover obtain ps k' where "alloc_n kalloc n k = (ps, k')" by fastforce
  ultimately show "\<exists>ps k'. alloc_n kalloc n k = (ps, k') \<and> length ps = n \<and> distinct ps \<and>
     (\<forall>p\<in>set ps. page_ok kend p \<and> p \<in> kmem_avail k) \<and>
     kmem_inv kend k' \<and> kmem_avail k' = kmem_avail k - set ps"
    using kpages.alloc_n_pages [OF assms] kpages.avail_valid [OF assms] by (smt (verit) subset_iff)
qed

theorem kalloc_distinct_witness:
  "let k = \<lparr>memory = store32 (\<lambda>_. 0) 0x80200000 0x80300000, use_lock = True, freelist = 0x80200000\<rparr>
   in kmem_inv 0x80110000 k \<and>
      (\<exists>p q k'. alloc_n kalloc 2 k = ([p, q], k') \<and> p \<noteq> q \<and> kmem_avail k' = {})"
proof -
  define k where "k = \<lparr>memory = store32 (\<lambda>_. 0) 0x80200000 0x80300000, use_lock = True, freelist = 0x80200000\<rparr>"
  have l: "kmem_list 0x80110000 k [0x80200000, 0x80300000]"
    by (simp add: k_def kmem_list_def page_ok_def V2P_def) (simp add: load32_def store32_def join32_def)
  then have i: "kmem_inv 0x80110000 k" by (auto simp: kmem_inv_def)
  have "2 \<le> card {0x80200000, 0x80300000 :: u32}" by simp
  with kalloc_distinct [OF i, of 2] show ?thesis
    unfolding k_def [symmetric] Let_def kmem_avail_list [OF l] using i
    by (auto simp: numeral_2_eq_2 length_Suc_conv)
qed

text \<open>\<open>kfree\<close> panics on exactly the addresses that are not page frames above the kernel and below
  \<open>PHYSTOP\<close>; otherwise it pushes the page, so that the next \<open>kalloc\<close> returns it and restores the list, and
  changes no byte of any other page.\<close>

theorem kfree_kalloc:
  "(kfree kend k v = Panic ''kfree'' \<longleftrightarrow> \<not> page_ok kend v) \<and>
   (page_ok kend v \<longleftrightarrow> (\<exists>k'. kfree kend k v = Ok k' \<and> (\<forall>x. memory k' x = memory k x \<or> PGROUNDDOWN x = v) \<and>
      fst (kalloc k') = v \<and> freelist (snd (kalloc k')) = freelist k))"
proof (cases "page_ok kend v")
  case True
  then obtain k' where k': "kfree kend k v = Ok k'"
    by (auto simp: kfree_def page_ok_def Let_def not_less not_le)
  then have "freelist k' = v" "load32 (memory k') v = freelist k"
    by (auto simp: kfree_def Let_def split: if_splits)
  then show ?thesis using True k' kfree_frame [OF k'] page_ok_nonzero [OF True] by (auto simp: kalloc_def)
next
  case False
  then have "v mod PGSIZE \<noteq> 0 \<or> v < kend \<or> V2P v \<ge> PHYSTOP" unfolding page_ok_def not_le [symmetric] by argo
  then have "kfree kend k v = Panic ''kfree''" unfolding kfree_def by (simp only: if_True)
  then show ?thesis using False by simp
qed

end
