(* ===== verification/File.thy ===== *)
theory File
  imports Fs Pipe Kalloc
begin

text \<open>
  Open files, \<open>file.c\<close>, and \<open>pipealloc\<close> of \<open>pipe.c\<close>.  The state adds to that of the file system the table of open
  files, the pipes by the address of their page, the page allocator, the descriptors of the calling process and its
  \<open>killed\<close> flag.  A call that would sleep is \<open>Blocks\<close>.  The functions behind \<open>devsw\<close> are parameters: what a device read
  of \<open>n\<close> bytes returns, and what a device write returns.
\<close>

section \<open>Definitions\<close>

abbreviation NFILE :: nat where "NFILE \<equiv> 100"
abbreviation NOFILE :: nat where "NOFILE \<equiv> 16"

datatype fdtype = FD_NONE | FD_PIPE | FD_INODE

record filerec =
  f_type :: fdtype
  f_ref :: int
  f_readable :: bool
  f_writable :: bool
  f_pipe :: u32
  f_ip :: nat
  f_off :: u32

record filestate = fstate +
  ftable :: "nat \<Rightarrow> filerec"
  pipes :: "u32 \<rightharpoonup> pipe"
  pages :: kmem
  kern_end :: u32
  ofile :: "nat option list"
  killed :: bool

definition upd_file :: "'a filestate_scheme \<Rightarrow> nat \<Rightarrow> (filerec \<Rightarrow> filerec) \<Rightarrow> 'a filestate_scheme" where
  "upd_file st f g = st\<lparr>ftable := (ftable st)(f := g (ftable st f))\<rparr>"

definition filealloc :: "'a filestate_scheme \<Rightarrow> nat option \<times> 'a filestate_scheme" where
  "filealloc st =
     (case List.find (\<lambda>f. f_ref (ftable st f) = 0) [0..<NFILE] of
        Some f \<Rightarrow> (Some f, upd_file st f (\<lambda>x. x\<lparr>f_ref := 1\<rparr>))
      | None \<Rightarrow> (None, st))"

definition filedup :: "'a filestate_scheme \<Rightarrow> nat \<Rightarrow> 'a filestate_scheme res" where
  "filedup st f =
     (if f_ref (ftable st f) < 1 then Panic ''filedup''
      else Ok (upd_file st f (\<lambda>x. x\<lparr>f_ref := f_ref x + 1\<rparr>)))"

text \<open>\<open>pipeclose\<close> on the page the file points to.\<close>

definition close_pipe :: "'a filestate_scheme \<Rightarrow> u32 \<Rightarrow> bool \<Rightarrow> 'a filestate_scheme res" where
  "close_pipe st a writable =
     (case pipes st a of
        None \<Rightarrow> Undef ''pipe''
      | Some p \<Rightarrow>
          (case pipeclose p writable of (p', _, freed) \<Rightarrow>
             if freed then bindr (kfree (kern_end st) (pages st) a) (\<lambda>k. Ok (st\<lparr>pages := k, pipes := (pipes st)(a := None)\<rparr>))
             else Ok (st\<lparr>pipes := (pipes st)(a \<mapsto> p')\<rparr>)))"

definition fileclose :: "'a filestate_scheme \<Rightarrow> nat \<Rightarrow> 'a filestate_scheme res" where
  "fileclose st f =
     (let x = ftable st f in
      if f_ref x < 1 then Panic ''fileclose''
      else if f_ref x - 1 > 0 then Ok (upd_file st f (\<lambda>x. x\<lparr>f_ref := f_ref x - 1\<rparr>))
      else let st = upd_file st f (\<lambda>x. x\<lparr>f_ref := 0, f_type := FD_NONE\<rparr>) in
           case f_type x of
             FD_PIPE \<Rightarrow> close_pipe st (f_pipe x) (f_writable x)
           | FD_INODE \<Rightarrow> bindr (begin_op st) (\<lambda>st. bindr (iput st (f_ip x)) end_op)
           | FD_NONE \<Rightarrow> Ok st)"

definition filestat :: "'a filestate_scheme \<Rightarrow> nat \<Rightarrow> (stat option \<times> 'a filestate_scheme) res" where
  "filestat st f =
     (let ip = f_ip (ftable st f) in
      if f_type (ftable st f) = FD_INODE
      then bindr (ilock st ip) (\<lambda>st. let s = stati (inodes st ip) in bindr (iunlock st ip) (\<lambda>st. Ok (Some s, st)))
      else Ok (None, st))"

text \<open>The result of \<open>fileread\<close>: the return value and the bytes copied to the caller.  A device read returns \<open>None\<close> for -1.\<close>

definition io_result :: "(nat \<Rightarrow> int \<Rightarrow> u8 list option) \<Rightarrow> int \<Rightarrow> u8 list io \<Rightarrow> int \<times> u8 list" where
  "io_result dr n r =
     (case r of
        Done xs \<Rightarrow> (int (length xs), xs)
      | Failed \<Rightarrow> (- 1, [])
      | Device d \<Rightarrow> (case dr d n of Some xs \<Rightarrow> (int (length xs), xs) | None \<Rightarrow> (- 1, [])))"

definition fileread ::
  "(nat \<Rightarrow> int \<Rightarrow> u8 list option) \<Rightarrow> 'a filestate_scheme \<Rightarrow> nat \<Rightarrow> int \<Rightarrow> (int \<times> u8 list \<times> 'a filestate_scheme) res" where
  "fileread dr st f n =
     (let x = ftable st f in
      if \<not> f_readable x then Ok (- 1, [], st)
      else case f_type x of
        FD_PIPE \<Rightarrow>
          (case pipes st (f_pipe x) of
             None \<Rightarrow> Undef ''pipe''
           | Some p \<Rightarrow>
               (case piperead (killed st) p (nat n) of (out, p', _) \<Rightarrow>
                  (case out of
                     Sleeps _ \<Rightarrow> Blocks ''piperead''
                   | Returns None \<Rightarrow> Ok (- 1, [], st)
                   | Returns (Some cs) \<Rightarrow> Ok (int (length cs), cs, st\<lparr>pipes := (pipes st)(f_pipe x \<mapsto> p')\<rparr>))))
      | FD_INODE \<Rightarrow>
          bindr (ilock st (f_ip x)) (\<lambda>st.
          bindr (readi st (f_ip x) (f_off x) (of_int n)) (\<lambda>(r, st).
          let (rv, xs) = io_result dr n r;
              st = (if rv > 0 then upd_file st f (\<lambda>x. x\<lparr>f_off := f_off x + of_int rv\<rparr>) else st) in
          bindr (iunlock st (f_ip x)) (\<lambda>st. Ok (rv, xs, st))))
      | FD_NONE \<Rightarrow> Panic ''fileread'')"

text \<open>\<open>filewrite\<close> writes at most \<open>((LOGSIZE-1-1-2) / 2) * 512\<close> bytes in one transaction.\<close>

definition max_write :: nat where
  "max_write = ((LOGSIZE - 1 - 1 - 2) div 2) * 512"

definition write_result :: "(nat \<Rightarrow> u8 list \<Rightarrow> int) \<Rightarrow> u8 list \<Rightarrow> u32 io \<Rightarrow> int" where
  "write_result dw xs r = (case r of Done m \<Rightarrow> uint m | Failed \<Rightarrow> - 1 | Device d \<Rightarrow> dw d xs)"

function filewrite_loop :: "(nat \<Rightarrow> u8 list \<Rightarrow> int) \<Rightarrow> nat \<Rightarrow> 'a filestate_scheme \<Rightarrow> u8 list \<Rightarrow> (bool \<times> 'a filestate_scheme) res" where
  "filewrite_loop dw f st src =
     (if src = [] then Ok (True, st)
      else let xs = take max_write src in
           bindr (begin_op st) (\<lambda>st.
           let ip = f_ip (ftable st f) in
           bindr (ilock st ip) (\<lambda>st.
           bindr (writei st ip xs (f_off (ftable st f)) (of_nat (length xs))) (\<lambda>(w, st).
           let r = write_result dw xs w;
               st = (if r > 0 then upd_file st f (\<lambda>x. x\<lparr>f_off := f_off x + of_int r\<rparr>) else st) in
           bindr (iunlock st ip) (\<lambda>st.
           bindr (end_op st) (\<lambda>st.
           if r < 0 then Ok (False, st)
           else if r \<noteq> int (length xs) then Panic ''short filewrite''
           else filewrite_loop dw f st (drop max_write src)))))))"
  by pat_completeness auto
termination
  by (relation "measure (\<lambda>(dw, f, st, src). length src)") (auto simp: max_write_def)

definition filewrite ::
  "(nat \<Rightarrow> u8 list \<Rightarrow> int) \<Rightarrow> 'a filestate_scheme \<Rightarrow> nat \<Rightarrow> u8 list \<Rightarrow> (int \<times> 'a filestate_scheme) res" where
  "filewrite dw st f src =
     (let x = ftable st f in
      if \<not> f_writable x then Ok (- 1, st)
      else case f_type x of
        FD_PIPE \<Rightarrow>
          (case pipes st (f_pipe x) of
             None \<Rightarrow> Undef ''pipe''
           | Some p \<Rightarrow>
               (case pipewrite (killed st) (int (length src)) p src of (out, p', _) \<Rightarrow>
                  (case out of
                     Sleeps _ \<Rightarrow> Blocks ''pipewrite''
                   | Returns r \<Rightarrow> Ok (r, st\<lparr>pipes := (pipes st)(f_pipe x \<mapsto> p')\<rparr>))))
      | FD_INODE \<Rightarrow> bindr (filewrite_loop dw f st src) (\<lambda>(ok, st). Ok (if ok then int (length src) else - 1, st))
      | FD_NONE \<Rightarrow> Panic ''filewrite'')"

declare filewrite_loop.simps [simp del]

text \<open>\<open>pipealloc\<close>: the two files, or \<open>None\<close> for -1.  The lock at the start of \<open>struct pipe\<close> takes 52 bytes; the data array
  holds whatever the page held.\<close>

definition close_opt :: "'a filestate_scheme \<Rightarrow> nat option \<Rightarrow> 'a filestate_scheme res" where
  "close_opt st r = (case r of None \<Rightarrow> Ok st | Some f \<Rightarrow> fileclose st f)"

definition fresh_data :: "kmem \<Rightarrow> u32 \<Rightarrow> u8 list" where
  "fresh_data k p = load_bytes (memory k) (p + 52) 512"

definition pipealloc :: "'a filestate_scheme \<Rightarrow> ((nat \<times> nat) option \<times> 'a filestate_scheme) res" where
  "pipealloc st =
     (let (r0, st) = filealloc st;
          (r1, st) = (if r0 = None then (None, st) else filealloc st);
          bad = (\<lambda>st. bindr (close_opt st r0) (\<lambda>st. bindr (close_opt st r1) (\<lambda>st. Ok (None, st)))) in
      case (r0, r1) of
        (Some f0, Some f1) \<Rightarrow>
          (let (p, k) = kalloc (pages st); st = st\<lparr>pages := k\<rparr> in
           if p = 0 then bad st
           else let st = st\<lparr>pipes := (pipes st)(p \<mapsto> \<lparr>p_data = fresh_data k p, p_nread = 0, p_nwrite = 0,
                              p_readopen = True, p_writeopen = True\<rparr>)\<rparr>;
                    st = upd_file st f0 (\<lambda>x. x\<lparr>f_type := FD_PIPE, f_readable := True, f_writable := False, f_pipe := p\<rparr>);
                    st = upd_file st f1 (\<lambda>x. x\<lparr>f_type := FD_PIPE, f_readable := False, f_writable := True, f_pipe := p\<rparr>)
                in Ok (Some (f0, f1), st))
      | _ \<Rightarrow> bad st)"

end
