(* ===== verification/Syscall.thy ===== *)
theory Syscall
  imports Mmu
begin

text \<open>
  How system calls fetch their arguments, \<open>syscall.c\<close>.  The kernel reads the memory of the calling process directly;
  everything rests on the checks against the size of the process.  A failed fetch is \<open>None\<close>.  The handlers behind the
  dispatch table are a parameter here; those of \<open>sysfile.c\<close> and \<open>sysproc.c\<close> have theories of their own.
\<close>

section \<open>Definitions\<close>

text \<open>What the kernel knows of the calling process: its size, its saved stack pointer, its memory.\<close>

record ucontext =
  u_sz :: u32
  u_esp :: u32
  u_mem :: mem

definition fetchint :: "ucontext \<Rightarrow> u32 \<Rightarrow> u32 option" where
  "fetchint u addr = (if addr \<ge> u_sz u \<or> addr + 4 > u_sz u then None else Some (load32 (u_mem u) addr))"

text \<open>\<open>fetchstr\<close>: the loop runs over the addresses from \<open>addr\<close> up to the size of the process.\<close>

definition fetchstr :: "ucontext \<Rightarrow> u32 \<Rightarrow> (nat \<times> u32) option" where
  "fetchstr u addr =
     (if addr \<ge> u_sz u then None
      else map_option (\<lambda>n. (n, addr))
             (List.find (\<lambda>i. u_mem u (addr + of_nat i) = 0) [0..<unat (u_sz u) - unat addr]))"

definition argint :: "ucontext \<Rightarrow> nat \<Rightarrow> u32 option" where
  "argint u n = fetchint u (u_esp u + 4 + 4 * of_nat n)"

definition argptr :: "ucontext \<Rightarrow> nat \<Rightarrow> int \<Rightarrow> u32 option" where
  "argptr u n sz =
     (case argint u n of
        None \<Rightarrow> None
      | Some i \<Rightarrow> if sz < 0 \<or> i \<ge> u_sz u \<or> i + of_int sz > u_sz u then None else Some i)"

definition argstr :: "ucontext \<Rightarrow> nat \<Rightarrow> (nat \<times> u32) option" where
  "argstr u n = (case argint u n of None \<Rightarrow> None | Some addr \<Rightarrow> fetchstr u addr)"

text \<open>The string a caller of \<open>argstr\<close> then reads.\<close>

definition argpath :: "ucontext \<Rightarrow> nat \<Rightarrow> u8 list option" where
  "argpath u n = map_option (\<lambda>(len, addr). load_bytes (u_mem u) addr len) (argstr u n)"

datatype sysname =
    Sys_fork | Sys_exit | Sys_wait | Sys_pipe | Sys_read | Sys_kill | Sys_exec | Sys_fstat | Sys_chdir | Sys_dup
  | Sys_getpid | Sys_sbrk | Sys_sleep | Sys_uptime | Sys_open | Sys_write | Sys_mknod | Sys_unlink | Sys_link
  | Sys_mkdir | Sys_close | Sys_arp

text \<open>The table \<open>syscalls[]\<close>; entry 0 is a null pointer.\<close>

definition syscalls :: "sysname option list" where
  "syscalls =
     None # map Some
       [Sys_fork, Sys_exit, Sys_wait, Sys_pipe, Sys_read, Sys_kill, Sys_exec, Sys_fstat, Sys_chdir, Sys_dup,
        Sys_getpid, Sys_sbrk, Sys_sleep, Sys_uptime, Sys_open, Sys_write, Sys_mknod, Sys_unlink, Sys_link,
        Sys_mkdir, Sys_close, Sys_arp]"

text \<open>\<open>syscall\<close>: \<open>run\<close> are the handlers, \<open>eax\<close> the register that holds the number and then the result.\<close>

definition syscall :: "(sysname \<Rightarrow> 's \<Rightarrow> (u32 \<times> 's) res) \<Rightarrow> u32 \<Rightarrow> 's \<Rightarrow> (u32 \<times> 's) res" where
  "syscall run eax st =
     (let num = sint eax in
      if 0 < num \<and> num < int (length syscalls)
      then case syscalls ! nat num of Some f \<Rightarrow> run f st | None \<Rightarrow> Ok (- 1, st)
      else Ok (- 1, st))"

section \<open>Properties\<close>

text \<open>A region of user memory that lies inside the process.\<close>

definition inside :: "ucontext \<Rightarrow> u32 \<Rightarrow> nat \<Rightarrow> bool" where
  "inside u p n \<longleftrightarrow> unat p + n \<le> unat (u_sz u)"

lemma fetchint_inside:
  assumes "u_sz u < KERNBASE"
  shows "fetchint u addr = (if inside u addr 4 then Some (load32 (u_mem u) addr) else None)"
proof -
  have s: "unat (u_sz u) < 2147483648" using assms by (simp add: word_less_nat_alt)
  have "unat (addr + 4) = unat addr + 4" if "unat addr < unat (u_sz u)" using that s by (simp add: unat_word_ariths)
  then show ?thesis using s by (auto simp: fetchint_def inside_def word_less_nat_alt word_le_nat_alt not_le not_less)
qed

lemma find_first:
  "List.find P [0..<n] = Some i \<longleftrightarrow> i < n \<and> P i \<and> (\<forall>j<i. \<not> P j)"
proof -
  have "List.find P [0..<n] = Some i \<longleftrightarrow> (\<exists>k<n. P k \<and> i = k \<and> (\<forall>j<k. \<not> P j))"
    by (auto simp: find_Some_iff intro: exI [of _ i])
  then show ?thesis by auto
qed

lemma fetchstr_inside:
  "fetchstr u addr = Some (n, p) \<longleftrightarrow>
     p = addr \<and> inside u p (n + 1) \<and> u_mem u (p + of_nat n) = 0 \<and> (\<forall>j<n. u_mem u (p + of_nat j) \<noteq> 0)"
  by (auto simp: fetchstr_def inside_def find_first word_le_nat_alt)

lemma argptr_inside:
  assumes "u_sz u < KERNBASE" "sz < 2147483648"
  shows "argptr u n sz = Some p \<longleftrightarrow> argint u n = Some p \<and> 0 \<le> sz \<and> p < u_sz u \<and> inside u p (nat sz)"
proof -
  have "p + of_int sz \<le> u_sz u \<longleftrightarrow> inside u p (nat sz)" if z: "0 \<le> sz" and lt: "p < u_sz u"
  proof -
    have s: "unat (u_sz u) < 2147483648" using assms(1) by (simp add: word_less_nat_alt)
    obtain k where k: "sz = int k" using z by (metis nonneg_int_cases)
    have "unat (p + of_nat k) = unat p + k" using assms(2) k lt s by (simp add: unat_word_ariths unat_of_nat word_less_nat_alt)
    then show ?thesis using k by (simp add: inside_def word_le_nat_alt)
  qed
  then show ?thesis by (auto simp: argptr_def not_le not_less split: option.splits)
qed

text \<open>C21. System call arguments are checked exactly.  For a process below \<open>KERNBASE\<close>: an integer argument is fetched
  exactly when its four bytes lie in the process; a buffer argument is accepted exactly when its size is not negative, it
  starts in the process and all its bytes lie there, also for sizes and addresses near the top of the 32-bit range; a
  string argument is accepted exactly when it ends in a NUL inside the process, and comes with its length.\<close>

theorem syscall_args_inside:
  assumes "u_sz u < KERNBASE" "sz < 2147483648"
  shows "argint u n = (let a = u_esp u + 4 + 4 * of_nat n in if inside u a 4 then Some (load32 (u_mem u) a) else None) \<and>
     (argptr u n sz = Some p \<longleftrightarrow> argint u n = Some p \<and> 0 \<le> sz \<and> p < u_sz u \<and> inside u p (nat sz)) \<and>
     (argstr u n = Some (len, q) \<longleftrightarrow> argint u n = Some q \<and> inside u q (len + 1) \<and> u_mem u (q + of_nat len) = 0 \<and>
        (\<forall>j<len. u_mem u (q + of_nat j) \<noteq> 0))"
proof (intro conjI)
  show "argint u n = (let a = u_esp u + 4 + 4 * of_nat n in if inside u a 4 then Some (load32 (u_mem u) a) else None)"
    by (simp add: argint_def fetchint_inside [OF assms(1)] Let_def)
  show "argptr u n sz = Some p \<longleftrightarrow> argint u n = Some p \<and> 0 \<le> sz \<and> p < u_sz u \<and> inside u p (nat sz)"
    by (rule argptr_inside [OF assms])
  show "argstr u n = Some (len, q) \<longleftrightarrow> argint u n = Some q \<and> inside u q (len + 1) \<and> u_mem u (q + of_nat len) = 0 \<and>
      (\<forall>j<len. u_mem u (q + of_nat j) \<noteq> 0)"
    by (auto simp: argstr_def fetchstr_inside split: option.splits)
qed

text \<open>A process of 8192 bytes with its stack at 4096 and the arguments (5, 100, 200).\<close>

definition some_call :: ucontext where
  "some_call = \<lparr>u_sz = 8192, u_esp = 4096, u_mem = store32 (store32 (store32 (\<lambda>_. 0) 4100 5) 4104 100) 4108 200\<rparr>"

theorem syscall_args_inside_witness:
  "argptr some_call 1 8092 = Some 100 \<and> argptr some_call 1 8093 = None \<and> argstr some_call 1 = Some (0, 100)"
proof -
  have a: "argint some_call 1 = Some 100"
    by (simp add: argint_def fetchint_def some_call_def load32_def store32_def join32_def byte_of_def drop_bit_eq_div)
  have k: "u_sz some_call < KERNBASE" "(8092 :: int) < 2147483648" "(8093 :: int) < 2147483648" by (simp_all add: some_call_def)
  have i: "inside some_call 100 8092" "\<not> inside some_call 100 8093" "inside some_call 100 1" "(100 :: u32) < u_sz some_call"
    by (simp_all add: inside_def some_call_def)
  have z: "u_mem some_call 100 = 0" by (simp add: some_call_def store32_def)
  note t = conjunct1 [OF conjunct2 [OF syscall_args_inside]] and t' = conjunct2 [OF conjunct2 [OF syscall_args_inside]]
  have "argptr some_call 1 8092 = Some 100" unfolding t [OF k(1,2)] using a i(1,4) by simp
  moreover have "argptr some_call 1 8093 = None"
  proof (rule ccontr)
    assume "argptr some_call 1 8093 \<noteq> None"
    then obtain p where "argptr some_call 1 8093 = Some p" by blast
    then show False unfolding t [OF k(1,3)] using a i(2) by simp
  qed
  moreover have "argstr some_call 1 = Some (0, 100)" unfolding t' [OF k(1,2)] using a i(3) z by simp
  ultimately show ?thesis by blast
qed

end
