(* ===== verification/Sysfile.thy ===== *)
theory Sysfile
  imports File Syscall
begin

text \<open>
  The file system calls, \<open>sysfile.c\<close>.  A call gets the context of the calling process and the kernel state, and returns
  the value for the user, the process memory it may have written, and the new state.  Arguments are fetched from the
  user stack as in the source.  (\<open>sys_exec\<close> is in the theory of \<open>exec\<close>.)
\<close>

section \<open>Definitions\<close>

definition argfd :: "ucontext \<Rightarrow> 'a filestate_scheme \<Rightarrow> nat \<Rightarrow> (nat \<times> nat) option" where
  "argfd u st n =
     (case argint u n of
        None \<Rightarrow> None
      | Some w \<Rightarrow>
          let fd = sint w in
          if fd < 0 \<or> fd \<ge> int NOFILE then None
          else case ofile st ! nat fd of None \<Rightarrow> None | Some f \<Rightarrow> Some (nat fd, f))"

definition fdalloc :: "'a filestate_scheme \<Rightarrow> nat \<Rightarrow> int \<times> 'a filestate_scheme" where
  "fdalloc st f =
     (case List.find (\<lambda>fd. ofile st ! fd = None) [0..<NOFILE] of
        Some fd \<Rightarrow> (int fd, st\<lparr>ofile := (ofile st)[fd := Some f]\<rparr>)
      | None \<Rightarrow> (- 1, st))"

type_synonym 'a call = "ucontext \<Rightarrow> 'a filestate_scheme \<Rightarrow> (int \<times> ucontext \<times> 'a filestate_scheme) res"

definition fails :: "'a call" where
  "fails u st = Ok (- 1, u, st)"

definition sys_dup :: "'a call" where
  "sys_dup u st =
     (case argfd u st 0 of
        None \<Rightarrow> fails u st
      | Some (_, f) \<Rightarrow>
          (case fdalloc st f of (fd, st) \<Rightarrow>
             if fd < 0 then fails u st else bindr (filedup st f) (\<lambda>st. Ok (fd, u, st))))"

definition sys_read :: "(nat \<Rightarrow> int \<Rightarrow> u8 list option) \<Rightarrow> 'a call" where
  "sys_read dr u st =
     (case (argfd u st 0, argint u 2) of
        (Some (_, f), Some n) \<Rightarrow>
          (case argptr u 1 (sint n) of
             None \<Rightarrow> fails u st
           | Some p \<Rightarrow> bindr (fileread dr st f (sint n)) (\<lambda>(r, xs, st). Ok (r, u\<lparr>u_mem := store_bytes (u_mem u) p xs\<rparr>, st)))
      | _ \<Rightarrow> fails u st)"

definition sys_write :: "(nat \<Rightarrow> u8 list \<Rightarrow> int) \<Rightarrow> 'a call" where
  "sys_write dw u st =
     (case (argfd u st 0, argint u 2) of
        (Some (_, f), Some n) \<Rightarrow>
          (case argptr u 1 (sint n) of
             None \<Rightarrow> fails u st
           | Some p \<Rightarrow> bindr (filewrite dw st f (load_bytes (u_mem u) p (nat (sint n)))) (\<lambda>(r, st). Ok (r, u, st)))
      | _ \<Rightarrow> fails u st)"

definition sys_close :: "'a call" where
  "sys_close u st =
     (case argfd u st 0 of
        None \<Rightarrow> fails u st
      | Some (fd, f) \<Rightarrow> bindr (fileclose (st\<lparr>ofile := (ofile st)[fd := None]\<rparr>) f) (\<lambda>st. Ok (0, u, st)))"

text \<open>\<open>struct stat\<close> in memory: \<open>type\<close>, two bytes of padding that the kernel leaves as they are, \<open>dev\<close>, \<open>ino\<close>, \<open>nlink\<close>, padding, \<open>size\<close>.\<close>

definition store_stat :: "mem \<Rightarrow> u32 \<Rightarrow> stat \<Rightarrow> mem" where
  "store_stat m p s =
     (let m = store_bytes m p (le16 (st_type s)); m = store32 m (p + 4) (st_dev s); m = store32 m (p + 8) (st_ino s);
          m = store_bytes m (p + 12) (le16 (st_nlink s))
      in store32 m (p + 16) (st_size s))"

definition sys_fstat :: "'a call" where
  "sys_fstat u st =
     (case argfd u st 0 of
        None \<Rightarrow> fails u st
      | Some (_, f) \<Rightarrow>
          (case argptr u 1 20 of
             None \<Rightarrow> fails u st
           | Some p \<Rightarrow>
               bindr (filestat st f) (\<lambda>(r, st).
                 case r of None \<Rightarrow> fails u st | Some s \<Rightarrow> Ok (0, u\<lparr>u_mem := store_stat (u_mem u) p s\<rparr>, st))))"

text \<open>Change the link count of a locked inode and write it back.\<close>

definition add_link :: "'a fstate_scheme \<Rightarrow> nat \<Rightarrow> u16 \<Rightarrow> 'a fstate_scheme res" where
  "add_link st ip d = iupdate (upd_inode st ip (\<lambda>x. x\<lparr>i_nlink := i_nlink x + d\<rparr>)) ip"

text \<open>The error exits: give back what is held and end the transaction.\<close>

definition end_fail :: "'a call" where
  "end_fail u st = bindr (end_op st) (\<lambda>st. fails u st)"

definition put_fail :: "nat \<Rightarrow> 'a call" where
  "put_fail ip u st = bindr (iunlockput st ip) (\<lambda>st. end_fail u st)"

definition link_bad :: "nat \<Rightarrow> 'a call" where
  "link_bad ip u st =
     bindr (ilock st ip) (\<lambda>st. bindr (add_link st ip (- 1)) (\<lambda>st. put_fail ip u st))"

text \<open>From the second path on; \<open>ip\<close> is unlocked and its link count already raised.\<close>

definition link_entry :: "nat \<Rightarrow> u8 list \<Rightarrow> 'a call" where
  "link_entry ip new u st =
     bindr (nameiparent st new (replicate DIRSIZ 0)) (\<lambda>(r, name, st).
     case r of
       None \<Rightarrow> link_bad ip u st
     | Some dp \<Rightarrow>
         bindr (ilock st dp) (\<lambda>st.
         bindr (if i_dev (inodes st dp) \<noteq> i_dev (inodes st ip) then Ok (False, st)
                else dirlink st dp name (i_inum (inodes st ip))) (\<lambda>(ok, st).
         bindr (iunlockput st dp) (\<lambda>st.
         if \<not> ok then link_bad ip u st
         else bindr (iput st ip) (\<lambda>st. bindr (end_op st) (\<lambda>st. Ok (0, u, st)))))))"

definition sys_link :: "'a call" where
  "sys_link u st =
     (case (argpath u 0, argpath u 1) of
        (Some old, Some new) \<Rightarrow>
          bindr (begin_op st) (\<lambda>st.
          bindr (namei st old) (\<lambda>(r, st).
          case r of
            None \<Rightarrow> end_fail u st
          | Some ip \<Rightarrow>
              bindr (ilock st ip) (\<lambda>st.
              if i_type (inodes st ip) = T_DIR then put_fail ip u st
              else bindr (add_link st ip 1) (\<lambda>st.
                   bindr (iunlock st ip) (\<lambda>st. link_entry ip new u st)))))
      | _ \<Rightarrow> fails u st)"

primrec isdirempty_loop :: "nat \<Rightarrow> nat list \<Rightarrow> 'a fstate_scheme \<Rightarrow> (bool \<times> 'a fstate_scheme) res" where
  "isdirempty_loop dp [] st = Ok (True, st)"
| "isdirempty_loop dp (pos # rest) st =
     bindr (read_dirent ''isdirempty: readi'' st dp pos) (\<lambda>(de, st).
       if de_inum de \<noteq> 0 then Ok (False, st) else isdirempty_loop dp rest st)"

definition isdirempty :: "'a fstate_scheme \<Rightarrow> nat \<Rightarrow> (bool \<times> 'a fstate_scheme) res" where
  "isdirempty st dp = isdirempty_loop dp (drop 2 (dir_offsets (inodes st dp))) st"

text \<open>Both inodes are locked and the entry may go: clear it, and drop the two links.\<close>

definition unlink_entry :: "nat \<Rightarrow> nat \<Rightarrow> nat \<Rightarrow> 'a call" where
  "unlink_entry dp ip pos u st =
     bindr (writei st dp (replicate DIRENT_SIZE 0) (of_nat pos) (of_nat DIRENT_SIZE)) (\<lambda>(w, st).
     if w \<noteq> Done (of_nat DIRENT_SIZE) then Panic ''unlink: writei''
     else bindr (if i_type (inodes st ip) = T_DIR then add_link st dp (- 1) else Ok st) (\<lambda>st.
          bindr (iunlockput st dp) (\<lambda>st.
          bindr (add_link st ip (- 1)) (\<lambda>st.
          bindr (iunlockput st ip) (\<lambda>st.
          bindr (end_op st) (\<lambda>st. Ok (0, u, st)))))))"

definition unlink_name :: "nat \<Rightarrow> u8 list \<Rightarrow> 'a call" where
  "unlink_name dp name u st =
     bindr (dirlookup st dp name) (\<lambda>(r, st).
     case r of
       None \<Rightarrow> put_fail dp u st
     | Some (ip, pos) \<Rightarrow>
         bindr (ilock st ip) (\<lambda>st.
         if sint (i_nlink (inodes st ip)) < 1 then Panic ''unlink: nlink < 1''
         else bindr (if i_type (inodes st ip) = T_DIR then isdirempty st ip else Ok (True, st)) (\<lambda>(empty, st).
              if \<not> empty then bindr (iunlockput st ip) (\<lambda>st. put_fail dp u st)
              else unlink_entry dp ip pos u st)))"

definition sys_unlink :: "'a call" where
  "sys_unlink u st =
     (case argpath u 0 of
        None \<Rightarrow> fails u st
      | Some path \<Rightarrow>
          bindr (begin_op st) (\<lambda>st.
          bindr (nameiparent st path (replicate DIRSIZ 0)) (\<lambda>(r, name, st).
          case r of
            None \<Rightarrow> end_fail u st
          | Some dp \<Rightarrow>
              bindr (ilock st dp) (\<lambda>st.
              bindr (namecmp name (ascii ''.'' @ [0])) (\<lambda>c1.
              bindr (namecmp name (ascii ''..'' @ [0])) (\<lambda>c2.
              if c1 = 0 \<or> c2 = 0 then put_fail dp u st else unlink_name dp name u st))))))"

text \<open>A new inode in the locked directory \<open>dp\<close>.\<close>

definition create_inode :: "'a fstate_scheme \<Rightarrow> nat \<Rightarrow> u8 list \<Rightarrow> u16 \<Rightarrow> u16 \<Rightarrow> u16 \<Rightarrow> (nat option \<times> 'a fstate_scheme) res" where
  "create_inode st dp name type major minor =
     bindr (ialloc st (i_dev (inodes st dp)) type) (\<lambda>(ip, st).
     bindr (ilock st ip) (\<lambda>st.
     bindr (iupdate (upd_inode st ip (\<lambda>x. x\<lparr>i_major := major, i_minor := minor, i_nlink := 1\<rparr>)) ip) (\<lambda>st.
     bindr (if type = T_DIR
            then bindr (add_link st dp 1) (\<lambda>st.
                 bindr (dirlink st ip (ascii ''.'' @ [0]) (i_inum (inodes st ip))) (\<lambda>(ok1, st).
                 if \<not> ok1 then Panic ''create dots''
                 else bindr (dirlink st ip (ascii ''..'' @ [0]) (i_inum (inodes st dp))) (\<lambda>(ok2, st).
                      if \<not> ok2 then Panic ''create dots'' else Ok st)))
            else Ok st) (\<lambda>st.
     bindr (dirlink st dp name (i_inum (inodes st ip))) (\<lambda>(ok, st).
     if \<not> ok then Panic ''create: dirlink''
     else bindr (iunlockput st dp) (\<lambda>st. Ok (Some ip, st)))))))"

definition create :: "'a fstate_scheme \<Rightarrow> u8 list \<Rightarrow> u16 \<Rightarrow> u16 \<Rightarrow> u16 \<Rightarrow> (nat option \<times> 'a fstate_scheme) res" where
  "create st path type major minor =
     bindr (nameiparent st path (replicate DIRSIZ 0)) (\<lambda>(r, name, st).
     case r of
       None \<Rightarrow> Ok (None, st)
     | Some dp \<Rightarrow>
         bindr (ilock st dp) (\<lambda>st.
         bindr (dirlookup st dp name) (\<lambda>(r, st).
         case r of
           Some (ip, _) \<Rightarrow>
             bindr (iunlockput st dp) (\<lambda>st.
             bindr (ilock st ip) (\<lambda>st.
             if type = T_FILE \<and> i_type (inodes st ip) = T_FILE then Ok (Some ip, st)
             else bindr (iunlockput st ip) (\<lambda>st. Ok (None, st))))
         | None \<Rightarrow> create_inode st dp name type major minor)))"

abbreviation O_RDONLY :: u32 where "O_RDONLY \<equiv> 0x000"
abbreviation O_WRONLY :: u32 where "O_WRONLY \<equiv> 0x001"
abbreviation O_RDWR :: u32 where "O_RDWR \<equiv> 0x002"
abbreviation O_CREATE :: u32 where "O_CREATE \<equiv> 0x200"

text \<open>The first half of \<open>sys_open\<close>: the locked inode, or \<open>None\<close> with the transaction still open.\<close>

definition open_inode :: "'a fstate_scheme \<Rightarrow> u8 list \<Rightarrow> u32 \<Rightarrow> (nat option \<times> 'a fstate_scheme) res" where
  "open_inode st path omode =
     (if omode AND O_CREATE \<noteq> 0 then create st path T_FILE 0 0
      else bindr (namei st path) (\<lambda>(r, st).
        case r of
          None \<Rightarrow> Ok (None, st)
        | Some ip \<Rightarrow>
            bindr (ilock st ip) (\<lambda>st.
            if i_type (inodes st ip) = T_DIR \<and> omode \<noteq> O_RDONLY then bindr (iunlockput st ip) (\<lambda>st. Ok (None, st))
            else Ok (Some ip, st))))"

definition open_file :: "nat \<Rightarrow> u32 \<Rightarrow> filerec \<Rightarrow> filerec" where
  "open_file ip omode x = x\<lparr>f_type := FD_INODE, f_ip := ip, f_off := 0, f_readable := (omode AND O_WRONLY = 0),
     f_writable := (omode AND O_WRONLY \<noteq> 0 \<or> omode AND O_RDWR \<noteq> 0)\<rparr>"

definition sys_open :: "'a call" where
  "sys_open u st =
     (case (argpath u 0, argint u 1) of
        (Some path, Some omode) \<Rightarrow>
          bindr (begin_op st) (\<lambda>st.
          bindr (open_inode st path omode) (\<lambda>(r, st).
          case r of
            None \<Rightarrow> end_fail u st
          | Some ip \<Rightarrow>
              (case filealloc st of
                 (None, st) \<Rightarrow> put_fail ip u st
               | (Some f, st) \<Rightarrow>
                   (case fdalloc st f of (fd, st) \<Rightarrow>
                      if fd < 0 then bindr (fileclose st f) (\<lambda>st. put_fail ip u st)
                      else bindr (iunlock st ip) (\<lambda>st.
                           bindr (end_op st) (\<lambda>st.
                           Ok (fd, u, upd_file st f (open_file ip omode))))))))
      | _ \<Rightarrow> fails u st)"

definition put_ok :: "nat \<Rightarrow> 'a call" where
  "put_ok ip u st = bindr (iunlockput st ip) (\<lambda>st. bindr (end_op st) (\<lambda>st. Ok (0, u, st)))"

definition sys_mkdir :: "'a call" where
  "sys_mkdir u st =
     bindr (begin_op st) (\<lambda>st.
     case argpath u 0 of
       None \<Rightarrow> end_fail u st
     | Some path \<Rightarrow>
         bindr (create st path T_DIR 0 0) (\<lambda>(r, st). case r of None \<Rightarrow> end_fail u st | Some ip \<Rightarrow> put_ok ip u st))"

definition sys_mknod :: "'a call" where
  "sys_mknod u st =
     bindr (begin_op st) (\<lambda>st.
     case (argpath u 0, argint u 1, argint u 2) of
       (Some path, Some major, Some minor) \<Rightarrow>
         bindr (create st path T_DEV (ucast major) (ucast minor)) (\<lambda>(r, st).
           case r of None \<Rightarrow> end_fail u st | Some ip \<Rightarrow> put_ok ip u st)
     | _ \<Rightarrow> end_fail u st)"

definition sys_chdir :: "'a call" where
  "sys_chdir u st =
     bindr (begin_op st) (\<lambda>st.
     case argpath u 0 of
       None \<Rightarrow> end_fail u st
     | Some path \<Rightarrow>
         bindr (namei st path) (\<lambda>(r, st).
         case r of
           None \<Rightarrow> end_fail u st
         | Some ip \<Rightarrow>
             bindr (ilock st ip) (\<lambda>st.
             if i_type (inodes st ip) \<noteq> T_DIR then put_fail ip u st
             else bindr (iunlock st ip) (\<lambda>st.
                  bindr (iput st (cwd st)) (\<lambda>st.
                  bindr (end_op st) (\<lambda>st. Ok (0, u, st\<lparr>cwd := ip\<rparr>)))))))"

definition sys_pipe :: "'a call" where
  "sys_pipe u st =
     (case argptr u 0 8 of
        None \<Rightarrow> fails u st
      | Some fda \<Rightarrow>
          bindr (pipealloc st) (\<lambda>(r, st).
          case r of
            None \<Rightarrow> fails u st
          | Some (f0, f1) \<Rightarrow>
              (case fdalloc st f0 of (fd0, st) \<Rightarrow>
                 (case (if fd0 < 0 then (- 1, st) else fdalloc st f1) of (fd1, st) \<Rightarrow>
                    if fd0 < 0 \<or> fd1 < 0
                    then let st = (if fd0 \<ge> 0 then st\<lparr>ofile := (ofile st)[nat fd0 := None]\<rparr> else st) in
                         bindr (fileclose st f0) (\<lambda>st. bindr (fileclose st f1) (\<lambda>st. fails u st))
                    else Ok (0, u\<lparr>u_mem := store32 (store32 (u_mem u) fda (of_int fd0)) (fda + 4) (of_int fd1)\<rparr>, st)))))"

end
