(* ===== verification/FsBlocks.thy ===== *)
theory FsBlocks
  imports Fs
begin

text \<open>
  The block allocator of \<open>fs.c\<close> against the set of blocks its bitmap marks as used, and the rules for
  successful calls of the layers below that the proofs about the file system share.
\<close>

section \<open>Successful calls of the cache and the log\<close>

definition fframe :: "'a lstate_scheme \<Rightarrow> u32 \<times> u32 \<times> 'a" where
  "fframe st = (mypid st, l_dev st, lstate.more st)"

lemma cframe_fframe: "cframe st' = cframe st \<Longrightarrow> fframe st' = fframe st"
  by (cases st; cases st') (simp add: cframe_def fframe_def)

lemma fframe_fs:
  fixes st st' :: "'a fstate_scheme"
  assumes "fframe st' = fframe st"
  shows "sb st' = sb st" "inodes st' = inodes st" "cwd st' = cwd st" "dev_read st' = dev_read st"
    "dev_write st' = dev_write st" "mypid st' = mypid st"
  using assms by (cases st; cases st'; simp add: fframe_def)+

lemma bread_OkD:
  assumes "bcache_ok st" "bread st 1 n = Ok (b, st')"
  shows "bcache_ok st'" "slot st' b n" "n \<notin> held st" "n < disksize st" "b_data (bufs st' b) = content st n"
    "cview st' = (cview st)\<lparr>cv_held := insert n (held st)\<rparr>" "fframe st' = fframe st"
    "\<And>i m. m \<in> held st \<Longrightarrow> slot st i m \<Longrightarrow> slot st' i m"
proof -
  have o: "opened st n b st'" and n: "n \<notin> held st" "n < disksize st" using bread_Ok_opened [OF assms] by auto
  from o show "bcache_ok st'" "slot st' b n" "\<And>i m. m \<in> held st \<Longrightarrow> slot st i m \<Longrightarrow> slot st' i m" by (auto simp: opened_def)
  show "n \<notin> held st" "n < disksize st" by (rule n)+
  have "content st' = content st" using o by (simp add: opened_def)
  then show "b_data (bufs st' b) = content st n" using content_slot [of st' b n] o by (auto simp: opened_def)
  have st': "st' = st\<lparr>bufs := bufs st'\<rparr>" using o by (simp add: opened_def)
  show "cview st' = (cview st)\<lparr>cv_held := insert n (held st)\<rparr>"
    using bufs_frame [OF st'] o by (auto simp: opened_def cview_def)
  show "fframe st' = fframe st" using bread_frame [OF assms(2)] by (rule cframe_fframe)
qed

lemma brelse_OkD:
  assumes "bcache_ok st" "slot st b n" "n \<in> held st" "n \<in> pinned st \<or> content st n = memdisk st n" "brelse st b = Ok st'"
  shows "bcache_ok st'" "cview st' = (cview st)\<lparr>cv_held := held st - {n}\<rparr>" "fframe st' = fframe st"
    "\<And>i m. m \<in> held st \<Longrightarrow> m \<noteq> n \<Longrightarrow> slot st i m \<Longrightarrow> slot st' i m"
proof -
  have r: "bcache_ok st' \<and> (\<forall>i m. m \<in> held st' \<and> slot st i m \<longrightarrow> slot st' i m) \<and>
      cview st' = (cview st)\<lparr>cv_held := held st - {n}\<rparr> \<and> cframe st' = cframe st"
    using brelse_view [OF assms(1-4)] assms(5) by auto
  then show "bcache_ok st'" "cview st' = (cview st)\<lparr>cv_held := held st - {n}\<rparr>" "fframe st' = fframe st"
    by (auto intro: cframe_fframe)
  have "held st' = held st - {n}" using cviewD(3) [of st' "(cview st)\<lparr>cv_held := held st - {n}\<rparr>"] r by simp
  then show "\<And>i m. m \<in> held st \<Longrightarrow> m \<noteq> n \<Longrightarrow> slot st i m \<Longrightarrow> slot st' i m" using r by simp
qed

lemma log_write_fframe: "log_write st b = Ok st' \<Longrightarrow> fframe st' = fframe st"
  by (auto simp: log_write_def Let_def fframe_def split: if_splits)


lemma modify_block_OkD:
  assumes "bcache_ok st" "modify_block st 1 n f = Ok st'"
  shows "bcache_ok st'" "n \<notin> held st" "n < disksize st" "fframe st' = fframe st"
    "cview st' = (cview st)\<lparr>cv_content := (content st)(n := f (content st n)), cv_pinned := insert n (pinned st)\<rparr>"
    "\<And>i m. m \<in> held st \<Longrightarrow> slot st i m \<Longrightarrow> slot st' i m"
proof -
  obtain b s1 s3 where 1: "bread st 1 n = Ok (b, s1)" and 3: "log_write (set_data s1 b (f (b_data (bufs s1 b)))) b = Ok s3"
      and 4: "brelse s3 b = Ok st'"
    using assms(2) by (auto simp: modify_block_def)
  note r = bread_OkD [OF assms(1) 1]
  note v = cviewD [OF r(6)]
  define s2 where "s2 = set_data s1 b (f (content st n))"
  have h: "n \<in> held s1" by (simp add: v)
  have s2: "bcache_ok s2" "slot s2 = slot s1" "cframe s2 = cframe s1"
      "cview s2 = (cview s1)\<lparr>cv_content := (content s1)(n := f (content st n))\<rparr>"
    using set_data_view [OF r(1,2) h] by (simp_all add: s2_def)
  note v2 = cviewD [OF s2(4)]
  have 3: "log_write s2 b = Ok s3" using 3 r(5) by (simp add: s2_def)
  have b2: "slot s2 b n" "n \<in> held s2" using r(2) s2(2) h v2 by simp_all
  have s3: "bcache_ok s3 \<and> slot s3 = slot s2 \<and> cview s3 = (cview s2)\<lparr>cv_pinned := insert n (pinned s2)\<rparr>"
    by (rule log_write_view [OF s2(1) b2 3])
  note v3 = cviewD [OF conjunct2 [OF conjunct2 [OF s3]]]
  have b3: "slot s3 b n" "n \<in> held s3" "n \<in> pinned s3 \<or> content s3 n = memdisk s3 n"
    using s3 b2 v3 by simp_all
  note q = brelse_OkD [OF conjunct1 [OF s3] b3 4]
  show "bcache_ok st'" by (rule q(1))
  show "n \<notin> held st" "n < disksize st" by (rule r)+
  show "fframe st' = fframe st"
    using q(3) log_write_fframe [OF 3] cframe_fframe [OF s2(3)] r(7) by simp
  have "insert n (held st) - {n} = held st" using r(3) by auto
  then show "cview st' = (cview st)\<lparr>cv_content := (content st)(n := f (content st n)), cv_pinned := insert n (pinned st)\<rparr>"
    unfolding cview_def [of st'] by (simp add: cviewD [OF q(2)] v3 v2 v cview_def)
  show "slot st' i m" if "m \<in> held st" "slot st i m" for i m
  proof -
    have "slot s3 i m" using r(8) [OF that] s2(2) s3 by simp
    moreover have "m \<in> held s3" "m \<noteq> n" using that(1) r(3) v v2 v3 by auto
    ultimately show ?thesis using q(4) by blast
  qed
qed

section \<open>The bitmap\<close>

lemma bit_free_bit: "bit_free d i \<longleftrightarrow> \<not> bit (d ! (i div 8)) (i mod 8)"
  by (simp add: bit_free_def push_bit_eq_mult and_exp_eq_0_iff_not_bit)

lemma same_bit: "i div 8 = j div 8 \<Longrightarrow> i mod 8 = j mod (8 :: nat) \<Longrightarrow> i = j"
  by (metis div_mult_mod_eq)

lemma bit_free_mark:
  assumes "i div 8 < length d"
  shows "bit_free (mark_bit i d) j \<longleftrightarrow> j \<noteq> i \<and> bit_free d j"
  using assms same_bit [of i j]
  by (cases "i div 8 = j div 8") (auto simp: bit_free_bit mark_bit_def bit_simps)


lemma length_bits [simp]: "length (mark_bit i d) = length d" "length (clear_bit i d) = length d"
  by (simp_all add: mark_bit_def clear_bit_def)

text \<open>The block of the bitmap that has the bit of block \<open>n\<close>, and the blocks the bitmap marks as used.\<close>

definition bblock :: "superblock \<Rightarrow> nat \<Rightarrow> u32" where
  "bblock s n = of_nat (n div 4096) + sb_bmapstart s"

definition used :: "superblock \<Rightarrow> (u32 \<Rightarrow> block) \<Rightarrow> nat \<Rightarrow> bool" where
  "used s c n \<longleftrightarrow> \<not> bit_free (c (bblock s n)) (n mod 4096)"

lemma BBLOCK_bblock: "n < 2 ^ 32 \<Longrightarrow> BBLOCK (of_nat n) s = bblock s n"
proof -
  assume "n < 2 ^ 32"
  then have "(of_nat n :: u32) div 4096 = of_nat (n div 4096)"
    unfolding word_unat_eq_iff by (simp add: unat_div_distrib unat_of_nat order.strict_trans1 [OF div_le_dividend])
  then show ?thesis by (simp add: BBLOCK_def bblock_def)
qed

text \<open>What a successful allocation has done: \<open>n\<close> is the block it returns.\<close>

definition allocated :: "'a fstate_scheme \<Rightarrow> nat \<Rightarrow> 'a fstate_scheme \<Rightarrow> bool" where
  "allocated st n st' \<longleftrightarrow>
     bcache_ok st' \<and> fframe st' = fframe st \<and> n < unat (sb_size (sb st)) \<and> \<not> used (sb st) (content st) n \<and>
     of_nat n \<notin> held st \<and> bblock (sb st) n \<notin> held st \<and>
     cview st' = (cview st)\<lparr>
       cv_content := (content st)(bblock (sb st) n := mark_bit (n mod 4096) (content st (bblock (sb st) n)),
                                  of_nat n := replicate BSIZE 0),
       cv_pinned := {of_nat n, bblock (sb st) n} \<union> pinned st\<rparr> \<and>
     (\<forall>i m. m \<in> held st \<and> slot st i m \<longrightarrow> slot st' i m)"

lemma find_upt_SomeD:
  "List.find P [0..<n] = Some i \<Longrightarrow> i < n \<and> P i \<and> (\<forall>j<i. \<not> P j)"
  by (auto simp: find_Some_iff)

lemma balloc_loop_Ok:
  assumes "bcache_ok st" "balloc_loop 1 bs st = Ok (a, st')" "\<forall>b\<in>set bs. b < 2 ^ 32 \<and> b mod 4096 = 0"
  shows "\<exists>n us b vs. a = of_nat n \<and> allocated st n st' \<and> bs = us @ b # vs \<and> n div 4096 = b div 4096 \<and>
     (\<forall>m. m div 4096 = b div 4096 \<and> m < n \<longrightarrow> used (sb st) (content st) m) \<and>
     (\<forall>c\<in>set us. \<forall>m. m div 4096 = c div 4096 \<and> m < unat (sb_size (sb st)) \<longrightarrow> used (sb st) (content st) m)"
  using assms
proof (induction bs arbitrary: st)
  case Nil
  then show ?case by simp
next
  case (Cons b bs)
  let ?s = "sb st" and ?c = "content st"
  have b: "b < 2 ^ 32" "b mod 4096 = 0" using Cons.prems(3) by auto
  then have bb: "BBLOCK (of_nat b) ?s = bblock ?s b" by (intro BBLOCK_bblock)
  obtain bp s1 where 1: "bread st 1 (bblock ?s b) = Ok (bp, s1)"
    using Cons.prems(2) unfolding balloc_loop.simps bb by (auto split: option.splits)
  note r = bread_OkD [OF Cons.prems(1) 1]
  note v = cviewD [OF r(6)] and f = fframe_fs [OF r(7)]
  have um: "used ?s ?c m \<longleftrightarrow> \<not> bit_free (?c (bblock ?s b)) (m - b)" if "m div 4096 = b div 4096" for m
  proof -
    have "m = b + m mod 4096" using that b(2) by (metis add.right_neutral div_mult_mod_eq)
    then have "m - b = m mod 4096" by simp
    then show ?thesis using that by (simp add: used_def bblock_def)
  qed
  have dv: "(b + bi) div 4096 = b div 4096" "(b + bi) mod 4096 = bi" if "bi < 4096" for bi
    using that b(2) by (auto elim!: dvdE simp: mod_eq_0_iff_dvd)
  let ?P = "\<lambda>bi. b + bi < unat (sb_size ?s) \<and> bit_free (?c (bblock ?s b)) bi"
  show ?case
  proof (cases "List.find ?P [0..<4096]")
    case (Some bi)
    note fs = find_upt_SomeD [OF Some]
    define n where "n = b + bi"
    have n: "n div 4096 = b div 4096" "n mod 4096 = bi" "bblock ?s n = bblock ?s b"
      using dv fs by (auto simp: n_def bblock_def)
    obtain s3 s4 where 3: "log_write (set_data s1 bp (mark_bit bi (b_data (bufs s1 bp)))) bp = Ok s3"
        and 4: "brelse s3 bp = Ok s4" and 5: "bzero s4 1 (of_nat n) = Ok st'" and a: "a = of_nat n"
      using Cons.prems(2) 1 Some unfolding balloc_loop.simps bb by (auto simp: f r(5) n_def)
    have m: "modify_block st 1 (bblock ?s b) (mark_bit bi) = Ok s4" using 1 3 4 by (simp add: modify_block_def)
    note q = modify_block_OkD [OF Cons.prems(1) m]
    note w = modify_block_OkD [OF q(1) 5 [unfolded bzero_def]]
    note vq = cviewD [OF q(5)]
    have "cview st' = (cview st)\<lparr>
       cv_content := ?c(bblock ?s n := mark_bit (n mod 4096) (?c (bblock ?s n)), of_nat n := replicate BSIZE 0),
       cv_pinned := {of_nat n, bblock ?s n} \<union> pinned st\<rparr>"
      unfolding w(5) q(5) vq n by simp
    moreover have "\<not> used ?s ?c n" using um [OF n(1)] fs by (simp add: n_def)
    ultimately have al: "allocated st n st'"
      using w q fs n vq by (auto simp: allocated_def n_def)
    have "used ?s ?c m" if "m div 4096 = b div 4096" "m < n" for m
    proof -
      have "m - b < bi" "b + (m - b) = m"
        using that b(2) by (auto simp: n_def)
      moreover from this have "b + (m - b) < unat (sb_size ?s)" using fs that(2) by (simp add: n_def)
      ultimately show ?thesis using fs um [OF that(1)] by auto
    qed
    then show ?thesis using a al n(1) by (intro exI [of _ n] exI [of _ "[]"] exI [of _ b] exI [of _ bs]) auto
  next
    case None
    then obtain s2 where 2: "brelse s1 bp = Ok s2" "balloc_loop 1 bs s2 = Ok (a, st')"
      using Cons.prems(2) 1 unfolding balloc_loop.simps bb by (auto simp: f r(5))
    have h: "bblock ?s b \<in> held s1" by (simp add: v)
    have c: "bblock ?s b \<in> pinned s1 \<or> content s1 (bblock ?s b) = memdisk s1 (bblock ?s b)"
      using content_clean [OF Cons.prems(1) r(3)] v by auto
    note q = brelse_OkD [OF r(1,2) h c 2(1)]
    have "held st - {bblock ?s b} = held st" using r(3) by auto
    then have v2: "cview s2 = cview st" unfolding q(2) r(6) using v(3) by (simp add: cview_def)
    have f2: "fframe s2 = fframe st" using q(3) r(7) by simp
    note c2 = cviewD [OF v2, unfolded cview_simps] and sb2 = fframe_fs [OF f2]
    obtain n us b' vs where n: "a = of_nat n" "allocated s2 n st'" "bs = us @ b' # vs" "n div 4096 = b' div 4096"
        "\<forall>m. m div 4096 = b' div 4096 \<and> m < n \<longrightarrow> used ?s ?c m"
        "\<forall>c\<in>set us. \<forall>m. m div 4096 = c div 4096 \<and> m < unat (sb_size ?s) \<longrightarrow> used ?s ?c m"
      using Cons.IH [OF q(1) 2(2)] Cons.prems(3) unfolding c2 sb2 by auto
    have "slot s2 i m" if "m \<in> held st" "slot st i m" for i m
      using q(4) [of m i] r(8) [OF that] that r(3) by (auto simp: v)
    then have al: "allocated st n st'" using n(2) f2 unfolding allocated_def c2 sb2 v2 by auto
    have "used ?s ?c m" if "m div 4096 = b div 4096" "m < unat (sb_size ?s)" for m
    proof -
      have "m - b < 4096" "b + (m - b) = m" using that(1) b(2) by auto
      then show ?thesis using None um [OF that(1)] that(2) by (auto simp: find_None_iff)
    qed
    then show ?thesis using n al by (intro exI [of _ n] exI [of _ "b # us"] exI [of _ b'] exI [of _ vs]) auto
  qed
qed

lemma balloc_Ok:
  assumes "bcache_ok st" "balloc st 1 = Ok (a, st')"
  shows "\<exists>n. a = of_nat n \<and> allocated st n st' \<and> (\<forall>m<n. used (sb st) (content st) m)"
proof -
  let ?K = "(unat (sb_size (sb st)) + 4095) div 4096"
  let ?bs = "map (\<lambda>k. 4096 * k) [0..<?K]"
  have u: "unat (sb_size (sb st)) < 4294967296" by simp
  have "4096 * k < 2 ^ 32 \<and> 4096 * k mod 4096 = 0" if "k < ?K" for k
  proof -
    have "4096 * k < unat (sb_size (sb st))" using that by linarith
    then have "4096 * k < 4294967296" using u by linarith
    then show ?thesis by simp
  qed
  then have "\<forall>b\<in>set ?bs. b < 2 ^ 32 \<and> b mod 4096 = 0" by auto
  from balloc_loop_Ok [OF assms(1) assms(2) [unfolded balloc_def] this]
  obtain n us b vs where n: "a = of_nat n" "allocated st n st'" "?bs = us @ b # vs" "n div 4096 = b div 4096"
      "\<forall>m. m div 4096 = b div 4096 \<and> m < n \<longrightarrow> used (sb st) (content st) m"
      "\<forall>c\<in>set us. \<forall>m. m div 4096 = c div 4096 \<and> m < unat (sb_size (sb st)) \<longrightarrow> used (sb st) (content st) m"
    by blast
  have lt: "n < unat (sb_size (sb st))" using n(2) by (simp add: allocated_def)
  have "b = 4096 * length us" "us = map (\<lambda>k. 4096 * k) [0..<length us]"
  proof -
    have l: "length us < ?K" using arg_cong [OF n(3), of length] by simp
    show "b = 4096 * length us" using arg_cong [OF n(3), of "\<lambda>xs. xs ! length us"] l by simp
    have "us = take (length us) ?bs" using n(3) by simp
    then show "us = map (\<lambda>k. 4096 * k) [0..<length us]" using l by (simp add: take_map take_upt)
  qed
  then have us: "4096 * k \<in> set us" if "k < n div 4096" for k using that n(4) by (metis atLeastLessThan_iff image_eqI le0 list.set_map nonzero_mult_div_cancel_left set_upt zero_neq_numeral)
  have "used (sb st) (content st) m" if "m < n" for m
  proof (cases "m div 4096 = n div 4096")
    case True
    then show ?thesis using n(4,5) that by simp
  next
    case False
    then have "m div 4096 < n div 4096" using that by (simp add: div_le_mono le_neq_implies_less)
    from us [OF this] show ?thesis using n(6) that lt by (auto dest!: bspec spec [of _ m])
  qed
  then show ?thesis using n(1,2) by blast
qed

text \<open>A bitmap fits its file system if its blocks are whole and are themselves marked as used.\<close>

definition bitmap_ok :: "superblock \<Rightarrow> (u32 \<Rightarrow> block) \<Rightarrow> bool" where
  "bitmap_ok s c \<longleftrightarrow>
     (\<forall>n < unat (sb_size s). length (c (bblock s n)) = BSIZE \<and>
        (\<forall>m < unat (sb_size s). of_nat m = bblock s n \<longrightarrow> used s c m))"

lemma used_mark:
  assumes "bitmap_ok s c" "n < unat (sb_size s)" "\<not> used s c n" "m < unat (sb_size s)"
    and c': "c' = c(bblock s n := mark_bit (n mod 4096) (c (bblock s n)), of_nat n := x)"
  shows "used s c' m \<longleftrightarrow> m = n \<or> used s c m"
proof -
  have ne: "of_nat n \<noteq> bblock s m" using assms(1-4) by (auto simp: bitmap_ok_def)
  have len: "(n mod 4096) div 8 < length (c (bblock s n))"
    using assms(1,2) by (simp add: bitmap_ok_def less_mult_imp_div_less)
  show ?thesis
  proof (cases "bblock s m = bblock s n")
    case True
    then have "of_nat (m div 4096) = (of_nat (n div 4096) :: u32)" by (simp add: bblock_def)
    from arg_cong [OF this, of unat] have "m div 4096 = n div 4096"
      using assms(2,4) unat_u32_less [of "sb_size s"]
      by (simp add: unat_of_nat del: unat_u32_less)
    then have "m = n \<longleftrightarrow> m mod 4096 = n mod 4096" by (metis div_mult_mod_eq)
    then show ?thesis using True ne len by (simp add: used_def c' bit_free_mark)
  next
    case False
    then show ?thesis using ne by (auto simp: used_def c')
  qed
qed

text \<open>C25. \<open>balloc\<close> hands out the first block that the bitmap does not mark, which was therefore not in use; afterwards
  exactly that block is used in addition, its contents are zero, and no block but it and its bitmap block has
  changed.  The bitmap stays consistent.\<close>

theorem balloc_first_free:
  assumes "bcache_ok st" "bitmap_ok (sb st) (content st)" "balloc st 1 = Ok (a, st')"
  shows "\<exists>n. a = of_nat n \<and> n < unat (sb_size (sb st)) \<and> \<not> used (sb st) (content st) n \<and>
     (\<forall>m<n. used (sb st) (content st) m) \<and>
     (\<forall>m < unat (sb_size (sb st)). used (sb st') (content st') m \<longleftrightarrow> m = n \<or> used (sb st) (content st) m) \<and>
     content st' a = replicate BSIZE 0 \<and>
     (\<forall>b. b \<noteq> a \<and> b \<noteq> bblock (sb st) n \<longrightarrow> content st' b = content st b) \<and>
     bitmap_ok (sb st') (content st')"
proof -
  obtain n where n: "a = of_nat n" "allocated st n st'" "\<forall>m<n. used (sb st) (content st) m"
    using balloc_Ok [OF assms(1,3)] by blast
  let ?s = "sb st" and ?c = "content st"
  have f: "sb st' = ?s" using n(2) fframe_fs(1) by (auto simp: allocated_def)
  have al: "n < unat (sb_size ?s)" "\<not> used ?s ?c n" using n(2) by (auto simp: allocated_def)
  have c': "content st' = ?c(bblock ?s n := mark_bit (n mod 4096) (?c (bblock ?s n)), of_nat n := replicate BSIZE 0)"
  proof -
    have "cview st' = (cview st)\<lparr>
       cv_content := ?c(bblock ?s n := mark_bit (n mod 4096) (?c (bblock ?s n)), of_nat n := replicate BSIZE 0),
       cv_pinned := {of_nat n, bblock ?s n} \<union> pinned st\<rparr>" using n(2) by (simp add: allocated_def)
    from cviewD(1) [OF this] show ?thesis by simp
  qed
  have u: "\<forall>m < unat (sb_size ?s). used ?s (content st') m \<longleftrightarrow> m = n \<or> used ?s ?c m"
    using used_mark [OF assms(2) al _ c'] by blast
  have "length (content st' (bblock ?s k)) = BSIZE" if "k < unat (sb_size ?s)" for k
    using assms(2) that by (auto simp: c' bitmap_ok_def)
  then have "bitmap_ok ?s (content st')" using u assms(2) by (auto simp: bitmap_ok_def)
  then show ?thesis using n al u f by (intro exI [of _ n]) (auto simp: c')
qed

section \<open>Freeing\<close>




section \<open>A small file system\<close>

text \<open>
  A file system of 100 blocks: the log at 2, inodes from 32, the bitmap in block 40, the root directory (with the
  entries \<open>.\<close> and \<open>a\<close>) in block 50 and the file \<open>a\<close> in block 51.
\<close>

definition zero_block :: block where "zero_block = replicate BSIZE 0"

definition demo_sb :: superblock where
  "demo_sb = \<lparr>sb_size = 100, sb_nblocks = 59, sb_ninodes = 16, sb_nlog = 30, sb_logstart = 2, sb_inodestart = 32, sb_bmapstart = 40\<rparr>"

definition demo_root :: dinode where
  "demo_root = \<lparr>di_type = T_DIR, di_major = 0, di_minor = 0, di_nlink = 1, di_size = 32, di_addrs = 50 # replicate 12 0\<rparr>"

definition demo_file :: dinode where
  "demo_file = \<lparr>di_type = T_FILE, di_major = 0, di_minor = 0, di_nlink = 1, di_size = 5, di_addrs = 51 # replicate 12 0\<rparr>"

definition demo_disk :: "u32 \<Rightarrow> block" where
  "demo_disk n =
     (if n = 1 then put32s zero_block 0 [100, 59, 16, 30, 2, 32, 40]
      else if n = 32 then put_dinode (put_dinode zero_block 1 demo_root) 2 demo_file
      else if n = 40 then replicate 6 255 @ [15] @ replicate 505 0
      else if n = 50 then dirent_bytes \<lparr>de_inum = 1, de_name = name_field (ascii ''.'')\<rparr> @
                          dirent_bytes \<lparr>de_inum = 2, de_name = name_field (ascii ''a'')\<rparr> @ replicate 480 0
      else if n = 51 then ascii ''hello'' @ replicate 507 0
      else zero_block)"

definition zero_inode :: inode where
  "zero_inode = \<lparr>i_dev = 0, i_inum = 0, i_ref = 0, i_lock = initsleeplock, i_valid = False, i_type = 0, i_major = 0,
     i_minor = 0, i_nlink = 0, i_size = 0, i_addrs = replicate 13 0\<rparr>"

definition demo0 :: fstate where
  "demo0 = \<lparr>bufs = \<lambda>_. zero_buf, memdisk = demo_disk, disksize = 100, written = [], mypid = 1,
     l_start = 2, l_size = 30, l_outstanding = 1, l_committing = False, l_dev = 1, lh_n = 0, lh_block = replicate LOGSIZE 0,
     sb = demo_sb, inodes = \<lambda>_. zero_inode, cwd = 0, dev_read = \<lambda>n. n = 1, dev_write = \<lambda>n. n = 1\<rparr>"

definition demo :: fstate where
  "demo = binit demo0"

lemma demo_cache: "bcache_ok demo" "held demo = {}" "pinned demo = {}" "content demo = demo_disk" "memdisk demo = demo_disk"
    "disksize demo = 100" "cframe demo = cframe demo0"
  using binit_ok [of demo0] bufs_frame [of demo demo0] by (simp_all add: demo_def demo0_def zero_buf_def)

lemma demo_log: "l_start demo = 2" "l_size demo = 30" "l_outstanding demo = 1" "lh_n demo = 0" "l_dev demo = 1"
    "lh_block demo = replicate LOGSIZE 0"
  using log_frame [OF demo_cache(7)] by (simp_all add: demo0_def)

lemma demo_fs: "sb demo = demo_sb" "inodes demo = (\<lambda>_. zero_inode)" "cwd demo = 0" "mypid demo = 1"
  using fframe_fs [OF cframe_fframe [OF demo_cache(7)]] by (simp_all add: demo0_def)

lemma log_write_total:
  assumes "0 \<le> lh_n st" "lh_n st < int LOGSIZE" "lh_n st < l_size st - 1" "1 \<le> l_outstanding st"
  shows "\<exists>st'. log_write st b = Ok st'"
  using assms by (simp add: log_write_def Let_def)

lemma modify_block_total:
  assumes "bcache_ok st" "n \<notin> held st" "n < disksize st" "n \<in> pinned st \<or> card (held st \<union> pinned st) < NBUF"
    and l: "0 \<le> lh_n st" "lh_n st < int LOGSIZE" "lh_n st < l_size st - 1" "1 \<le> l_outstanding st"
  shows "\<exists>st'. modify_block st 1 n f = Ok st' \<and> lh_n st' \<le> lh_n st + 1 \<and> 0 \<le> lh_n st' \<and> l_size st' = l_size st \<and>
     l_outstanding st' = l_outstanding st"
proof -
  obtain b s1 where 1: "bread st 1 n = Ok (b, s1)" using bread_view [OF assms(1-4)] by blast
  note r = bread_OkD [OF assms(1) 1]
  note v = cviewD [OF r(6)] and fr = log_frame [OF bread_frame [OF 1]]
  define s2 where "s2 = set_data s1 b (f (b_data (bufs s1 b)))"
  have h: "n \<in> held s1" by (simp add: v)
  have s2: "bcache_ok s2" "slot s2 = slot s1" "cframe s2 = cframe s1"
      "cview s2 = (cview s1)\<lparr>cv_content := (content s1)(n := f (b_data (bufs s1 b)))\<rparr>"
    using set_data_view [OF r(1,2) h] by (simp_all add: s2_def)
  note v2 = cviewD [OF s2(4)] and fr2 = log_frame [OF s2(3)]
  obtain s3 where 3: "log_write s2 b = Ok s3" using log_write_total [of s2 b] fr fr2 l by auto
  have s3: "bcache_ok s3 \<and> slot s3 = slot s2 \<and> cview s3 = (cview s2)\<lparr>cv_pinned := insert n (pinned s2)\<rparr>"
    by (rule log_write_view [OF s2(1) _ _ 3]) (use r(2) s2(2) h v2 in simp_all)
  note v3 = cviewD [OF conjunct2 [OF conjunct2 [OF s3]]]
  obtain st' where 4: "brelse s3 b = Ok st'" "cframe st' = cframe s3"
    using brelse_view [of s3 b n] s3 r(2) s2(2) h v2 v3 by auto
  have "lh_n s3 \<le> lh_n s2 + 1 \<and> 0 \<le> lh_n s3" using 3 l(1) fr fr2 by (auto simp: log_write_def Let_def split: if_splits)
  then show ?thesis using 1 3 4 log_frame [OF 4(2)] log_write_frame [OF 3] fr fr2 s2_def
    by (intro exI [of _ st']) (auto simp: modify_block_def)
qed

lemma demo_bitmap: "i < 100 \<Longrightarrow> bit_free (demo_disk 40) i \<longleftrightarrow> 52 \<le> i"
proof -
  assume i: "i < 100"
  have m: "(255 :: u8) = mask 8" "(15 :: u8) = mask 4" by (simp_all add: mask_eq_exp_minus_1)
  have "(replicate 6 255 @ [15] @ replicate 505 0) ! k = (if k < 6 then mask 8 else if k = 6 then mask 4 else 0 :: u8)" if "k < 13" for k
    using that by (auto simp: nth_append nth_Cons' m [symmetric])
  then have d: "demo_disk 40 ! (i div 8) = (if i div 8 < 6 then mask 8 else if i div 8 = 6 then mask 4 else 0)"
    using i by (simp add: demo_disk_def less_mult_imp_div_less)
  have "bit_free (demo_disk 40) i \<longleftrightarrow> \<not> (i div 8 < 6 \<or> i div 8 = 6 \<and> i mod 8 < 4)"
    by (simp add: bit_free_bit d bit_mask_iff)
  also have "\<dots> \<longleftrightarrow> 52 \<le> i" by presburger
  finally show ?thesis .
qed

lemma demo_used: "n < 100 \<Longrightarrow> used demo_sb demo_disk n \<longleftrightarrow> n < 52"
  using demo_bitmap [of n] by (simp add: used_def bblock_def demo_sb_def not_le)

lemma demo_bitmap_ok: "bitmap_ok demo_sb demo_disk"
proof -
  have "bblock demo_sb n = 40" if "n < 100" for n using that by (simp add: bblock_def demo_sb_def)
  moreover have "m < 52" if "m < 100" "(of_nat m :: u32) = 40" for m
    using arg_cong [OF that(2), of unat] that(1) by (simp add: unat_of_nat)
  moreover have "length (demo_disk 40) = BSIZE" by (simp add: demo_disk_def)
  ultimately show ?thesis using demo_used by (auto simp: bitmap_ok_def demo_sb_def [THEN arg_cong, of sb_size])
qed

lemma balloc_loop_hit:
  assumes "bread st 1 (BBLOCK (of_nat b) (sb st)) = Ok (bp, s1)" "sb s1 = sb st"
    "List.find (\<lambda>bi. b + bi < unat (sb_size (sb st)) \<and> bit_free (b_data (bufs s1 bp)) bi) [0..<4096] = Some bi"
  shows "balloc_loop 1 (b # bs) st = bindr (modify_block st 1 (BBLOCK (of_nat b) (sb st)) (mark_bit bi)) (\<lambda>s.
           bindr (bzero s 1 (of_nat (b + bi))) (\<lambda>s. Ok (of_nat (b + bi), s)))"
  using assms by (simp add: modify_block_def bindr_assoc del: upt_rec_numeral)

lemma find_upt_SomeI: "i < n \<Longrightarrow> P i \<Longrightarrow> (\<And>j. j < i \<Longrightarrow> \<not> P j) \<Longrightarrow> List.find P [0..<n] = Some i"
  by (auto simp: find_Some_iff intro!: exI [of _ i])

lemma demo_balloc: "\<exists>st'. balloc demo 1 = Ok (52, st')"
proof -
  have bb: "BBLOCK (of_nat 0) (sb demo) = 40" by (simp add: BBLOCK_def demo_fs demo_sb_def)
  obtain bp s1 where 1: "bread demo 1 40 = Ok (bp, s1)" using bread_view [of demo 40] demo_cache by auto
  note r = bread_OkD [OF demo_cache(1) 1]
  have f: "List.find (\<lambda>bi. 0 + bi < unat (sb_size (sb demo)) \<and> bit_free (b_data (bufs s1 bp)) bi) [0..<4096] = Some 52"
    by (rule find_upt_SomeI) (use demo_bitmap in \<open>auto simp: r(5) demo_cache demo_fs demo_sb_def\<close>)
  note h = balloc_loop_hit [of demo 0 bp s1 52 "[]", unfolded bb, OF 1 fframe_fs(1) [OF r(7)] f]
  obtain s2 where 2: "modify_block demo 1 40 (mark_bit 52) = Ok s2" "lh_n s2 \<le> 1" "0 \<le> lh_n s2" "l_size s2 = 30" "l_outstanding s2 = 1"
    using modify_block_total [of demo 40 "mark_bit 52"] demo_cache demo_log by auto
  note m = modify_block_OkD [OF demo_cache(1) 2(1)]
  note v = cviewD [OF m(5)]
  obtain s3 where 3: "bzero s2 1 52 = Ok s3"
    using modify_block_total [of s2 52 "\<lambda>_. replicate BSIZE 0"] m(1) 2 v demo_cache by (auto simp: bzero_def)
  have "map (\<lambda>k. 4096 * k) [0..<(unat (sb_size (sb demo)) + 4095) div 4096] = [0]" by (simp add: demo_fs demo_sb_def)
  then have "balloc demo 1 = balloc_loop 1 [0] demo" by (simp only: balloc_def)
  also have "\<dots> = Ok (52, s3)" unfolding h by (simp add: 2(1) 3)
  finally show ?thesis by blast
qed

theorem balloc_first_free_witness:
  "\<exists>st'. balloc demo 1 = Ok (52, st') \<and> \<not> used (sb demo) (content demo) 52 \<and> used (sb st') (content st') 52 \<and>
     content st' 52 = replicate BSIZE 0"
proof -
  obtain st' where st': "balloc demo 1 = Ok (52, st')" using demo_balloc by blast
  have b: "bitmap_ok (sb demo) (content demo)" using demo_bitmap_ok by (simp add: demo_fs demo_cache)
  obtain n where n: "(52 :: u32) = of_nat n" "n < 100" "\<not> used (sb demo) (content demo) n" "used (sb st') (content st') n"
      "content st' 52 = replicate BSIZE 0"
    using balloc_first_free [OF demo_cache(1) b st'] by (auto simp: demo_fs demo_sb_def)
  have "n = 52" using arg_cong [OF n(1), of unat] n(2) by (simp add: unat_of_nat)
  then show ?thesis using st' n by blast
qed




end
