(* ===== verification/Descriptors.thy ===== *)
theory Descriptors
  imports Sysfile FsBlocks
begin

text \<open>
  Descriptors and the open file table: what \<open>dup\<close> and \<open>close\<close> of \<open>sysfile.c\<close> do to the reference
  counts of \<open>file.c\<close>.
\<close>

section \<open>Properties\<close>

definition free_fd :: "'a filestate_scheme \<Rightarrow> nat \<Rightarrow> bool" where
  "free_fd st n \<longleftrightarrow> n < NOFILE \<and> ofile st ! n = None \<and> (\<forall>i<n. ofile st ! i \<noteq> None)"

lemma fdalloc_free: "free_fd st n \<Longrightarrow> fdalloc st f = (int n, st\<lparr>ofile := (ofile st)[n := Some f]\<rparr>)"
  by (simp add: free_fd_def fdalloc_def find_first [THEN iffD2] del: upt_rec_numeral)

text \<open>C28. Duplicating a descriptor and closing the duplicate is the identity.  When the first argument names an open file and a
  descriptor is free, \<open>dup\<close> returns the lowest free descriptor, which then refers to the same open file, whose reference
  count is one higher, and changes nothing else; closing that descriptor succeeds and restores the state, the file itself
  staying open.\<close>

theorem sys_dup_close:
  assumes "argfd u st 0 = Some (fd, f)" "0 < f_ref (ftable st f)" "free_fd st n" "length (ofile st) = NOFILE"
    "argint u' 0 = Some (of_nat n)"
  shows "\<exists>st'. sys_dup u st = Ok (int n, u, st') \<and> ofile st' = (ofile st)[n := Some f] \<and> f_ref (ftable st' f) = f_ref (ftable st f) + 1 \<and>
    (\<forall>g. g \<noteq> f \<longrightarrow> ftable st' g = ftable st g) \<and> sys_close u' st' = Ok (0, u', st)"
proof -
  have n: "n < NOFILE" "(ofile st)[n := None] = ofile st" using assms(3) by (auto simp: free_fd_def) (metis list_update_id)
  define st2 where "st2 = upd_file (st\<lparr>ofile := (ofile st)[n := Some f]\<rparr>) f (\<lambda>x. x\<lparr>f_ref := f_ref x + 1\<rparr>)"
  have dup: "sys_dup u st = Ok (int n, u, st2)"
    using assms(1,2) by (simp add: sys_dup_def filedup_def fdalloc_free [OF assms(3)] st2_def)
  have "sint (of_nat n :: u32) = int n" using n(1) by (simp add: sint_uint signed_take_bit_int_eq_self uint_nat unat_of_nat)
  then have "argfd u' st2 0 = Some (n, f)"
    using assms(4,5) n(1) by (simp add: argfd_def st2_def upd_file_def)
  then have "sys_close u' st2 = Ok (0, u', st)"
    using assms(2) n by (simp add: sys_close_def fileclose_def st2_def upd_file_def Let_def)
  then show ?thesis using dup by (intro exI [of _ st2]) (simp add: st2_def upd_file_def)
qed

text \<open>A process whose descriptor 0 is the open file 7, and calls with the arguments 0 and 1.\<close>

definition one_open :: filestate where
  "one_open = fstate.extend demo0 (filestate.fields
     (\<lambda>f. \<lparr>f_type = FD_INODE, f_ref = (if f = 7 then 1 else 0), f_readable = True, f_writable = False, f_pipe = 0, f_ip = 3, f_off = 0\<rparr>)
     Map.empty \<lparr>memory = \<lambda>_. 0, use_lock = True, freelist = 0\<rparr> 0x80110000 (Some 7 # replicate 15 None) False)"

definition call_with :: "u32 \<Rightarrow> ucontext" where
  "call_with a = \<lparr>u_sz = 8192, u_esp = 4096, u_mem = store32 (\<lambda>_. 0) 4100 a\<rparr>"

theorem sys_dup_close_witness:
  "\<exists>st'. sys_dup (call_with 0) one_open = Ok (1, call_with 0, st') \<and> f_ref (ftable st' 7) = 2 \<and>
     sys_close (call_with 1) st' = Ok (0, call_with 1, one_open)"
proof -
  have a: "argint (call_with x) 0 = Some x" for x by (simp add: argint_def fetchint_def call_with_def)
  have o: "ofile one_open = Some 7 # replicate 15 None" "f_ref (ftable one_open 7) = 1"
    by (simp_all add: one_open_def fstate.defs filestate.defs)
  have f: "argfd (call_with 0) one_open 0 = Some (0, 7)" by (simp add: argfd_def a o)
  have n: "free_fd one_open 1" by (simp add: free_fd_def o)
  from sys_dup_close [OF f _ n, of "call_with 1"] show ?thesis by (simp add: o a) blast
qed

end
