(* ===== verification/Vm.thy ===== *)
theory Vm
  imports Kalloc
begin

text \<open>
  Page tables, \<open>vm.c\<close>.  A page directory and its page tables are pages of the byte memory that the page allocator hands
  out, entries are 32-bit words in them, and a null pointer is 0, as in the source.  A function that returns 0 or -1
  returns a boolean here; the functions that return a size or a pointer return it.  \<open>kend\<close> and \<open>kdata\<close> are the linker's
  \<open>end\<close> and \<open>data\<close>.  (\<open>loaduvm\<close>, which reads a file, is in the theory of \<open>exec\<close>, and \<open>switchuvm\<close> in that of segments.)
\<close>

unbundle bit_operations_syntax

section \<open>Definitions\<close>

definition walkpgdir :: "kmem \<Rightarrow> u32 \<Rightarrow> u32 \<Rightarrow> bool \<Rightarrow> u32 \<times> kmem" where
  "walkpgdir k pgdir va alloc =
     (let pde = pgdir + 4 * PDX va; e = load32 (memory k) pde in
      if e AND PTE_P \<noteq> 0 then (P2V (PTE_ADDR e) + 4 * PTX va, k)
      else if \<not> alloc then (0, k)
      else let (pgtab, k) = kalloc k in
           if pgtab = 0 then (0, k)
           else let m = memset (memory k) pgtab 0 PGSIZE;
                    m = store32 m pde (V2P pgtab OR PTE_P OR PTE_W OR PTE_U)
                in (pgtab + 4 * PTX va, k\<lparr>memory := m\<rparr>))"

text \<open>The loop of \<open>mappages\<close> ends when \<open>a\<close> reaches \<open>last\<close>; both are page aligned, so \<open>n\<close> more pages are left, with
  \<open>n = (last - a) / PGSIZE\<close>.\<close>

primrec mappages_loop :: "u32 \<Rightarrow> u32 \<Rightarrow> nat \<Rightarrow> u32 \<Rightarrow> u32 \<Rightarrow> kmem \<Rightarrow> (bool \<times> kmem) res" where
  "mappages_loop pgdir perm 0 a pa k =
     (let (pte, k) = walkpgdir k pgdir a True in
      if pte = 0 then Ok (False, k)
      else if load32 (memory k) pte AND PTE_P \<noteq> 0 then Panic ''remap''
      else Ok (True, k\<lparr>memory := store32 (memory k) pte (pa OR perm OR PTE_P)\<rparr>))"
| "mappages_loop pgdir perm (Suc n) a pa k =
     (let (pte, k) = walkpgdir k pgdir a True in
      if pte = 0 then Ok (False, k)
      else if load32 (memory k) pte AND PTE_P \<noteq> 0 then Panic ''remap''
      else mappages_loop pgdir perm n (a + PGSIZE) (pa + PGSIZE)
             (k\<lparr>memory := store32 (memory k) pte (pa OR perm OR PTE_P)\<rparr>))"

definition mappages :: "kmem \<Rightarrow> u32 \<Rightarrow> u32 \<Rightarrow> u32 \<Rightarrow> u32 \<Rightarrow> u32 \<Rightarrow> (bool \<times> kmem) res" where
  "mappages k pgdir va sz pa perm =
     (let a = PGROUNDDOWN va; lst = PGROUNDDOWN (va + sz - 1)
      in mappages_loop pgdir perm (unat ((lst - a) div PGSIZE)) a pa k)"

function deallocuvm_loop :: "u32 \<Rightarrow> u32 \<Rightarrow> u32 \<Rightarrow> u32 \<Rightarrow> kmem \<Rightarrow> kmem res" where
  "deallocuvm_loop kend pgdir oldsz a k =
     (if a < oldsz then
        let (pte, k) = walkpgdir k pgdir a False; e = load32 (memory k) pte in
        bindr (if pte = 0 then Ok (PGADDR (PDX a + 1) 0 0 - PGSIZE, k)
               else if e AND PTE_P \<noteq> 0
               then if PTE_ADDR e = 0 then Panic ''kfree''
                    else bindr (kfree kend k (P2V (PTE_ADDR e))) (\<lambda>k. Ok (a, k\<lparr>memory := store32 (memory k) pte 0\<rparr>))
               else Ok (a, k)) (\<lambda>(a', k).
        if a' + PGSIZE \<le> a then Undef ''address wraps around''
        else deallocuvm_loop kend pgdir oldsz (a' + PGSIZE) k)
      else Ok k)"
  by pat_completeness auto
termination
  by (relation "measure (\<lambda>(kend, pgdir, oldsz, a, k). 2 ^ 32 - unat a)")
    (auto simp: not_le word_less_nat_alt intro!: diff_less_mono2)

definition deallocuvm :: "u32 \<Rightarrow> kmem \<Rightarrow> u32 \<Rightarrow> u32 \<Rightarrow> u32 \<Rightarrow> (u32 \<times> kmem) res" where
  "deallocuvm kend k pgdir oldsz newsz =
     (if newsz \<ge> oldsz then Ok (oldsz, k)
      else bindr (deallocuvm_loop kend pgdir oldsz (PGROUNDUP newsz) k) (\<lambda>k. Ok (newsz, k)))"

definition freevm :: "u32 \<Rightarrow> kmem \<Rightarrow> u32 \<Rightarrow> kmem res" where
  "freevm kend k pgdir =
     (if pgdir = 0 then Panic ''freevm: no pgdir''
      else bindr (deallocuvm kend k pgdir KERNBASE 0) (\<lambda>(_, k).
           bindr (for_each (\<lambda>i k. let e = load32 (memory k) (pgdir + 4 * of_nat i) in
                    if e AND PTE_P \<noteq> 0 then kfree kend k (P2V (PTE_ADDR e)) else Ok k) [0..<1024] k) (\<lambda>k.
           kfree kend k pgdir)))"

text \<open>The table of kernel mappings: virtual start, physical start and end, permissions.\<close>

definition kmap :: "u32 \<Rightarrow> (u32 \<times> u32 \<times> u32 \<times> u32) list" where
  "kmap kdata =
     [(KERNBASE, 0, EXTMEM, PTE_W),
      (KERNLINK, V2P KERNLINK, V2P kdata, 0),
      (kdata, V2P kdata, PHYSTOP, PTE_W),
      (DEVSPACE, DEVSPACE, 0, PTE_W)]"

primrec setupkvm_loop :: "u32 \<Rightarrow> u32 \<Rightarrow> (u32 \<times> u32 \<times> u32 \<times> u32) list \<Rightarrow> kmem \<Rightarrow> (u32 \<times> kmem) res" where
  "setupkvm_loop kend pgdir [] k = Ok (pgdir, k)"
| "setupkvm_loop kend pgdir (e # es) k =
     (case e of (virt, phys_start, phys_end, perm) \<Rightarrow>
        bindr (mappages k pgdir virt (phys_end - phys_start) phys_start perm) (\<lambda>(ok, k).
        if ok then setupkvm_loop kend pgdir es k
        else bindr (freevm kend k pgdir) (\<lambda>k. Ok (0, k))))"

definition setupkvm :: "u32 \<Rightarrow> u32 \<Rightarrow> kmem \<Rightarrow> (u32 \<times> kmem) res" where
  "setupkvm kend kdata k =
     (let (pgdir, k) = kalloc k in
      if pgdir = 0 then Ok (0, k)
      else let k = k\<lparr>memory := memset (memory k) pgdir 0 PGSIZE\<rparr> in
           if P2V PHYSTOP > DEVSPACE then Panic ''PHYSTOP too high''
           else setupkvm_loop kend pgdir (kmap kdata) k)"

definition inituvm :: "kmem \<Rightarrow> u32 \<Rightarrow> u8 list \<Rightarrow> kmem res" where
  "inituvm k pgdir init =
     (if length init \<ge> unat PGSIZE then Panic ''inituvm: more than a page''
      else let (mm, k) = kalloc k in
           if mm = 0 then Undef ''null''
           else bindr (mappages (k\<lparr>memory := memset (memory k) mm 0 PGSIZE\<rparr>) pgdir 0 PGSIZE (V2P mm) (PTE_W OR PTE_U)) (\<lambda>(_, k).
                Ok (k\<lparr>memory := store_bytes (memory k) mm init\<rparr>)))"

function allocuvm_loop :: "u32 \<Rightarrow> u32 \<Rightarrow> u32 \<Rightarrow> u32 \<Rightarrow> u32 \<Rightarrow> kmem \<Rightarrow> (u32 \<times> kmem) res" where
  "allocuvm_loop kend pgdir oldsz newsz a k =
     (if a < newsz then
        let (mm, k) = kalloc k in
        if mm = 0 then bindr (deallocuvm kend k pgdir newsz oldsz) (\<lambda>(_, k). Ok (0, k))
        else bindr (mappages (k\<lparr>memory := memset (memory k) mm 0 PGSIZE\<rparr>) pgdir a PGSIZE (V2P mm) (PTE_W OR PTE_U)) (\<lambda>(ok, k).
             if \<not> ok
             then bindr (deallocuvm kend k pgdir newsz oldsz) (\<lambda>(_, k). bindr (kfree kend k mm) (\<lambda>k. Ok (0, k)))
             else if a + PGSIZE \<le> a then Undef ''address wraps around''
             else allocuvm_loop kend pgdir oldsz newsz (a + PGSIZE) k)
      else Ok (newsz, k))"
  by pat_completeness auto
termination
  by (relation "measure (\<lambda>(kend, pgdir, oldsz, newsz, a, k). 2 ^ 32 - unat a)")
    (auto simp: not_le word_less_nat_alt intro!: diff_less_mono2)

definition allocuvm :: "u32 \<Rightarrow> kmem \<Rightarrow> u32 \<Rightarrow> u32 \<Rightarrow> u32 \<Rightarrow> (u32 \<times> kmem) res" where
  "allocuvm kend k pgdir oldsz newsz =
     (if newsz \<ge> KERNBASE then Ok (0, k)
      else if newsz < oldsz then Ok (oldsz, k)
      else allocuvm_loop kend pgdir oldsz newsz (PGROUNDUP oldsz) k)"

definition clearpteu :: "kmem \<Rightarrow> u32 \<Rightarrow> u32 \<Rightarrow> kmem res" where
  "clearpteu k pgdir uva =
     (let (pte, k) = walkpgdir k pgdir uva False in
      if pte = 0 then Panic ''clearpteu''
      else Ok (k\<lparr>memory := store32 (memory k) pte (load32 (memory k) pte AND NOT PTE_U)\<rparr>))"

function copyuvm_loop :: "u32 \<Rightarrow> u32 \<Rightarrow> u32 \<Rightarrow> u32 \<Rightarrow> u32 \<Rightarrow> kmem \<Rightarrow> (u32 \<times> kmem) res" where
  "copyuvm_loop kend pgdir d sz i k =
     (if i < sz then
        let (pte, k) = walkpgdir k pgdir i False; e = load32 (memory k) pte in
        if pte = 0 then Panic ''copyuvm: pte should exist''
        else if e AND PTE_P = 0 then Panic ''copyuvm: page not present''
        else let (mm, k) = kalloc k in
             if mm = 0 then bindr (freevm kend k d) (\<lambda>k. Ok (0, k))
             else bindr (mappages (k\<lparr>memory := memmove (memory k) mm (P2V (PTE_ADDR e)) PGSIZE\<rparr>) d i PGSIZE (V2P mm) (PTE_FLAGS e)) (\<lambda>(ok, k).
                  if \<not> ok then bindr (freevm kend k d) (\<lambda>k. Ok (0, k))
                  else if i + PGSIZE \<le> i then Undef ''address wraps around''
                  else copyuvm_loop kend pgdir d sz (i + PGSIZE) k)
      else Ok (d, k))"
  by pat_completeness auto
termination
  by (relation "measure (\<lambda>(kend, pgdir, d, sz, i, k). 2 ^ 32 - unat i)")
    (auto simp: not_le word_less_nat_alt intro!: diff_less_mono2)

definition copyuvm :: "u32 \<Rightarrow> u32 \<Rightarrow> kmem \<Rightarrow> u32 \<Rightarrow> u32 \<Rightarrow> (u32 \<times> kmem) res" where
  "copyuvm kend kdata k pgdir sz =
     bindr (setupkvm kend kdata k) (\<lambda>(d, k). if d = 0 then Ok (0, k) else copyuvm_loop kend pgdir d sz 0 k)"

definition uva2ka :: "kmem \<Rightarrow> u32 \<Rightarrow> u32 \<Rightarrow> u32 res" where
  "uva2ka k pgdir uva =
     (let (pte, k) = walkpgdir k pgdir uva False; e = load32 (memory k) pte in
      if pte = 0 then Undef ''null''
      else if e AND PTE_P = 0 then Ok 0
      else if e AND PTE_U = 0 then Ok 0
      else Ok (P2V (PTE_ADDR e)))"

text \<open>The bytes left in the page of \<open>va\<close>.\<close>

definition page_room :: "u32 \<Rightarrow> nat" where
  "page_room va = unat (PGSIZE - (va - PGROUNDDOWN va))"

lemma page_room: "page_room va = 4096 - unat va mod 4096"
proof -
  have "va - PGROUNDDOWN va = take_bit 12 va" by (simp add: PGROUNDDOWN_eq)
  moreover have "take_bit 12 va \<le> PGSIZE" by (simp add: word_le_nat_alt unat_take_bit12 order.strict_implies_order)
  ultimately show ?thesis by (simp add: page_room_def unat_sub unat_take_bit12)
qed

lemma page_room_pos: "0 < page_room va"
  by (simp add: page_room)

function copyout :: "kmem \<Rightarrow> u32 \<Rightarrow> u32 \<Rightarrow> u8 list \<Rightarrow> (bool \<times> kmem) res" where
  "copyout k pgdir va p =
     (if p = [] then Ok (True, k)
      else let va0 = PGROUNDDOWN va in
           bindr (uva2ka k pgdir va0) (\<lambda>pa0.
           if pa0 = 0 then Ok (False, k)
           else let n = min (page_room va) (length p) in
                copyout (k\<lparr>memory := store_bytes (memory k) (pa0 + (va - va0)) (take n p)\<rparr>) pgdir (va0 + PGSIZE) (drop n p)))"
  by pat_completeness auto
termination
  by (relation "measure (\<lambda>(k, pgdir, va, p). length p)") (auto simp: page_room_pos)

declare deallocuvm_loop.simps [simp del] allocuvm_loop.simps [simp del] copyuvm_loop.simps [simp del] copyout.simps [simp del]

end
