(* ===== verification/Segment.thy ===== *)
theory Segment
  imports Mmu
begin

text \<open>
  Segments, the task state and the interrupt gates: the bit-field structures of \<open>mmu.h\<close>, the
  segment routines of \<open>vm.c\<close> and the interrupt table of \<open>trap.c\<close>.  A bit field of width \<open>w\<close> is a
  word of that width, so storing into one truncates as in C.  \<open>vectors\<close> is the table of entry
  points that \<open>vectors.S\<close> holds.
\<close>

unbundle bit_operations_syntax

section \<open>Definitions\<close>

record segdesc =
  lim_15_0 :: "16 word"
  base_15_0 :: "16 word"
  base_23_16 :: "8 word"
  sd_type :: "4 word"
  sd_s :: "1 word"
  sd_dpl :: "2 word"
  sd_p :: "1 word"
  lim_19_16 :: "4 word"
  avl :: "1 word"
  sd_rsv1 :: "1 word"
  db :: "1 word"
  g :: "1 word"
  base_31_24 :: "8 word"

definition SEG :: "u32 \<Rightarrow> u32 \<Rightarrow> u32 \<Rightarrow> u32 \<Rightarrow> segdesc" where
  "SEG ty base lim dpl =
     \<lparr>lim_15_0 = ucast (drop_bit 12 lim AND 0xffff), base_15_0 = ucast (base AND 0xffff),
      base_23_16 = ucast (drop_bit 16 base AND 0xff), sd_type = ucast ty, sd_s = 1,
      sd_dpl = ucast dpl, sd_p = 1, lim_19_16 = ucast (drop_bit 28 lim), avl = 0, sd_rsv1 = 0,
      db = 1, g = 1, base_31_24 = ucast (drop_bit 24 base)\<rparr>"

definition SEG16 :: "u32 \<Rightarrow> u32 \<Rightarrow> u32 \<Rightarrow> u32 \<Rightarrow> segdesc" where
  "SEG16 ty base lim dpl =
     \<lparr>lim_15_0 = ucast (lim AND 0xffff), base_15_0 = ucast (base AND 0xffff),
      base_23_16 = ucast (drop_bit 16 base AND 0xff), sd_type = ucast ty, sd_s = 1,
      sd_dpl = ucast dpl, sd_p = 1, lim_19_16 = ucast (drop_bit 16 lim), avl = 0, sd_rsv1 = 0,
      db = 1, g = 0, base_31_24 = ucast (drop_bit 24 base)\<rparr>"

record gatedesc =
  off_15_0 :: "16 word"
  gd_cs :: "16 word"
  args :: "5 word"
  gd_rsv1 :: "3 word"
  gd_type :: "4 word"
  gd_s :: "1 word"
  gd_dpl :: "2 word"
  gd_p :: "1 word"
  off_31_16 :: "16 word"

definition SETGATE :: "bool \<Rightarrow> u32 \<Rightarrow> u32 \<Rightarrow> u32 \<Rightarrow> gatedesc" where
  "SETGATE istrap sel offs d =
     \<lparr>off_15_0 = ucast (offs AND 0xffff), gd_cs = ucast sel, args = 0, gd_rsv1 = 0,
      gd_type = (if istrap then 0xF else 0xE), gd_s = 0, gd_dpl = ucast d, gd_p = 1,
      off_31_16 = ucast (drop_bit 16 offs)\<rparr>"

text \<open>
  What \<open>seginit\<close>, \<open>switchuvm\<close> and \<open>switchkvm\<close> change of a processor: its descriptor table, the
  three fields of its task state that are used, the task register and the page table register.
  \<open>ts_addr\<close> is the address of the task state, which is 104 bytes long.
\<close>

record segcpu =
  gdt :: "segdesc list"
  ts_ss0 :: u16
  ts_esp0 :: u32
  ts_iomb :: u16
  ts_addr :: u32
  task_reg :: u16
  cr3 :: u32

definition seginit :: "segcpu \<Rightarrow> segcpu" where
  "seginit c =
     c\<lparr>gdt := (gdt c)[1 := SEG (0x8 OR 0x2) 0 0xffffffff 0, 2 := SEG 0x2 0 0xffffffff 0,
                      3 := SEG (0x8 OR 0x2) 0 0xffffffff 3, 4 := SEG 0x2 0 0xffffffff 3]\<rparr>"

definition switchkvm :: "u32 \<Rightarrow> segcpu \<Rightarrow> segcpu" where
  "switchkvm kpgdir c = c\<lparr>cr3 := V2P kpgdir\<rparr>"

text \<open>\<open>switchuvm\<close> on a process, given as its kernel stack and page directory.\<close>

definition switchuvm :: "u32 \<Rightarrow> u32 \<Rightarrow> segcpu \<Rightarrow> segcpu res" where
  "switchuvm kstack pgdir c =
     (if kstack = 0 then Panic ''switchuvm: no kstack''
      else if pgdir = 0 then Panic ''switchuvm: no pgdir''
      else Ok (c\<lparr>gdt := (gdt c)[5 := (SEG16 0x9 (ts_addr c) (104 - 1) 0)\<lparr>sd_s := 0\<rparr>],
                 ts_ss0 := push_bit 3 2, ts_esp0 := kstack + 4096, ts_iomb := 0xFFFF,
                 task_reg := push_bit 3 5, cr3 := V2P pgdir\<rparr>))"

definition tvinit :: "(nat \<Rightarrow> u32) \<Rightarrow> gatedesc list" where
  "tvinit vectors =
     (map (\<lambda>i. SETGATE False (push_bit 3 1) (vectors i) 0) [0..<256])
       [64 := SETGATE True (push_bit 3 1) (vectors 64) 3]"

section \<open>What the hardware reads\<close>

definition seg_base :: "segdesc \<Rightarrow> u32" where
  "seg_base d = ucast (base_15_0 d) OR push_bit 16 (ucast (base_23_16 d)) OR push_bit 24 (ucast (base_31_24 d))"

definition seg_limit :: "segdesc \<Rightarrow> u32" where
  "seg_limit d =
     (let lim = ucast (lim_15_0 d) OR push_bit 16 (ucast (lim_19_16 d))
      in if g d = 1 then push_bit 12 lim OR 0xfff else lim)"

definition gate_offset :: "gatedesc \<Rightarrow> u32" where
  "gate_offset d = ucast (off_15_0 d) OR push_bit 16 (ucast (off_31_16 d))"

text \<open>An \<open>int\<close> instruction at privilege \<open>cpl\<close> may use a present gate whose level is no lower.\<close>

definition int_allowed :: "nat \<Rightarrow> gatedesc \<Rightarrow> bool" where
  "int_allowed cpl d \<longleftrightarrow> gd_p d = 1 \<and> cpl \<le> unat (gd_dpl d)"

lemma mask16: "(w :: u32) AND 0xffff = take_bit 16 w"
  by (simp add: take_bit_eq_mask mask_eq_exp_minus_1)

lemma seg_base_SEG: "seg_base (SEG ty base lim dpl) = base" "seg_base (SEG16 ty base lim dpl) = base"
proof -
  have "ucast (ucast (base AND 0xffff) :: 16 word) OR push_bit 16 (ucast (ucast (drop_bit 16 base AND 0xff) :: u8))
      OR push_bit 24 (ucast (ucast (drop_bit 24 base) :: u8)) = base" (is "?l = _")
  proof (rule bit_word_eqI)
    fix n
    assume n: "n < LENGTH(32)"
    consider "n < 16" | "16 \<le> n" "n < 24" | "24 \<le> n" by linarith
    then show "bit ?l n \<longleftrightarrow> bit base n" using n by cases (auto simp: mask16 and_0xFF bit_simps)
  qed
  then show "seg_base (SEG ty base lim dpl) = base" "seg_base (SEG16 ty base lim dpl) = base"
    by (simp_all add: seg_base_def SEG_def SEG16_def)
qed

lemma seg_limit_SEG: "seg_limit (SEG ty base lim dpl) = lim OR 0xfff"
proof -
  have m: "(0xfff :: u32) = mask 12" by (simp add: mask_eq_exp_minus_1)
  have "push_bit 12 (ucast (ucast (drop_bit 12 lim AND 0xffff) :: 16 word)
      OR push_bit 16 (ucast (ucast (drop_bit 28 lim) :: 4 word))) OR 0xfff = lim OR 0xfff"
    unfolding m by (rule bit_word_eqI) (auto simp: mask16 bit_simps)
  then show ?thesis by (simp add: seg_limit_def SEG_def Let_def)
qed

lemma gate_offset_SETGATE: "gate_offset (SETGATE t sel offs d) = offs"
proof -
  have "ucast (ucast (offs AND 0xffff) :: 16 word) OR push_bit 16 (ucast (ucast (drop_bit 16 offs) :: 16 word)) = offs"
    by (rule bit_word_eqI) (auto simp: mask16 bit_simps)
  then show ?thesis by (simp add: gate_offset_def SETGATE_def)
qed

text \<open>C32. The interrupt table the kernel installs has 256 present gates into the kernel code segment, each leading to the
  entry point of its own vector; a user program (privilege 3) can invoke exactly one of them with an \<open>int\<close>
  instruction, the system call gate 64, which is also the only one that leaves interrupts enabled (a trap gate).\<close>

theorem tvinit_gates:
  "length (tvinit vectors) = 256 \<and>
   (\<forall>i<256. gate_offset (tvinit vectors ! i) = vectors i \<and> gd_cs (tvinit vectors ! i) = 8 \<and>
      (int_allowed 3 (tvinit vectors ! i) \<longleftrightarrow> i = 64) \<and> int_allowed 0 (tvinit vectors ! i) \<and>
      (gd_type (tvinit vectors ! i) = 0xF \<longleftrightarrow> i = 64))"
proof (intro conjI allI impI)
  fix i :: nat
  assume "i < 256"
  then have nth: "tvinit vectors ! i = (if i = 64 then SETGATE True 8 (vectors i) 3 else SETGATE False 8 (vectors i) 0)"
    by (simp add: tvinit_def nth_list_update)
  show "gate_offset (tvinit vectors ! i) = vectors i" by (simp add: nth gate_offset_SETGATE)
  show "gd_cs (tvinit vectors ! i) = 8" by (simp add: nth SETGATE_def)
  show "int_allowed 3 (tvinit vectors ! i) \<longleftrightarrow> i = 64" by (simp add: nth SETGATE_def int_allowed_def)
  show "int_allowed 0 (tvinit vectors ! i)" by (simp add: nth SETGATE_def int_allowed_def)
  show "gd_type (tvinit vectors ! i) = 0xF \<longleftrightarrow> i = 64" by (simp add: nth SETGATE_def)
qed (simp add: tvinit_def)

theorem tvinit_gates_witness:
  "int_allowed 3 (tvinit (\<lambda>i. of_nat i) ! 64) \<and> \<not> int_allowed 3 (tvinit (\<lambda>i. of_nat i) ! 32) \<and>
   gate_offset (tvinit (\<lambda>i. of_nat i) ! 32) = 32"
  using conjunct2 [OF tvinit_gates [of "\<lambda>i. of_nat i"], rule_format, of 64]
    conjunct2 [OF tvinit_gates [of "\<lambda>i. of_nat i"], rule_format, of 32] by simp

end
