(* ===== verification/Proc.thy ===== *)
theory Proc
  imports File Vm Segment
begin

text \<open>
  Processes, \<open>proc.c\<close> and \<open>proc.h\<close>.  The first part works on the process table alone: what
  \<open>allocproc\<close>, \<open>exit\<close>, \<open>wait\<close>, \<open>sleep\<close>, \<open>wakeup\<close>, \<open>kill\<close> and \<open>scheduler\<close> do to it while they hold its lock.
  The second part composes these with memory, files and inodes into the functions of the source.
  A pointer to a process is its index.  Of the process that runs, the descriptors, the current
  directory, the process identifier and the \<open>killed\<close> flag are held in the state, where the calls on
  files use them; \<open>scheduler\<close> moves them between there and the table.  A sleep is \<open>Blocks\<close>.
\<close>

unbundle bit_operations_syntax

section \<open>Definitions\<close>

abbreviation NPROC :: nat where "NPROC \<equiv> 64"

datatype procstate = UNUSED | EMBRYO | SLEEPING | RUNNABLE | RUNNING | ZOMBIE

text \<open>What a process can sleep on: an address, of which those of processes and of \<open>ticks\<close> matter here.\<close>

datatype chan = No_chan | Proc_chan nat | Ticks_chan | Other_chan u32

record proc =
  p_sz :: u32
  p_pgdir :: u32
  p_kstack :: u32
  p_state :: procstate
  p_pid :: int
  p_parent :: "nat option"
  p_tf :: u32
  p_context :: u32
  p_chan :: chan
  p_killed :: bool
  p_ofile :: "nat option list"
  p_cwd :: "nat option"
  p_name :: "u8 list"

type_synonym ptab = "nat \<Rightarrow> proc"

definition upd_proc :: "ptab \<Rightarrow> nat \<Rightarrow> (proc \<Rightarrow> proc) \<Rightarrow> ptab" where
  "upd_proc t i f = t(i := f (t i))"

subsection \<open>The table\<close>

definition find_unused :: "ptab \<Rightarrow> nat option" where
  "find_unused t = List.find (\<lambda>i. p_state (t i) = UNUSED) [0..<NPROC]"

text \<open>The part of \<open>allocproc\<close> under the lock: the slot, and the table with the slot taken.\<close>

definition take_slot :: "ptab \<Rightarrow> int \<Rightarrow> (nat \<times> ptab) option" where
  "take_slot t nextpid =
     map_option (\<lambda>i. (i, upd_proc t i (\<lambda>p. p\<lparr>p_state := EMBRYO, p_pid := nextpid\<rparr>))) (find_unused t)"

definition proc_chan :: "nat option \<Rightarrow> chan" where
  "proc_chan p = (case p of None \<Rightarrow> No_chan | Some i \<Rightarrow> Proc_chan i)"

definition wakeup1 :: "chan \<Rightarrow> ptab \<Rightarrow> ptab" where
  "wakeup1 ch t =
     (\<lambda>i. if i < NPROC \<and> p_state (t i) = SLEEPING \<and> p_chan (t i) = ch
          then (t i)\<lparr>p_state := RUNNABLE\<rparr> else t i)"

definition abandon :: "nat \<Rightarrow> nat option \<Rightarrow> nat \<Rightarrow> ptab \<Rightarrow> ptab" where
  "abandon cur init i t =
     (if p_parent (t i) = Some cur
      then let t = upd_proc t i (\<lambda>p. p\<lparr>p_parent := init\<rparr>)
           in if p_state (t i) = ZOMBIE then wakeup1 (proc_chan init) t else t
      else t)"

text \<open>The part of \<open>exit\<close> under the lock, up to \<open>sched\<close>.\<close>

definition exit_table :: "nat \<Rightarrow> nat option \<Rightarrow> ptab \<Rightarrow> ptab" where
  "exit_table cur init t =
     (let t = wakeup1 (proc_chan (p_parent (t cur))) t;
          t = fold (abandon cur init) [0..<NPROC] t
      in upd_proc t cur (\<lambda>p. p\<lparr>p_state := ZOMBIE\<rparr>))"

definition child_of :: "ptab \<Rightarrow> nat \<Rightarrow> nat \<Rightarrow> bool" where
  "child_of t cur i \<longleftrightarrow> p_parent (t i) = Some cur"

text \<open>One scan of \<open>wait\<close>: the first child that has exited, and whether there are children.\<close>

definition wait_scan :: "nat \<Rightarrow> ptab \<Rightarrow> nat option \<times> bool" where
  "wait_scan cur t =
     (List.find (\<lambda>i. child_of t cur i \<and> p_state (t i) = ZOMBIE) [0..<NPROC],
      list_ex (child_of t cur) [0..<NPROC])"

definition reap :: "nat \<Rightarrow> ptab \<Rightarrow> ptab" where
  "reap i t = upd_proc t i (\<lambda>p. p\<lparr>p_kstack := 0, p_pid := 0, p_parent := None, p_name := (p_name p)[0 := 0],
     p_killed := False, p_state := UNUSED\<rparr>)"

definition sleep_table :: "nat \<Rightarrow> chan \<Rightarrow> ptab \<Rightarrow> ptab" where
  "sleep_table cur ch t = upd_proc t cur (\<lambda>p. p\<lparr>p_chan := ch, p_state := SLEEPING\<rparr>)"

text \<open>\<open>kill\<close>: the slot is the first one with that identifier.\<close>

definition kill :: "int \<Rightarrow> ptab \<Rightarrow> int \<times> ptab" where
  "kill pid t =
     (case List.find (\<lambda>i. p_pid (t i) = pid) [0..<NPROC] of
        Some i \<Rightarrow> (0, upd_proc t i (\<lambda>p. p\<lparr>p_killed := True,
                         p_state := (if p_state p = SLEEPING then RUNNABLE else p_state p)\<rparr>))
      | None \<Rightarrow> (-1, t))"

text \<open>
  The scheduler's scan: the next process to run when the loop variable is at \<open>pos\<close>.  At the end of
  the table the outer loop starts the scan again; \<open>None\<close> is a round that finds nothing to run.
\<close>

definition next_proc :: "ptab \<Rightarrow> nat \<Rightarrow> nat option" where
  "next_proc t pos =
     (case List.find (\<lambda>i. p_state (t i) = RUNNABLE) [pos..<NPROC] of
        Some i \<Rightarrow> Some i
      | None \<Rightarrow> List.find (\<lambda>i. p_state (t i) = RUNNABLE) [0..<NPROC])"

subsection \<open>The kernel state\<close>

record kstate = filestate +
  ptable :: ptab
  nextpid :: int
  initproc :: "nat option"
  curproc :: "nat option"
  segs :: segcpu
  kpgdir :: u32
  ticks :: u32
  first_run :: bool

text \<open>Addresses the linker provides, and the image of the first program.\<close>

record symbols =
  sy_trapret :: u32
  sy_forkret :: u32
  sy_data :: u32
  sy_initcode :: "u8 list"

definition allocproc :: "symbols \<Rightarrow> 'a kstate_scheme \<Rightarrow> (nat option \<times> 'a kstate_scheme) res" where
  "allocproc sy st =
     (case take_slot (ptable st) (nextpid st) of
        None \<Rightarrow> Ok (None, st)
      | Some (i, t) \<Rightarrow>
          if nextpid st = 2147483647 then Undef ''overflow''
          else
            let st = st\<lparr>ptable := t, nextpid := nextpid st + 1\<rparr>;
                (ks, k) = kalloc (pages st);
                st = st\<lparr>pages := k, ptable := upd_proc (ptable st) i (\<lambda>p. p\<lparr>p_kstack := ks\<rparr>)\<rparr>
            in if ks = 0
               then Ok (None, st\<lparr>ptable := upd_proc (ptable st) i (\<lambda>p. p\<lparr>p_state := UNUSED\<rparr>)\<rparr>)
               else
                 let tf = ks + 4096 - 76;
                     ctx = tf - 4 - 20;
                     m = store32 (memory k) (tf - 4) (sy_trapret sy);
                     m = memset m ctx 0 20;
                     m = store32 m (ctx + 16) (sy_forkret sy)
                 in Ok (Some i, st\<lparr>pages := k\<lparr>memory := m\<rparr>,
                      ptable := upd_proc (ptable st) i (\<lambda>p. p\<lparr>p_tf := tf, p_context := ctx\<rparr>)\<rparr>))"

text \<open>\<open>safestrcpy\<close> on the 16 bytes of \<open>name\<close>.\<close>

definition copy_name :: "u8 list \<Rightarrow> u8 list \<Rightarrow> u8 list" where
  "copy_name old src =
     (let xs = takeWhile (\<lambda>c. c \<noteq> 0) src;
          bs = (if length xs < 15 then xs @ [0, 0] else take 15 xs @ [0])
      in take 16 (bs @ drop (length bs) old))"

text \<open>The trap frame of the first process: \<open>store16\<close> writes the selectors.\<close>

definition store_u16 :: "mem \<Rightarrow> u32 \<Rightarrow> u16 \<Rightarrow> mem" where
  "store_u16 m a w = store_bytes m a (le16 w)"

definition first_frame :: "mem \<Rightarrow> u32 \<Rightarrow> mem" where
  "first_frame m tf =
     (let m = memset m tf 0 76;
          ds = push_bit 3 4 OR 3;
          m = store_u16 m (tf + 60) (push_bit 3 3 OR 3);
          m = store_u16 m (tf + 44) ds;
          m = store_u16 m (tf + 40) ds;
          m = store_u16 m (tf + 72) ds;
          m = store32 m (tf + 64) 0x200;
          m = store32 m (tf + 68) PGSIZE
      in store32 m (tf + 56) 0)"

definition userinit :: "symbols \<Rightarrow> 'a kstate_scheme \<Rightarrow> 'a kstate_scheme res" where
  "userinit sy st =
     bindr (allocproc sy st) (\<lambda>(r, st).
       case r of
         None \<Rightarrow> Undef ''null''
       | Some i \<Rightarrow>
           let st = st\<lparr>initproc := Some i\<rparr> in
           bindr (setupkvm (kern_end st) (sy_data sy) (pages st)) (\<lambda>(d, k).
           if d = 0 then Panic ''userinit: out of memory?''
           else
           bindr (inituvm k d (sy_initcode sy)) (\<lambda>k.
           let m = first_frame (memory k) (p_tf (ptable st i));
               st = st\<lparr>pages := k\<lparr>memory := m\<rparr>,
                       ptable := upd_proc (ptable st) i (\<lambda>p. p\<lparr>p_pgdir := d, p_sz := PGSIZE,
                         p_name := copy_name (p_name p) (ascii ''initcode'')\<rparr>)\<rparr> in
           bindr (namei st (ascii ''/'')) (\<lambda>(c, st).
           Ok (st\<lparr>ptable := upd_proc (ptable st) i (\<lambda>p. p\<lparr>p_cwd := c, p_state := RUNNABLE\<rparr>)\<rparr>)))))"

definition with_cur :: "'a kstate_scheme \<Rightarrow> (nat \<Rightarrow> 'b res) \<Rightarrow> 'b res" where
  "with_cur st f = (case curproc st of None \<Rightarrow> Undef ''null'' | Some i \<Rightarrow> f i)"

definition switch_to :: "nat \<Rightarrow> 'a kstate_scheme \<Rightarrow> 'a kstate_scheme res" where
  "switch_to i st =
     bindr (switchuvm (p_kstack (ptable st i)) (p_pgdir (ptable st i)) (segs st)) (\<lambda>c. Ok (st\<lparr>segs := c\<rparr>))"

definition growproc :: "int \<Rightarrow> 'a kstate_scheme \<Rightarrow> (int \<times> 'a kstate_scheme) res" where
  "growproc n st =
     with_cur st (\<lambda>cur.
       let p = ptable st cur;
           done = (\<lambda>(sz, k).
             let st = st\<lparr>pages := k\<rparr>
             in if n \<noteq> 0 \<and> sz = 0 then Ok (-1, st)
                else bindr (switch_to cur (st\<lparr>ptable := upd_proc (ptable st) cur (\<lambda>p. p\<lparr>p_sz := sz\<rparr>)\<rparr>)) (\<lambda>st. Ok (0, st)))
       in if n > 0 then bindr (allocuvm (kern_end st) (pages st) (p_pgdir p) (p_sz p) (p_sz p + of_int n)) done
          else if n < 0 then bindr (deallocuvm (kern_end st) (pages st) (p_pgdir p) (p_sz p) (p_sz p + of_int n)) done
          else done (p_sz p, pages st))"

definition dup_file :: "nat \<Rightarrow> nat \<Rightarrow> 'a kstate_scheme \<Rightarrow> 'a kstate_scheme res" where
  "dup_file np i st =
     (case ofile st ! i of
        None \<Rightarrow> Ok st
      | Some f \<Rightarrow> bindr (filedup st f) (\<lambda>st.
          Ok (st\<lparr>ptable := upd_proc (ptable st) np (\<lambda>p. p\<lparr>p_ofile := (p_ofile p)[i := Some f]\<rparr>)\<rparr>)))"

definition fork :: "symbols \<Rightarrow> 'a kstate_scheme \<Rightarrow> (int \<times> 'a kstate_scheme) res" where
  "fork sy st =
     with_cur st (\<lambda>cur.
     bindr (allocproc sy st) (\<lambda>(r, st).
       case r of
         None \<Rightarrow> Ok (-1, st)
       | Some np \<Rightarrow>
           let p = ptable st cur in
           bindr (copyuvm (kern_end st) (sy_data sy) (pages st) (p_pgdir p) (p_sz p)) (\<lambda>(d, k).
           if d = 0
           then bindr (kfree (kern_end st) k (p_kstack (ptable st np))) (\<lambda>k.
                Ok (-1, st\<lparr>pages := k, ptable := upd_proc (ptable st) np (\<lambda>q. q\<lparr>p_pgdir := 0, p_kstack := 0, p_state := UNUSED\<rparr>)\<rparr>))
           else
             let tf = p_tf (ptable st np);
                 m = store_bytes (memory k) tf (load_bytes (memory k) (p_tf p) 76);
                 m = store32 m (tf + 28) 0;
                 st = st\<lparr>pages := k\<lparr>memory := m\<rparr>,
                         ptable := upd_proc (ptable st) np (\<lambda>q. q\<lparr>p_pgdir := d, p_sz := p_sz p, p_parent := Some cur\<rparr>)\<rparr> in
             bindr (for_each (dup_file np) [0..<NOFILE] st) (\<lambda>st.
             let st = idup st (cwd st);
                 st = st\<lparr>ptable := upd_proc (ptable st) np (\<lambda>q. q\<lparr>p_cwd := Some (cwd st),
                           p_name := copy_name (p_name q) (p_name p), p_state := RUNNABLE\<rparr>)\<rparr>
             in Ok (p_pid (ptable st np), st)))))"

definition close_fd :: "nat \<Rightarrow> 'a kstate_scheme \<Rightarrow> 'a kstate_scheme res" where
  "close_fd fd st =
     (case ofile st ! fd of
        None \<Rightarrow> Ok st
      | Some f \<Rightarrow> bindr (fileclose st f) (\<lambda>st. Ok (st\<lparr>ofile := (ofile st)[fd := None]\<rparr>)))"

text \<open>\<open>exit\<close> up to the call of \<open>sched\<close>, from which it does not return.\<close>

definition exit :: "'a kstate_scheme \<Rightarrow> 'a kstate_scheme res" where
  "exit st =
     with_cur st (\<lambda>cur.
       if Some cur = initproc st then Panic ''init exiting''
       else
         bindr (for_each close_fd [0..<NOFILE] st) (\<lambda>st.
         bindr (begin_op st) (\<lambda>st.
         bindr (iput st (cwd st)) (\<lambda>st.
         bindr (end_op st) (\<lambda>st.
         let t = upd_proc (ptable st) cur (\<lambda>p. p\<lparr>p_cwd := None, p_ofile := ofile st, p_killed := killed st\<rparr>)
         in Ok (st\<lparr>ptable := exit_table cur (initproc st) t\<rparr>))))))"

definition wait :: "'a kstate_scheme \<Rightarrow> (int \<times> 'a kstate_scheme) res" where
  "wait st =
     with_cur st (\<lambda>cur.
       case wait_scan cur (ptable st) of
         (Some i, _) \<Rightarrow>
           let p = ptable st i in
           bindr (kfree (kern_end st) (pages st) (p_kstack p)) (\<lambda>k.
           bindr (freevm (kern_end st) k (p_pgdir p)) (\<lambda>k.
           Ok (p_pid p, st\<lparr>pages := k, ptable := reap i (ptable st)\<rparr>)))
       | (None, havekids) \<Rightarrow>
           if \<not> havekids \<or> killed st then Ok (-1, st) else Blocks ''wait'')"

subsection \<open>Switching\<close>

text \<open>The checks of \<open>sched\<close> before it switches: whether the table's lock is held, the depth of
  \<open>pushcli\<close>, the state of the process, and whether interrupts are on.\<close>

definition sched :: "bool \<Rightarrow> int \<Rightarrow> procstate \<Rightarrow> bool \<Rightarrow> unit res" where
  "sched has_lk ncli s intr =
     (if \<not> has_lk then Panic ''sched ptable.lock''
      else if ncli \<noteq> 1 then Panic ''sched locks''
      else if s = RUNNING then Panic ''sched running''
      else if intr then Panic ''sched interruptible''
      else Ok ())"

text \<open>What the processor holds of the running process goes back to the table.\<close>

definition save_proc :: "nat \<Rightarrow> 'a kstate_scheme \<Rightarrow> 'a kstate_scheme" where
  "save_proc i st =
     st\<lparr>ptable := upd_proc (ptable st) i (\<lambda>p. p\<lparr>p_killed := killed st, p_ofile := ofile st, p_cwd := Some (cwd st)\<rparr>)\<rparr>"

definition yield :: "'a kstate_scheme \<Rightarrow> 'a kstate_scheme res" where
  "yield st =
     with_cur st (\<lambda>cur.
       let st = save_proc cur st;
           st = st\<lparr>ptable := upd_proc (ptable st) cur (\<lambda>p. p\<lparr>p_state := RUNNABLE\<rparr>)\<rparr>
       in bindr (sched True 1 (p_state (ptable st cur)) False) (\<lambda>_. Ok st))"

text \<open>\<open>sleep\<close> up to the switch; \<open>has_lock\<close> tells whether the caller passed a lock.\<close>

definition sleep :: "chan \<Rightarrow> bool \<Rightarrow> 'a kstate_scheme \<Rightarrow> 'a kstate_scheme res" where
  "sleep ch has_lock st =
     (case curproc st of
        None \<Rightarrow> Panic ''sleep''
      | Some cur \<Rightarrow>
          if \<not> has_lock then Panic ''sleep without lk''
          else
            let st = save_proc cur st;
                st = st\<lparr>ptable := sleep_table cur ch (ptable st)\<rparr>
            in bindr (sched True 1 (p_state (ptable st cur)) False) (\<lambda>_. Ok st))"

definition wakeup :: "chan \<Rightarrow> 'a kstate_scheme \<Rightarrow> 'a kstate_scheme" where
  "wakeup ch st = st\<lparr>ptable := wakeup1 ch (ptable st)\<rparr>"

text \<open>One turn of the scheduler: the process it switches to, or \<open>None\<close> when a round finds none.  The
  process finds its own files, directory and flag, and a \<open>sleep\<close> it returns from clears its channel.\<close>

definition scheduler :: "nat \<Rightarrow> 'a kstate_scheme \<Rightarrow> (nat option \<times> 'a kstate_scheme) res" where
  "scheduler pos st =
     (case next_proc (ptable st) pos of
        None \<Rightarrow> Ok (None, st\<lparr>curproc := None\<rparr>)
      | Some i \<Rightarrow>
          bindr (switch_to i (st\<lparr>curproc := Some i\<rparr>)) (\<lambda>st.
          let p = ptable st i in
          Ok (Some i, st\<lparr>ptable := upd_proc (ptable st) i (\<lambda>p. p\<lparr>p_state := RUNNING, p_chan := No_chan\<rparr>),
                mypid := of_int (p_pid p), killed := p_killed p, ofile := p_ofile p,
                cwd := (case p_cwd p of Some c \<Rightarrow> c | None \<Rightarrow> cwd st)\<rparr>)))"

definition switch_back :: "'a kstate_scheme \<Rightarrow> 'a kstate_scheme" where
  "switch_back st = st\<lparr>segs := switchkvm (kpgdir st) (segs st), curproc := None\<rparr>"

definition forkret :: "u32 \<Rightarrow> 'a kstate_scheme \<Rightarrow> 'a kstate_scheme res" where
  "forkret rootdev st =
     (if first_run st
      then bindr (iinit (st\<lparr>first_run := False\<rparr>) rootdev) (\<lambda>st. initlog st rootdev)
      else Ok st)"

definition kvmalloc :: "symbols \<Rightarrow> 'a kstate_scheme \<Rightarrow> 'a kstate_scheme res" where
  "kvmalloc sy st =
     bindr (setupkvm (kern_end st) (sy_data sy) (pages st)) (\<lambda>(d, k).
       let st = st\<lparr>pages := k, kpgdir := d\<rparr> in Ok (st\<lparr>segs := switchkvm d (segs st)\<rparr>))"

end
