(* ===== verification/Exec.thy ===== *)
theory Exec
  imports Proc Sysfile
begin

text \<open>
  Loading a program: the headers of \<open>elf.h\<close>, \<open>loaduvm\<close> of \<open>vm.c\<close>, \<open>exec.c\<close> and \<open>sys_exec\<close>.  A jump to
  \<open>bad\<close> is the value \<open>None\<close> of the part that jumps; what it has to undo is in the state it returns.
  The arguments are the strings that \<open>argv\<close> points to, without their NUL.
\<close>

unbundle bit_operations_syntax

section \<open>Definitions\<close>

record elfhdr =
  e_magic :: u32
  e_entry :: u32
  e_phoff :: u32
  e_phnum :: u16

record proghdr =
  ph_type :: u32
  ph_off :: u32
  ph_vaddr :: u32
  ph_paddr :: u32
  ph_filesz :: u32
  ph_memsz :: u32
  ph_flags :: u32
  ph_align :: u32

text \<open>The fields that are used of the 52 bytes of a file header, and the 32 bytes of a program header.\<close>

definition elfhdr_of :: "u8 list \<Rightarrow> elfhdr" where
  "elfhdr_of b = \<lparr>e_magic = get32 b 0, e_entry = get32 b 24, e_phoff = get32 b 28, e_phnum = join16 (b ! 44) (b ! 45)\<rparr>"

definition proghdr_of :: "u8 list \<Rightarrow> proghdr" where
  "proghdr_of b =
     \<lparr>ph_type = get32 b 0, ph_off = get32 b 4, ph_vaddr = get32 b 8, ph_paddr = get32 b 12, ph_filesz = get32 b 16,
      ph_memsz = get32 b 20, ph_flags = get32 b 24, ph_align = get32 b 28\<rparr>"

text \<open>A read into a buffer of the kernel: the value \<open>readi\<close> returns and the bytes.\<close>

definition read_kernel ::
  "(nat \<Rightarrow> int \<Rightarrow> u8 list option) \<Rightarrow> 'a kstate_scheme \<Rightarrow> nat \<Rightarrow> u32 \<Rightarrow> u32 \<Rightarrow> (int \<times> u8 list \<times> 'a kstate_scheme) res" where
  "read_kernel dr st ip pos n =
     bindr (readi st ip pos n) (\<lambda>(r, st). let (rv, xs) = io_result dr (uint n) r in Ok (rv, xs, st))"

function loaduvm_loop ::
  "(nat \<Rightarrow> int \<Rightarrow> u8 list option) \<Rightarrow> u32 \<Rightarrow> u32 \<Rightarrow> nat \<Rightarrow> u32 \<Rightarrow> u32 \<Rightarrow> u32 \<Rightarrow> 'a kstate_scheme \<Rightarrow> (bool \<times> 'a kstate_scheme) res" where
  "loaduvm_loop dr pgdir addr ip offset sz i st =
     (if i < sz then
        let (pte, k) = walkpgdir (pages st) pgdir (addr + i) False in
        if pte = 0 then Panic ''loaduvm: address should exist''
        else let pa = PTE_ADDR (load32 (memory k) pte);
                 n = (if sz - i < PGSIZE then sz - i else PGSIZE) in
             bindr (read_kernel dr st ip (offset + i) n) (\<lambda>(r, xs, st).
             let st = st\<lparr>pages := (pages st)\<lparr>memory := store_bytes (memory (pages st)) (P2V pa) xs\<rparr>\<rparr> in
             if r \<noteq> uint n then Ok (False, st)
             else if i + PGSIZE \<le> i then Undef ''address wraps around''
             else loaduvm_loop dr pgdir addr ip offset sz (i + PGSIZE) st)
      else Ok (True, st))"
  by pat_completeness auto
termination
  by (relation "measure (\<lambda>(dr, pgdir, addr, ip, offset, sz, i, st). 2 ^ 32 - unat i)")
    (auto simp: not_le word_less_nat_alt intro!: diff_less_mono2)

definition loaduvm ::
  "(nat \<Rightarrow> int \<Rightarrow> u8 list option) \<Rightarrow> u32 \<Rightarrow> u32 \<Rightarrow> nat \<Rightarrow> u32 \<Rightarrow> u32 \<Rightarrow> 'a kstate_scheme \<Rightarrow> (bool \<times> 'a kstate_scheme) res" where
  "loaduvm dr pgdir addr ip offset sz st =
     (if addr mod PGSIZE \<noteq> 0 then Panic ''loaduvm: addr must be page aligned''
      else loaduvm_loop dr pgdir addr ip offset sz 0 st)"

definition load_segment ::
  "(nat \<Rightarrow> int \<Rightarrow> u8 list option) \<Rightarrow> u32 \<Rightarrow> nat \<Rightarrow> proghdr \<Rightarrow> u32 \<Rightarrow> 'a kstate_scheme \<Rightarrow> (u32 option \<times> 'a kstate_scheme) res" where
  "load_segment dr pgdir ip ph sz st =
     (if ph_memsz ph < ph_filesz ph then Ok (None, st)
      else if ph_vaddr ph + ph_memsz ph < ph_vaddr ph then Ok (None, st)
      else bindr (allocuvm (kern_end st) (pages st) pgdir sz (ph_vaddr ph + ph_memsz ph)) (\<lambda>(sz, k).
           let st = st\<lparr>pages := k\<rparr> in
           if sz = 0 then Ok (None, st)
           else if ph_vaddr ph mod PGSIZE \<noteq> 0 then Ok (None, st)
           else bindr (loaduvm dr pgdir (ph_vaddr ph) ip (ph_off ph) (ph_filesz ph) st) (\<lambda>(ok, st).
                Ok (if ok then Some sz else None, st))))"

primrec load_segments ::
  "(nat \<Rightarrow> int \<Rightarrow> u8 list option) \<Rightarrow> u32 \<Rightarrow> nat \<Rightarrow> nat \<Rightarrow> u32 \<Rightarrow> u32 \<Rightarrow> 'a kstate_scheme \<Rightarrow> (u32 option \<times> 'a kstate_scheme) res" where
  "load_segments dr pgdir ip 0 pos sz st = Ok (Some sz, st)"
| "load_segments dr pgdir ip (Suc n) pos sz st =
     bindr (read_kernel dr st ip pos 32) (\<lambda>(r, xs, st).
     if r \<noteq> 32 then Ok (None, st)
     else if ph_type (proghdr_of xs) \<noteq> 1 then load_segments dr pgdir ip n (pos + 32) sz st
     else bindr (load_segment dr pgdir ip (proghdr_of xs) sz st) (\<lambda>(res, st).
          case res of None \<Rightarrow> Ok (None, st) | Some sz \<Rightarrow> load_segments dr pgdir ip n (pos + 32) sz st))"

text \<open>The page directory (0 while there is none), and the size and the entry point once all is loaded.\<close>

definition load_image ::
  "(nat \<Rightarrow> int \<Rightarrow> u8 list option) \<Rightarrow> symbols \<Rightarrow> nat \<Rightarrow> 'a kstate_scheme \<Rightarrow> (u32 \<times> (u32 \<times> u32) option \<times> 'a kstate_scheme) res" where
  "load_image dr sy ip st =
     bindr (read_kernel dr st ip 0 52) (\<lambda>(r, xs, st).
     if r \<noteq> 52 then Ok (0, None, st)
     else if e_magic (elfhdr_of xs) \<noteq> 0x464C457F then Ok (0, None, st)
     else bindr (setupkvm (kern_end st) (sy_data sy) (pages st)) (\<lambda>(pgdir, k).
          let st = st\<lparr>pages := k\<rparr> in
          if pgdir = 0 then Ok (0, None, st)
          else bindr (load_segments dr pgdir ip (unat (e_phnum (elfhdr_of xs))) (e_phoff (elfhdr_of xs)) 0 st) (\<lambda>(res, st).
               Ok (pgdir, map_option (\<lambda>sz. (sz, e_entry (elfhdr_of xs))) res, st))))"

text \<open>The argument strings: the stack pointer and the addresses of the strings.\<close>

fun push_args :: "u32 \<Rightarrow> u8 list list \<Rightarrow> u32 \<Rightarrow> u32 list \<Rightarrow> kmem \<Rightarrow> ((u32 \<times> u32 list) option \<times> kmem) res" where
  "push_args pgdir [] sp addrs k = Ok (Some (sp, addrs), k)"
| "push_args pgdir (a # as) sp addrs k =
     (if length addrs \<ge> 32 then Ok (None, k)
      else let sp = (sp - (of_nat (length a) + 1)) AND NOT 3 in
           bindr (copyout k pgdir sp (a @ [0])) (\<lambda>(ok, k).
           if ok then push_args pgdir as sp (addrs @ [sp]) k else Ok (None, k)))"

definition ustack_words :: "u32 \<Rightarrow> u32 list \<Rightarrow> u32 list" where
  "ustack_words sp addrs =
     (let argc = of_nat (length addrs) in [0xffffffff, argc, sp - (argc + 1) * 4] @ addrs @ [0])"

definition build_stack :: "u32 \<Rightarrow> u8 list list \<Rightarrow> u32 \<Rightarrow> 'a kstate_scheme \<Rightarrow> ((u32 \<times> u32) option \<times> 'a kstate_scheme) res" where
  "build_stack pgdir argv sz st =
     (let sz = PGROUNDUP sz in
      bindr (allocuvm (kern_end st) (pages st) pgdir sz (sz + 2 * PGSIZE)) (\<lambda>(sz, k).
      if sz = 0 then Ok (None, st\<lparr>pages := k\<rparr>)
      else bindr (clearpteu k pgdir (sz - 2 * PGSIZE)) (\<lambda>k.
           bindr (push_args pgdir argv sz [] k) (\<lambda>(res, k).
           case res of
             None \<Rightarrow> Ok (None, st\<lparr>pages := k\<rparr>)
           | Some (sp, addrs) \<Rightarrow>
               let sp' = sp - (3 + of_nat (length addrs) + 1) * 4 in
               bindr (copyout k pgdir sp' (concat (map le32 (ustack_words sp addrs)))) (\<lambda>(ok, k).
               Ok (if ok then Some (sz, sp') else None, st\<lparr>pages := k\<rparr>))))))"

definition base_name :: "u8 list \<Rightarrow> u8 list" where
  "base_name path = rev (takeWhile (\<lambda>c. c \<noteq> 47) (rev path))"

definition commit_image ::
  "u32 \<Rightarrow> u32 \<Rightarrow> u32 \<Rightarrow> u32 \<Rightarrow> u8 list \<Rightarrow> nat \<Rightarrow> 'a kstate_scheme \<Rightarrow> (int \<times> 'a kstate_scheme) res" where
  "commit_image pgdir sz entry_pt sp path cur st =
     (let oldpgdir = p_pgdir (ptable st cur);
          tf = p_tf (ptable st cur);
          st = st\<lparr>ptable := upd_proc (ptable st) cur (\<lambda>p. p\<lparr>p_name := copy_name (p_name p) (base_name path),
                    p_pgdir := pgdir, p_sz := sz\<rparr>),
                  pages := (pages st)\<lparr>memory := store32 (store32 (memory (pages st)) (tf + 56) entry_pt) (tf + 68) sp\<rparr>\<rparr> in
      bindr (switch_to cur st) (\<lambda>st.
      bindr (freevm (kern_end st) (pages st) oldpgdir) (\<lambda>k. Ok (0, st\<lparr>pages := k\<rparr>))))"

definition free_image :: "u32 \<Rightarrow> 'a kstate_scheme \<Rightarrow> 'a kstate_scheme res" where
  "free_image pgdir st =
     (if pgdir = 0 then Ok st
      else bindr (freevm (kern_end st) (pages st) pgdir) (\<lambda>k. Ok (st\<lparr>pages := k\<rparr>)))"

definition close_image :: "nat \<Rightarrow> 'a kstate_scheme \<Rightarrow> 'a kstate_scheme res" where
  "close_image ip st = bindr (iunlockput st ip) end_op"

definition exec ::
  "(nat \<Rightarrow> int \<Rightarrow> u8 list option) \<Rightarrow> symbols \<Rightarrow> u8 list \<Rightarrow> u8 list list \<Rightarrow> 'a kstate_scheme \<Rightarrow> (int \<times> 'a kstate_scheme) res" where
  "exec dr sy path argv st =
     with_cur st (\<lambda>cur.
     bindr (begin_op st) (\<lambda>st.
     bindr (namei st path) (\<lambda>(r, st).
     case r of
       None \<Rightarrow> bindr (end_op st) (\<lambda>st. Ok (-1, st))
     | Some ip \<Rightarrow>
         bindr (ilock st ip) (\<lambda>st.
         bindr (load_image dr sy ip st) (\<lambda>(pgdir, res, st).
         case res of
           None \<Rightarrow> bindr (free_image pgdir st) (\<lambda>st. bindr (close_image ip st) (\<lambda>st. Ok (-1, st)))
         | Some (sz, entry_pt) \<Rightarrow>
             bindr (close_image ip st) (\<lambda>st.
             bindr (build_stack pgdir argv sz st) (\<lambda>(res, st).
             case res of
               None \<Rightarrow> bindr (free_image pgdir st) (\<lambda>st. Ok (-1, st))
             | Some (sz, sp) \<Rightarrow> commit_image pgdir sz entry_pt sp path cur st)))))))"

text \<open>The loop of \<open>sys_exec\<close> over the user's array, which has room for \<open>n\<close> more pointers.\<close>

primrec fetch_args :: "ucontext \<Rightarrow> nat \<Rightarrow> u32 \<Rightarrow> u8 list list option" where
  "fetch_args u 0 a = None"
| "fetch_args u (Suc n) a =
     (case fetchint u a of
        None \<Rightarrow> None
      | Some uarg \<Rightarrow>
          if uarg = 0 then Some []
          else case fetchstr u uarg of
                 None \<Rightarrow> None
               | Some (len, p) \<Rightarrow> map_option ((#) (load_bytes (u_mem u) p len)) (fetch_args u n (a + 4)))"

definition sys_exec ::
  "(nat \<Rightarrow> int \<Rightarrow> u8 list option) \<Rightarrow> symbols \<Rightarrow> ucontext \<Rightarrow> 'a kstate_scheme \<Rightarrow> (int \<times> 'a kstate_scheme) res" where
  "sys_exec dr sy u st =
     (case (argpath u 0, argint u 1) of
        (Some path, Some uargv) \<Rightarrow>
          (case fetch_args u 32 uargv of None \<Rightarrow> Ok (-1, st) | Some argv \<Rightarrow> exec dr sy path argv st)
      | _ \<Rightarrow> Ok (-1, st))"

declare loaduvm_loop.simps [simp del]

end
