(* ===== verification/FsInode.thy ===== *)
theory FsInode
  imports FsBlocks
begin

text \<open>Inodes on disk and the inode cache of \<open>fs.c\<close>.\<close>

section \<open>Inodes in blocks\<close>

lemma length_put_dinode [simp]: "length (put_dinode d k x) = length d"
  by (simp add: put_dinode_def Let_def)

lemma put_dinode_other:
  assumes "length (di_addrs x) = 13" "j < k * 64 \<or> k * 64 + 64 \<le> j"
  shows "put_dinode d k x ! j = d ! j"
  using assms by (auto simp: put_dinode_def Let_def put32s_other put32_other put16_other)

lemma get_put_dinode_other:
  assumes "length (di_addrs x) = 13" "j \<noteq> k"
  shows "get_dinode (put_dinode d k x) j = get_dinode d j"
proof -
  have e: "put_dinode d k x ! (j * 64 + i) = d ! (j * 64 + i)" if "i < 64" for i
  proof -
    have "j * 64 + 64 \<le> k * 64 \<or> k * 64 + 64 \<le> j * 64" using assms(2) by (cases j k rule: linorder_cases) auto
    then show ?thesis using that by (intro put_dinode_other [OF assms(1)]) auto
  qed
  have g16: "get16 (put_dinode d k x) (j * 64 + i) = get16 d (j * 64 + i)" if "i + 2 \<le> 64" for i
    using e [of i] e [of "i + 1"] that by (simp add: get16_def)
  have g32: "get32 (put_dinode d k x) (j * 64 + i) = get32 d (j * 64 + i)" if "i + 4 \<le> 64" for i
    using e [of i] e [of "i + 1"] e [of "i + 2"] e [of "i + 3"] that by (simp add: get32_def add.assoc)
  have "map (\<lambda>i. get32 (put_dinode d k x) (j * 64 + 12 + 4 * i)) [0..<13] = map (\<lambda>i. get32 d (j * 64 + 12 + 4 * i)) [0..<13]"
    using g32 [of "12 + 4 * i" for i] by (intro map_cong refl) (simp add: add.assoc)
  then show ?thesis using g16 [of 0] g16 [of 2] g16 [of 4] g16 [of 6] g32 [of 8]
    by (simp add: get_dinode_def Let_def del: upt_rec_numeral)
qed

lemma get_put_dinode:
  assumes "length (di_addrs x) = 13" "k * 64 + 64 \<le> length d"
  shows "get_dinode (put_dinode d k x) k = x"
proof -
  have "map (\<lambda>i. get32 (put_dinode d k x) (k * 64 + 12 + 4 * i)) [0..<13] = di_addrs x"
  proof (rule nth_equalityI)
    show "length (map (\<lambda>i. get32 (put_dinode d k x) (k * 64 + 12 + 4 * i)) [0..<13]) = length (di_addrs x)"
      by (simp only: length_map length_upt assms(1))
    show "map (\<lambda>i. get32 (put_dinode d k x) (k * 64 + 12 + 4 * i)) [0..<13] ! i = di_addrs x ! i"
      if "i < length (map (\<lambda>i. get32 (put_dinode d k x) (k * 64 + 12 + 4 * i)) [0..<13])" for i
      using that assms by (simp add: put_dinode_def Let_def get32_put32s nth_append del: upt_rec_numeral)
  qed
  moreover have "get16 (put_dinode d k x) (k * 64) = di_type x" "get16 (put_dinode d k x) (k * 64 + 2) = di_major x"
    "get16 (put_dinode d k x) (k * 64 + 4) = di_minor x" "get16 (put_dinode d k x) (k * 64 + 6) = di_nlink x"
    "get32 (put_dinode d k x) (k * 64 + 8) = di_size x"
    using assms
    by (simp_all add: put_dinode_def Let_def get16_put32s_other get32_put32s_other get16_put32_other get16_put16_other
        get32_put16_other)
  ultimately show ?thesis by (simp add: get_dinode_def Let_def del: upt_rec_numeral)
qed

text \<open>The inode with number \<open>inum\<close> as the blocks have it.\<close>

definition disk_inode :: "superblock \<Rightarrow> (u32 \<Rightarrow> block) \<Rightarrow> u32 \<Rightarrow> dinode" where
  "disk_inode s c inum = get_dinode (c (IBLOCK inum s)) (inode_slot inum)"

lemma inode_slot_less: "inode_slot inum < 8"
proof -
  have "unat (inum mod 8) = unat inum mod 8" by (simp add: unat_mod_distrib)
  then show ?thesis by (simp add: inode_slot_def)
qed

lemma inode_home_inj: "IBLOCK i s = IBLOCK j s \<Longrightarrow> inode_slot i = inode_slot j \<Longrightarrow> i = j"
proof -
  assume "IBLOCK i s = IBLOCK j s" "inode_slot i = inode_slot j"
  then have "i div 8 = j div 8" "unat (i mod 8) = unat (j mod 8)" by (simp_all add: IBLOCK_def inode_slot_def)
  moreover from this(2) have "i mod 8 = j mod 8" by (simp add: word_unat_eq_iff)
  ultimately show ?thesis by (metis div_mult_mod_eq)
qed

lemma upd_inode_simps [simp]:
  "bcache_ok (upd_inode st ip f) = bcache_ok st" "slot (upd_inode st ip f) = slot st" "cview (upd_inode st ip f) = cview st"
  "content (upd_inode st ip f) = content st" "held (upd_inode st ip f) = held st" "pinned (upd_inode st ip f) = pinned st"
  "memdisk (upd_inode st ip f) = memdisk st" "disksize (upd_inode st ip f) = disksize st" "bufs (upd_inode st ip f) = bufs st"
  "sb (upd_inode st ip f) = sb st" "mypid (upd_inode st ip f) = mypid st"
  "inodes (upd_inode st ip f) = (inodes st)(ip := f (inodes st ip))"
  using same_cache [of "upd_inode st ip f" st] by (simp_all add: upd_inode_def cview_def)

lemma iupdate_OkD:
  assumes "bcache_ok st" "i_dev (inodes st ip) = 1" "iupdate st ip = Ok st'"
  shows "bcache_ok st'" "fframe st' = fframe st" "held st' = held st"
    "content st' = (content st)(IBLOCK (i_inum (inodes st ip)) (sb st) :=
       put_dinode (content st (IBLOCK (i_inum (inodes st ip)) (sb st))) (inode_slot (i_inum (inodes st ip))) (to_dinode (inodes st ip)))"
proof -
  have m: "modify_block st 1 (IBLOCK (i_inum (inodes st ip)) (sb st))
      (\<lambda>d. put_dinode d (inode_slot (i_inum (inodes st ip))) (to_dinode (inodes st ip))) = Ok st'"
    using assms(2,3) by (simp add: iupdate_def Let_def)
  note r = modify_block_OkD [OF assms(1) m]
  show "bcache_ok st'" "fframe st' = fframe st" by (rule r)+
  show "held st' = held st" using cviewD(3) [OF r(5)] by simp
  show "content st' = (content st)(IBLOCK (i_inum (inodes st ip)) (sb st) :=
       put_dinode (content st (IBLOCK (i_inum (inodes st ip)) (sb st))) (inode_slot (i_inum (inodes st ip))) (to_dinode (inodes st ip)))"
    using cviewD(1) [OF r(5)] by simp
qed

lemma ilock_OkD:
  assumes "bcache_ok st" "i_dev (inodes st ip) = 1" "ilock st ip = Ok st'"
  shows "bcache_ok st'" "cview st' = cview st" "sb st' = sb st" "0 < i_ref (inodes st ip)"
    "\<not> sl_locked (i_lock (inodes st ip))" "sl_locked (i_lock (inodes st' ip))"
    "inodes st' = (inodes st)(ip := inodes st' ip)"
    "if i_valid (inodes st ip) then to_dinode (inodes st' ip) = to_dinode (inodes st ip)
     else to_dinode (inodes st' ip) = disk_inode (sb st) (content st) (i_inum (inodes st ip)) \<and> i_type (inodes st' ip) \<noteq> 0"
proof -
  let ?x = "inodes st ip"
  define lk where "lk = (i_lock ?x)\<lparr>sl_locked := True, sl_pid := mypid st\<rparr>"
  define s0 where "s0 = upd_inode st ip (\<lambda>x. x\<lparr>i_lock := lk\<rparr>)"
  have ref: "\<not> i_ref ?x < 1" and unl: "\<not> sl_locked (i_lock ?x)"
    using assms(3) by (auto simp: ilock_def split: if_splits)
  show "0 < i_ref ?x" "\<not> sl_locked (i_lock ?x)" using ref unl by auto
  have "bcache_ok st' \<and> cview st' = cview st \<and> sb st' = sb st \<and> sl_locked (i_lock (inodes st' ip)) \<and>
      inodes st' = (inodes st)(ip := inodes st' ip) \<and>
      (if i_valid ?x then to_dinode (inodes st' ip) = to_dinode ?x
       else to_dinode (inodes st' ip) = disk_inode (sb st) (content st) (i_inum ?x) \<and> i_type (inodes st' ip) \<noteq> 0)"
  proof (cases "i_valid ?x")
    case True
    then have "st' = s0" using assms(3) ref unl by (simp add: ilock_def Let_def s0_def lk_def)
    then show ?thesis using True assms(1) by (simp add: s0_def lk_def to_dinode_def)
  next
    case False
    let ?n = "IBLOCK (i_inum ?x) (sb st)"
    obtain bp s1 s2 where 1: "bread s0 1 ?n = Ok (bp, s1)" and 2: "brelse s1 bp = Ok s2"
        and t: "i_type (inodes (upd_inode s2 ip (load_dinode (get_dinode (b_data (bufs s1 bp)) (inode_slot (i_inum ?x))))) ip) \<noteq> 0"
        and st': "st' = upd_inode s2 ip (load_dinode (get_dinode (b_data (bufs s1 bp)) (inode_slot (i_inum ?x))))"
      using assms(2,3) ref unl False by (auto simp: ilock_def Let_def s0_def lk_def split: if_splits)
    have ok0: "bcache_ok s0" using assms(1) by (simp add: s0_def)
    note r = bread_OkD [OF ok0 1]
    note v = cviewD [OF r(6)]
    have "?n \<in> held s1" "?n \<in> pinned s1 \<or> content s1 ?n = memdisk s1 ?n"
      using content_clean [OF ok0 r(3)] v by auto
    note q = brelse_OkD [OF r(1,2) this 2]
    have "held s0 - {?n} = held s0" using r(3) by auto
    then have cv: "cview s2 = cview s0" unfolding q(2) r(6) using v(3) by (simp add: cview_def)
    have fr: "inodes s2 = inodes s0" "sb s2 = sb s0" using fframe_fs [OF q(3)] fframe_fs [OF r(7)] by simp_all
    have "to_dinode (inodes st' ip) = disk_inode (sb st) (content st) (i_inum ?x)"
      by (simp add: st' to_dinode_def load_dinode_def disk_inode_def r(5)) (simp add: s0_def)
    then show ?thesis using q(1) cv fr t False by (simp add: st' s0_def) (simp add: load_dinode_def lk_def)
  qed
  then show "bcache_ok st'" "cview st' = cview st" "sb st' = sb st" "sl_locked (i_lock (inodes st' ip))"
    "inodes st' = (inodes st)(ip := inodes st' ip)"
    "if i_valid ?x then to_dinode (inodes st' ip) = to_dinode ?x
     else to_dinode (inodes st' ip) = disk_inode (sb st) (content st) (i_inum ?x) \<and> i_type (inodes st' ip) \<noteq> 0"
    by auto
qed

text \<open>C27. \<open>iupdate\<close> writes an inode through to its place on disk and touches no other inode: afterwards the inode with
  that number reads back as the cached one, by \<open>ilock\<close> on any cache entry for it that is not valid, and every other
  inode number reads as before.\<close>

theorem iupdate_ilock_roundtrip:
  assumes "bcache_ok st" "i_dev (inodes st ip) = 1" "length (i_addrs (inodes st ip)) = NDIRECT + 1"
    "length (content st (IBLOCK (i_inum (inodes st ip)) (sb st))) = BSIZE" "iupdate st ip = Ok st'"
  shows "disk_inode (sb st') (content st') (i_inum (inodes st ip)) = to_dinode (inodes st ip) \<and>
     (\<forall>inum. inum \<noteq> i_inum (inodes st ip) \<longrightarrow> disk_inode (sb st') (content st') inum = disk_inode (sb st) (content st) inum) \<and>
     (\<forall>jp st''. i_dev (inodes st' jp) = 1 \<and> i_inum (inodes st' jp) = i_inum (inodes st ip) \<and>
        \<not> i_valid (inodes st' jp) \<and> ilock st' jp = Ok st'' \<longrightarrow> to_dinode (inodes st'' jp) = to_dinode (inodes st ip))"
proof -
  let ?x = "inodes st ip"
  note r = iupdate_OkD [OF assms(1,2,5)]
  note f = fframe_fs [OF r(2)]
  have a: "length (di_addrs (to_dinode ?x)) = 13" using assms(3) by (simp add: to_dinode_def)
  have "inode_slot (i_inum ?x) * 64 + 64 \<le> 512" using inode_slot_less [of "i_inum ?x"] by simp
  then have 1: "disk_inode (sb st') (content st') (i_inum ?x) = to_dinode ?x"
    using get_put_dinode [OF a] assms(4) by (simp add: disk_inode_def r(4) f)
  have 2: "disk_inode (sb st') (content st') inum = disk_inode (sb st) (content st) inum" if "inum \<noteq> i_inum ?x" for inum
    using that inode_home_inj [of inum "sb st" "i_inum ?x"] get_put_dinode_other [OF a, of "inode_slot inum"]
    by (auto simp: disk_inode_def r(4) f)
  have 3: "to_dinode (inodes st'' jp) = to_dinode ?x"
    if "i_dev (inodes st' jp) = 1" "i_inum (inodes st' jp) = i_inum ?x" "\<not> i_valid (inodes st' jp)" "ilock st' jp = Ok st''" for jp st''
    using ilock_OkD(8) [OF r(1) that(1,4)] that 1 by simp
  show ?thesis using 1 2 3 by blast
qed

lemma demo_inode_blocks: "length (demo_disk 32) = BSIZE"
  by (simp add: demo_disk_def zero_block_def)

theorem iupdate_ilock_roundtrip_witness:
  "let st = upd_inode demo 3 (\<lambda>_. zero_inode\<lparr>i_dev := 1, i_inum := 5, i_ref := 1, i_valid := True, i_type := T_FILE, i_size := 9\<rparr>)
   in \<exists>st'. iupdate st 3 = Ok st' \<and> di_size (disk_inode (sb st') (content st') 5) = 9 \<and>
        disk_inode (sb st') (content st') 2 = disk_inode demo_sb demo_disk 2"
proof -
  define st where "st = upd_inode demo 3 (\<lambda>_. zero_inode\<lparr>i_dev := 1, i_inum := 5, i_ref := 1, i_valid := True, i_type := T_FILE, i_size := 9\<rparr>)"
  have c: "bcache_ok st" "held st = {}" "pinned st = {}" "content st = demo_disk" "disksize st = 100" "sb st = demo_sb"
    by (simp_all add: st_def demo_cache demo_fs)
  have l: "lh_n st = 0" "l_size st = 30" "l_outstanding st = 1" using demo_log by (simp_all add: st_def upd_inode_def)
  have x: "i_dev (inodes st 3) = 1" "i_inum (inodes st 3) = 5" "i_size (inodes st 3) = 9" "length (i_addrs (inodes st 3)) = NDIRECT + 1"
    by (simp_all add: st_def zero_inode_def)
  have ib: "IBLOCK (i_inum (inodes st 3)) (sb st) = 32" by (simp add: x c IBLOCK_def demo_sb_def)
  obtain st' where u: "iupdate st 3 = Ok st'"
    using modify_block_total [of st 32 "\<lambda>d. put_dinode d (inode_slot 5) (to_dinode (inodes st 3))"] c l ib x
    by (auto simp: iupdate_def Let_def)
  have "length (content st (IBLOCK (i_inum (inodes st 3)) (sb st))) = BSIZE" by (simp only: ib c(4) demo_inode_blocks)
  from iupdate_ilock_roundtrip [OF c(1) x(1,4) this u]
  have "disk_inode (sb st') (content st') 5 = to_dinode (inodes st 3)"
    "disk_inode (sb st') (content st') 2 = disk_inode demo_sb demo_disk 2" by (auto simp: x c)
  then show ?thesis unfolding st_def [symmetric] Let_def using u x by (auto simp: to_dinode_def)
qed

section \<open>The inode cache\<close>

text \<open>Every inode in use has one cache entry.\<close>

definition icache_ok :: "'a fstate_scheme \<Rightarrow> bool" where
  "icache_ok st \<longleftrightarrow>
     (\<forall>i<NINODE. 0 \<le> i_ref (inodes st i)) \<and>
     (\<forall>i<NINODE. \<forall>j<NINODE. 0 < i_ref (inodes st i) \<and> 0 < i_ref (inodes st j) \<and>
        i_dev (inodes st i) = i_dev (inodes st j) \<and> i_inum (inodes st i) = i_inum (inodes st j) \<longrightarrow> i = j)"

lemma icache_okD:
  assumes "icache_ok st" "i < NINODE"
  shows "0 \<le> i_ref (inodes st i)"
    "\<lbrakk>j < NINODE; 0 < i_ref (inodes st i); 0 < i_ref (inodes st j); i_dev (inodes st i) = i_dev (inodes st j);
      i_inum (inodes st i) = i_inum (inodes st j)\<rbrakk> \<Longrightarrow> i = j"
  using assms unfolding icache_ok_def by blast+

lemma icache_upd:
  assumes "icache_ok st" "0 \<le> i_ref (f (inodes st ip))"
    "\<And>j. \<lbrakk>j < NINODE; j \<noteq> ip; 0 < i_ref (f (inodes st ip)); 0 < i_ref (inodes st j); i_dev (f (inodes st ip)) = i_dev (inodes st j);
      i_inum (f (inodes st ip)) = i_inum (inodes st j)\<rbrakk> \<Longrightarrow> False"
  shows "icache_ok (upd_inode st ip f)"
  unfolding icache_ok_def
proof (intro conjI allI impI, goal_cases)
  case (1 i)
  then show ?case using icache_okD(1) [OF assms(1)] assms(2) by simp
next
  case (2 i j)
  then show ?case using icache_okD(2) [OF assms(1) 2(1,2)] assms(3) [of i] assms(3) [of j]
    by (cases "i = ip"; cases "j = ip") simp_all
qed

lemma find_upt_NoneD: "List.find P [0..<n] = None \<Longrightarrow> i < n \<Longrightarrow> \<not> P i"
  by (auto simp: find_None_iff)

text \<open>C16. \<open>iget\<close> finds the one cache entry of an inode or makes a new one from a free entry, so that an inode never has two;
  it returns an entry for the right inode, adds exactly one reference, to that entry, and panics only when every entry
  is referenced.\<close>

theorem iget_unique_entry:
  assumes "icache_ok st"
  shows "(iget st dev inum = Panic ''iget: no inodes'' \<and> (\<forall>i<NINODE. 0 < i_ref (inodes st i)) \<or>
     (\<exists>ip st'. iget st dev inum = Ok (ip, st') \<and> ip < NINODE \<and> icache_ok st' \<and>
        i_dev (inodes st' ip) = dev \<and> i_inum (inodes st' ip) = inum \<and>
        (0 < i_ref (inodes st ip) \<longleftrightarrow> (\<exists>i<NINODE. 0 < i_ref (inodes st i) \<and> i_dev (inodes st i) = dev \<and> i_inum (inodes st i) = inum)) \<and>
        i_ref (inodes st' ip) = i_ref (inodes st ip) + 1 \<and>
        (\<forall>i. i \<noteq> ip \<longrightarrow> inodes st' i = inodes st i)))"
proof -
  let ?P = "\<lambda>i. i_ref (inodes st i) > 0 \<and> i_dev (inodes st i) = dev \<and> i_inum (inodes st i) = inum"
  show ?thesis
  proof (cases "List.find ?P [0..<NINODE]")
    case (Some ip)
    note ip = find_upt_SomeD [OF Some]
    define st' where "st' = upd_inode st ip (\<lambda>x. x\<lparr>i_ref := i_ref x + 1\<rparr>)"
    have "iget st dev inum = Ok (ip, st')" using Some by (simp add: iget_def st'_def del: upt_rec_numeral)
    moreover have "icache_ok st'" unfolding st'_def
      by (rule icache_upd [OF assms]) (use ip icache_okD(2) [OF assms, of ip] in auto)
    ultimately show ?thesis using ip by (intro disjI2 exI [of _ ip] exI [of _ st'] conjI) (simp_all add: st'_def, blast)
  next
    case nf: None
    have nf': "\<not> ?P i" if "i < NINODE" for i by (rule find_upt_NoneD [OF nf that])
    show ?thesis
    proof (cases "List.find (\<lambda>i. i_ref (inodes st i) = 0) [0..<NINODE]")
      case None
      then have "iget st dev inum = Panic ''iget: no inodes''" using nf by (simp add: iget_def del: upt_rec_numeral)
      moreover have "0 < i_ref (inodes st i)" if "i < NINODE" for i
        using find_upt_NoneD [OF None that] assms that by (auto simp: icache_ok_def less_le)
      ultimately show ?thesis by blast
    next
      case (Some ip)
      note ip = find_upt_SomeD [OF Some]
      define st' where "st' = upd_inode st ip (\<lambda>x. x\<lparr>i_dev := dev, i_inum := inum, i_ref := 1, i_valid := False\<rparr>)"
      have "iget st dev inum = Ok (ip, st')" using Some nf by (simp add: iget_def st'_def del: upt_rec_numeral)
      moreover have "icache_ok st'" unfolding st'_def
        by (rule icache_upd [OF assms]) (use nf' in auto)
      ultimately show ?thesis using ip nf' by (intro disjI2 exI [of _ ip] exI [of _ st'] conjI) (simp_all add: st'_def)
    qed
  qed
qed

theorem iget_unique_entry_witness:
  "\<exists>ip st'. iget demo 1 2 = Ok (ip, st') \<and> i_ref (inodes st' ip) = 1"
proof -
  have i: "icache_ok demo" by (simp add: icache_ok_def demo_fs zero_inode_def)
  from iget_unique_entry [OF i, of 1 2] show ?thesis
    by (auto simp: demo_fs zero_inode_def dest!: spec [of _ 0])
qed

end
