(* ===== verification/Grep.thy ===== *)
theory Grep
  imports CString
begin

text \<open>
  The user program \<open>grep.c\<close>: the regular expression matcher, the loop that cuts what it reads into lines, and the
  command line.  A C string is the list of its bytes before the NUL.  What the \<open>read\<close> system call returns, call by call,
  is a parameter, as is which files can be opened.
\<close>

section \<open>The matcher\<close>

definition caret :: u8 where "caret = 0x5E"
definition dot :: u8 where "dot = 0x2E"
definition star :: u8 where "star = 0x2A"
definition dollar :: u8 where "dollar = 0x24"
definition newline :: u8 where "newline = 0x0A"

lemmas specials = caret_def dot_def star_def dollar_def newline_def

function (sequential) matchhere :: "u8 list \<Rightarrow> u8 list \<Rightarrow> bool"
and matchstar :: "u8 \<Rightarrow> u8 list \<Rightarrow> u8 list \<Rightarrow> bool" where
  "matchhere [] tx = True"
| "matchhere (c # re) tx =
     (case re of s # re' \<Rightarrow> if s = star then matchstar c re' tx
                         else (case tx of [] \<Rightarrow> False | x # tx' \<Rightarrow> (c = dot \<or> c = x) \<and> matchhere re tx')
      | [] \<Rightarrow> if c = dollar then tx = []
              else (case tx of [] \<Rightarrow> False | x # tx' \<Rightarrow> (c = dot \<or> c = x) \<and> matchhere re tx'))"
| "matchstar c re tx =
     (if matchhere re tx then True
      else (case tx of [] \<Rightarrow> False | x # tx' \<Rightarrow> if x = c \<or> c = dot then matchstar c re tx' else False))"
  by pat_completeness auto
termination
  by (relation "measures [\<lambda>a. case a of Inl (re, t) \<Rightarrow> length re + length t | Inr (c, re, t) \<Rightarrow> length re + length t,
                          \<lambda>a. case a of Inl _ \<Rightarrow> 0 | Inr _ \<Rightarrow> 1]") auto

text \<open>The loop of \<open>match\<close> tries every suffix, the empty one included.\<close>

primrec match_loop :: "u8 list \<Rightarrow> u8 list \<Rightarrow> bool" where
  "match_loop re [] = matchhere re []"
| "match_loop re (x # tx) = (matchhere re (x # tx) \<or> match_loop re tx)"

definition match :: "u8 list \<Rightarrow> u8 list \<Rightarrow> bool" where
  "match re tx = (case re of c # re' \<Rightarrow> if c = caret then matchhere re' tx else match_loop re tx
                   | [] \<Rightarrow> match_loop re tx)"

section \<open>Reading lines\<close>

text \<open>\<open>strchr\<close> of \<open>ulib.c\<close>: the offset of the first \<open>c\<close> before the NUL.\<close>

primrec strchr :: "u8 list \<Rightarrow> u8 \<Rightarrow> nat option" where
  "strchr [] c = None"
| "strchr (x # s) c = (if x = 0 then None else if x = c then Some 0 else map_option Suc (strchr s c))"

lemma strchr_SomeD: "strchr s c = Some k \<Longrightarrow> k < length s \<and> s ! k = c \<and> c \<notin> set (take k s) \<and> 0 \<notin> set (take k s)"
  by (induction s arbitrary: k) (auto split: if_splits)

text \<open>The inner loop: every line in the buffer, from \<open>p\<close> on, and where \<open>p\<close> ends up.\<close>

function grep_lines :: "u8 list \<Rightarrow> u8 list \<Rightarrow> u8 list list \<times> u8 list" where
  "grep_lines pat p =
     (case strchr p newline of
        None \<Rightarrow> ([], p)
      | Some q \<Rightarrow> (let (out, p') = grep_lines pat (drop (q + 1) p)
                   in (if match pat (take q p) then (take q p @ [newline]) # out else out, p')))"
  by pat_completeness auto
termination by (relation "measure (length \<circ> snd)") (auto dest: strchr_SomeD)

declare grep_lines.simps [simp del]

text \<open>The outer loop.  \<open>keep\<close> is the first \<open>m\<close> bytes of \<open>buf\<close>; each element of the list is what one \<open>read\<close> returns.
  When the buffer is full the length asked for is 0, and so is what \<open>read\<close> returns.\<close>

primrec grep_loop :: "u8 list \<Rightarrow> u8 list \<Rightarrow> u8 list list \<Rightarrow> u8 list list res" where
  "grep_loop pat keep [] = Ok []"
| "grep_loop pat keep (r # reads) =
     (if length r > 1024 - length keep - 1 then Undef ''read''
      else if r = [] then Ok []
      else let buf = keep @ r; (out, p) = grep_lines pat buf;
               keep' = (if length p = length buf then [] else p)
           in bindr (grep_loop pat keep' reads) (\<lambda>rest. Ok (out @ rest)))"

definition grep :: "u8 list \<Rightarrow> u8 list list \<Rightarrow> u8 list list res" where
  "grep pat reads = grep_loop pat [] reads"

text \<open>The command line.  What the program writes, with the descriptor it writes to; \<open>files\<close> gives the reads of each file
  that can be opened and \<open>stdin\<close> those of descriptor 0.\<close>

primrec grep_files :: "u8 list \<Rightarrow> (u8 list \<rightharpoonup> u8 list list) \<Rightarrow> u8 list list \<Rightarrow> (nat \<times> u8 list) list res" where
  "grep_files pat files [] = Ok []"
| "grep_files pat files (f # fs) =
     (case files f of
        None \<Rightarrow> Ok [(1, ascii ''grep: cannot open '' @ f @ [newline])]
      | Some reads \<Rightarrow> bindr (grep pat reads) (\<lambda>out. bindr (grep_files pat files fs) (\<lambda>rest. Ok (map (Pair 1) out @ rest))))"

definition grep_main :: "(u8 list \<rightharpoonup> u8 list list) \<Rightarrow> u8 list list \<Rightarrow> u8 list list \<Rightarrow> (nat \<times> u8 list) list res" where
  "grep_main files stdin argv =
     (case argv of
        _ # pat # [] \<Rightarrow> bindr (grep pat stdin) (\<lambda>out. Ok (map (Pair 1) out))
      | _ # pat # fs \<Rightarrow> grep_files pat files fs
      | _ \<Rightarrow> Ok [(2, ascii ''usage: grep pattern [file ...]'' @ [newline])])"

section \<open>What the matcher means\<close>

text \<open>The pattern after a leading \<open>^\<close>: a list of single characters and starred characters, and whether a final \<open>$\<close>
  asks for the end of the text.\<close>

datatype piece = One u8 | Many u8

fun pieces :: "u8 list \<Rightarrow> piece list \<times> bool" where
  "pieces [] = ([], False)"
| "pieces [c] = (if c = dollar then ([], True) else ([One c], False))"
| "pieces (c # d # re) =
     (if d = star then apfst ((#) (Many c)) (pieces re) else apfst ((#) (One c)) (pieces (d # re)))"

definition fits :: "u8 \<Rightarrow> u8 \<Rightarrow> bool" where
  "fits c x \<longleftrightarrow> c = dot \<or> c = x"

inductive language :: "piece list \<Rightarrow> u8 list \<Rightarrow> bool" where
  empty: "language [] []"
| one: "fits c x \<Longrightarrow> language ps w \<Longrightarrow> language (One c # ps) (x # w)"
| many: "(\<forall>x\<in>set u. fits c x) \<Longrightarrow> language ps w \<Longrightarrow> language (Many c # ps) (u @ w)"

inductive_simps language_simps [simp]: "language [] w" "language (One c # ps) w"
inductive_cases language_ManyE: "language (Many c # ps) w"

lemma language_Many: "language (Many c # ps) w \<longleftrightarrow> (\<exists>u v. w = u @ v \<and> (\<forall>x\<in>set u. fits c x) \<and> language ps v)"
  by (auto elim!: language_ManyE intro: language.many)

text \<open>What it means to match at the start of a text.\<close>

definition here :: "piece list \<times> bool \<Rightarrow> u8 list \<Rightarrow> bool" where
  "here re tx \<longleftrightarrow> (\<exists>u v. tx = u @ v \<and> language (fst re) u \<and> (snd re \<longrightarrow> v = []))"

lemma here_nil [simp]: "here ([], False) tx" "here ([], True) tx \<longleftrightarrow> tx = []"
  by (auto simp: here_def)

lemma here_One [simp]:
  "here (One c # ps, e) tx \<longleftrightarrow> (case tx of [] \<Rightarrow> False | x # tx' \<Rightarrow> fits c x \<and> here (ps, e) tx')"
proof (cases tx)
  case (Cons x t)
  have "(\<exists>u v. x # t = u @ v \<and> language (One c # ps) u \<and> Q v) \<longleftrightarrow> fits c x \<and> (\<exists>u v. t = u @ v \<and> language ps u \<and> Q v)" for Q
    by (auto simp: Cons_eq_append_conv)
  then show ?thesis by (simp add: here_def Cons)
qed (simp add: here_def)

lemma here_Many: "here (Many c # ps, e) tx \<longleftrightarrow> (\<exists>u v. tx = u @ v \<and> (\<forall>x\<in>set u. fits c x) \<and> here (ps, e) v)"
proof
  assume "here (Many c # ps, e) tx"
  then obtain u w v where "tx = (u @ w) @ v" "\<forall>x\<in>set u. fits c x" "language ps w" "e \<longrightarrow> v = []"
    unfolding here_def language_Many fst_conv snd_conv by (metis append_assoc)
  then show "\<exists>u v. tx = u @ v \<and> (\<forall>x\<in>set u. fits c x) \<and> here (ps, e) v"
    by (intro exI [of _ u] exI [of _ "w @ v"]) (auto simp: here_def)
next
  assume "\<exists>u v. tx = u @ v \<and> (\<forall>x\<in>set u. fits c x) \<and> here (ps, e) v"
  then obtain u w v where "tx = u @ w @ v" "\<forall>x\<in>set u. fits c x" "language ps w" "e \<longrightarrow> v = []"
    unfolding here_def fst_conv snd_conv by blast
  then show "here (Many c # ps, e) tx"
    unfolding here_def by (intro exI [of _ "u @ w"] exI [of _ v]) (auto intro: language.many)
qed

lemma here_Many_rec:
  "here (Many c # ps, e) tx \<longleftrightarrow>
     here (ps, e) tx \<or> (case tx of [] \<Rightarrow> False | x # tx' \<Rightarrow> fits c x \<and> here (Many c # ps, e) tx')"
proof -
  have "(\<exists>u v. tx = u @ v \<and> (\<forall>x\<in>set u. fits c x) \<and> here (ps, e) v) \<longleftrightarrow>
    here (ps, e) tx \<or> (\<exists>x u v. tx = x # u @ v \<and> fits c x \<and> (\<forall>x\<in>set u. fits c x) \<and> here (ps, e) v)"
    (is "(\<exists>u v. ?P u v) \<longleftrightarrow> ?Q")
  proof
    assume "\<exists>u v. ?P u v"
    then obtain u v where "?P u v" by blast
    then show ?Q by (cases u) auto
  next
    assume ?Q
    then show "\<exists>u v. ?P u v"
    proof
      assume "here (ps, e) tx"
      then show ?thesis by (intro exI [of _ "[]"] exI [of _ tx]) auto
    next
      assume "\<exists>x u v. tx = x # u @ v \<and> fits c x \<and> (\<forall>x\<in>set u. fits c x) \<and> here (ps, e) v"
      then obtain x u v where "tx = x # u @ v \<and> fits c x \<and> (\<forall>x\<in>set u. fits c x) \<and> here (ps, e) v" by blast
      then show ?thesis by (intro exI [of _ "x # u"] exI [of _ v]) auto
    qed
  qed
  then show ?thesis by (auto simp: here_Many split: list.split)
qed

lemma matchhere_spec:
  "matchhere re tx \<longleftrightarrow> here (pieces re) tx"
  "matchstar c re tx \<longleftrightarrow> here (apfst ((#) (Many c)) (pieces re)) tx"
proof (induction re tx and c re tx rule: matchhere_matchstar.induct)
  case (2 c re tx)
  show ?case
  proof (cases re)
    case Nil
    then show ?thesis using 2 by (auto simp: fits_def split: list.split)
  next
    case (Cons s re')
    then show ?thesis using 2 by (cases "pieces re") (auto simp: fits_def split: list.split)
  qed
next
  case (3 c re tx)
  obtain ps e where p: "pieces re = (ps, e)" by fastforce
  show ?case
    using 3 here_Many_rec [of c ps e tx] by (cases tx) (auto simp: p fits_def simp del: here_One)
qed simp

lemma match_loop_spec: "match_loop re tx \<longleftrightarrow> (\<exists>u v. tx = u @ v \<and> matchhere re v)"
proof (induction tx)
  case (Cons x tx)
  have "(\<exists>u v. x # tx = u @ v \<and> matchhere re v) \<longleftrightarrow> matchhere re (x # tx) \<or> (\<exists>u v. tx = u @ v \<and> matchhere re v)"
    by (auto simp: Cons_eq_append_conv)
  then show ?case using Cons by simp
qed simp

text \<open>C14. The matcher decides exactly the language of the pattern: without \<open>^\<close> some substring of the text is in it, with
  \<open>^\<close> some prefix, and with a final \<open>$\<close> what is matched reaches the end of the text.\<close>

theorem match_language:
  "match re tx \<longleftrightarrow>
     (let (ps, at_end) = pieces (if re \<noteq> [] \<and> hd re = caret then tl re else re) in
      \<exists>u v w. tx = u @ v @ w \<and> language ps v \<and> (re \<noteq> [] \<and> hd re = caret \<longrightarrow> u = []) \<and> (at_end \<longrightarrow> w = []))"
proof (cases "re \<noteq> [] \<and> hd re = caret")
  case True
  then obtain re' where re: "re = caret # re'" by (cases re) auto
  then show ?thesis by (cases "pieces re'") (simp add: match_def matchhere_spec here_def)
next
  case False
  then have "match re tx = match_loop re tx" by (auto simp: match_def split: list.split)
  moreover have "(if re \<noteq> [] \<and> hd re = caret then tl re else re) = re" "\<not> (re \<noteq> [] \<and> hd re = caret)" using False by auto
  ultimately show ?thesis
    by (cases "pieces re") (simp only: match_loop_spec matchhere_spec here_def, auto)
qed

theorem match_language_witness:
  "match (ascii ''^ab*c$'') (ascii ''abbc'') \<and>
   (\<exists>v. ascii ''abbc'' = v \<and> language [One (of_char (CHR ''a'')), Many (of_char (CHR ''b'')), One (of_char (CHR ''c''))] v)"
proof -
  have "match (ascii ''^ab*c$'') (ascii ''abbc'')" by (simp add: ascii_def match_def specials)
  then show ?thesis using match_language [of "ascii ''^ab*c$''" "ascii ''abbc''"] by (simp add: ascii_def specials)
qed

section \<open>What grep prints\<close>

text \<open>The lines of a text that end in a newline.\<close>

function complete_lines :: "u8 list \<Rightarrow> u8 list list" where
  "complete_lines s =
     (case dropWhile (\<lambda>x. x \<noteq> newline) s of
        [] \<Rightarrow> []
      | _ # s' \<Rightarrow> takeWhile (\<lambda>x. x \<noteq> newline) s # complete_lines s')"
  by pat_completeness auto
termination
proof (relation "measure length")
  fix s x s' assume "dropWhile (\<lambda>x. x \<noteq> newline) s = x # s'"
  then show "(s', s) \<in> measure length" using length_dropWhile_le [of "\<lambda>x. x \<noteq> newline" s] by simp
qed simp

declare complete_lines.simps [simp del]

lemma complete_lines_none [simp]: "newline \<notin> set s \<Longrightarrow> complete_lines s = []"
  by (subst complete_lines.simps) (auto split: list.split dest!: arg_cong [of _ _ set] simp: dropWhile_eq_Cons_conv)

lemma complete_lines_line [simp]: "newline \<notin> set l \<Longrightarrow> complete_lines (l @ newline # s) = l # complete_lines s"
proof -
  assume "newline \<notin> set l"
  then have "dropWhile (\<lambda>x. x \<noteq> newline) (l @ newline # s) = newline # s" "takeWhile (\<lambda>x. x \<noteq> newline) (l @ newline # s) = l"
    by (auto simp: dropWhile_append takeWhile_append)
  then show ?thesis by (subst complete_lines.simps) simp
qed

text \<open>The part after the last newline.\<close>

definition tail_of :: "u8 list \<Rightarrow> u8 list" where
  "tail_of s = rev (takeWhile (\<lambda>x. x \<noteq> newline) (rev s))"

lemma tail_of_none: "newline \<notin> set s \<Longrightarrow> tail_of s = s"
proof -
  assume "newline \<notin> set s"
  then have "\<forall>x\<in>set (rev s). x \<noteq> newline" by auto
  then have "takeWhile (\<lambda>x. x \<noteq> newline) (rev s) = rev s" by (simp only: takeWhile_eq_all_conv)
  then show ?thesis by (simp only: tail_of_def rev_rev_ident)
qed

lemma tail_of_line: "tail_of (l @ newline # s) = tail_of s"
proof (cases "newline \<in> set s")
  case True
  then show ?thesis by (simp add: tail_of_def takeWhile_append1)
next
  case False
  then have "\<And>x. x \<in> set (rev s) \<Longrightarrow> x \<noteq> newline" by auto
  then have "takeWhile (\<lambda>x. x \<noteq> newline) (rev s @ newline # rev l) = rev s"
    by (subst takeWhile_append2) auto
  then have "tail_of (l @ newline # s) = s" by (simp only: tail_of_def rev_rev_ident rev_append rev.simps append_assoc append_Cons append_Nil)
  then show ?thesis using tail_of_none [OF False] by simp
qed

lemma tail_of_append: "newline \<in> set r \<Longrightarrow> tail_of (s @ r) = tail_of r"
  by (simp add: tail_of_def takeWhile_append1)

lemma split_tail: "newline \<in> set s \<Longrightarrow> \<exists>u. s = u @ newline # tail_of s"
proof -
  assume "newline \<in> set s"
  then obtain u v where "s = u @ newline # v" "newline \<notin> set v" by (meson split_list_last)
  then show ?thesis by (auto simp: tail_of_line tail_of_none)
qed

lemma strchr_newline:
  "0 \<notin> set s \<Longrightarrow> strchr s newline = (if newline \<in> set s then Some (length (takeWhile (\<lambda>x. x \<noteq> newline) s)) else None)"
  by (induction s) auto

lemma strchr_line: "0 \<notin> set l \<Longrightarrow> newline \<notin> set l \<Longrightarrow> strchr (l @ newline # s) newline = Some (length l)"
  by (induction l) (auto simp: specials)

definition printed :: "u8 list \<Rightarrow> u8 list \<Rightarrow> u8 list list" where
  "printed pat s = map (\<lambda>l. l @ [newline]) (filter (match pat) (complete_lines s))"

lemma grep_lines_spec: "0 \<notin> set p \<Longrightarrow> grep_lines pat p = (printed pat p, tail_of p)"
proof (induction "length p" arbitrary: p rule: less_induct)
  case less
  show ?case
  proof (cases "newline \<in> set p")
    case False
    then show ?thesis using less.prems
      by (subst grep_lines.simps) (simp add: strchr_newline printed_def tail_of_none)
  next
    case True
    then obtain l s where p: "p = l @ newline # s" "newline \<notin> set l" by (meson split_list_first)
    then have "grep_lines pat s = (printed pat s, tail_of s)" using less by simp
    then show ?thesis using p less.prems
      by (subst grep_lines.simps) (simp add: strchr_line printed_def tail_of_line)
  qed
qed

lemma complete_lines_append: "complete_lines (u @ newline # s) = complete_lines (u @ [newline]) @ complete_lines s"
proof (induction "length u" arbitrary: u rule: less_induct)
  case less
  show ?case
  proof (cases "newline \<in> set u")
    case False
    then show ?thesis using complete_lines_line [of u "[]"] by simp
  next
    case True
    then obtain l v where "u = l @ newline # v" "newline \<notin> set l" by (meson split_list_first)
    then show ?thesis using less [of v] by simp
  qed
qed

text \<open>\<open>read\<close> returns no more than it was asked for: the room that is left after the part of the last line already read.\<close>

fun readable :: "nat \<Rightarrow> u8 list list \<Rightarrow> bool" where
  "readable m [] = True"
| "readable m (r # rs) = (m + length r \<le> 1023 \<and> readable (length (tail_of r)) rs)"

lemma grep_loop_spec:
  "\<lbrakk>readable (length keep) reads; \<forall>r\<in>set reads. newline \<in> set r \<and> 0 \<notin> set r; newline \<notin> set keep; 0 \<notin> set keep\<rbrakk> \<Longrightarrow>
     grep_loop pat keep reads = Ok (printed pat (keep @ concat reads))"
proof (induction reads arbitrary: keep)
  case (Cons r reads)
  let ?buf = "keep @ r"
  have n: "newline \<in> set r" "newline \<in> set ?buf" "r \<noteq> []" using Cons.prems by auto
  obtain u where u: "?buf = u @ newline # tail_of r" using split_tail [OF n(2)] tail_of_append [OF n(1), of keep] by auto
  have l: "length (tail_of r) \<noteq> length ?buf" using arg_cong [OF u, of length] by simp
  have g: "grep_lines pat ?buf = (printed pat ?buf, tail_of r)"
    using Cons.prems tail_of_append [OF n(1), of keep] by (subst grep_lines_spec) auto
  have t: "newline \<notin> set (tail_of r)" "0 \<notin> set (tail_of r)" using Cons.prems by (auto simp: tail_of_def dest: set_takeWhileD)
  have "grep_loop pat (tail_of r) reads = Ok (printed pat (tail_of r @ concat reads))"
    using Cons.prems t by (intro Cons.IH) auto
  moreover have "printed pat (keep @ concat (r # reads)) = printed pat ?buf @ printed pat (tail_of r @ concat reads)"
  proof -
    have "keep @ concat (r # reads) = u @ newline # (tail_of r @ concat reads)" using u by simp
    moreover have "complete_lines (u @ newline # (tail_of r @ concat reads)) =
        complete_lines (u @ [newline]) @ complete_lines (tail_of r @ concat reads)" by (rule complete_lines_append)
    moreover have "complete_lines ?buf = complete_lines (u @ [newline])"
      using complete_lines_append [of u "tail_of r"] t u by simp
    ultimately show ?thesis by (simp only: printed_def filter_append map_append)
  qed
  moreover have "\<not> length r > 1024 - length keep - 1" using Cons.prems(1) by (simp add: not_less) linarith
  ultimately show ?case using n l g by simp
qed (simp add: printed_def)

text \<open>C30. On input without NUL bytes, as long as every \<open>read\<close> fits into the buffer and brings a newline, \<open>grep\<close> writes exactly
  the lines of its whole input that end in a newline and match, in order, however the input is cut into reads.  (At a NUL
  byte the search for the end of a line stops, so that the rest of what was read is not looked at.)\<close>

theorem grep_prints_matching_lines:
  assumes "readable 0 reads" "\<forall>r\<in>set reads. newline \<in> set r \<and> 0 \<notin> set r"
  shows "grep pat reads = Ok (map (\<lambda>l. l @ [newline]) (filter (match pat) (complete_lines (concat reads))))"
  using grep_loop_spec [of "[]" reads pat] assms by (simp add: grep_def printed_def)

theorem grep_prints_matching_lines_witness:
  "grep (ascii ''b'') [ascii ''a'' @ newline # ascii ''xb'', ascii ''y'' @ [newline]] = Ok [ascii ''xby'' @ [newline]]"
  (is "grep _ ?reads = _")
proof -
  have c: "complete_lines (concat ?reads) = [ascii ''a'', ascii ''xby'']"
    using complete_lines_line [of "ascii ''a''" "ascii ''xby'' @ [newline]"] complete_lines_line [of "ascii ''xby''" "[]"]
    by (simp add: ascii_def specials)
  have "readable 0 ?reads" by (simp add: ascii_def specials tail_of_def)
  moreover have "\<forall>r\<in>set ?reads. newline \<in> set r \<and> 0 \<notin> set r" by (simp add: ascii_def specials)
  ultimately show ?thesis using grep_prints_matching_lines [of ?reads "ascii ''b''"] unfolding c
    by (simp add: ascii_def match_def specials)
qed

text \<open>A \<open>read\<close> that brings no newline is thrown away when nothing was kept before it, so a line that arrives in two
  pieces, as from a pipe or a console, is matched against its second piece only.\<close>

theorem grep_drops_partial_line:
  "grep (ascii ''a'') [ascii ''ab'', ascii ''c'' @ [newline]] = Ok [] \<and>
   grep (ascii ''a'') [ascii ''abc'' @ [newline]] = Ok [ascii ''abc'' @ [newline]]"
  by (simp add: grep_def grep_lines.simps ascii_def specials match_def Let_def)

end
