(* ===== verification/Ide.thy ===== *)
theory Ide
  imports Memide
begin

text \<open>
  The driver of the real disk, \<open>ide.c\<close>: requests wait in a list linked through the buffers, the first
  one is at the disk, and the interrupt handler finishes it and starts the next.  The disk is a
  parameter: \<open>status\<close> is what port 0x1f7 reads once the disk stops being busy after a sequence of
  port writes, and \<open>insl\<close> the 512 bytes the data port then delivers.
\<close>

unbundle bit_operations_syntax

section \<open>Definitions\<close>

datatype ideev = Outb u16 u8 | Outsl u16 "u8 list"

record idestate =
  ibufs :: "nat \<Rightarrow> buf"
  qnext :: "nat \<Rightarrow> nat option"
  idequeue :: "nat option"
  havedisk1 :: bool
  ports :: "ideev list"

definition idewait :: "(ideev list \<Rightarrow> u8) \<Rightarrow> ideev list \<Rightarrow> bool \<Rightarrow> int res" where
  "idewait status evs checkerr =
     (let r = status evs in
      if r AND (0x80 OR 0x40) \<noteq> 0x40 then Blocks ''idewait''
      else if checkerr \<and> r AND (0x20 OR 0x01) \<noteq> 0 then Ok (-1)
      else Ok 0)"

text \<open>\<open>present\<close>: whether one of the thousand reads of the status port finds the second disk.\<close>

definition ide_init :: "(ideev list \<Rightarrow> u8) \<Rightarrow> (ideev list \<Rightarrow> bool) \<Rightarrow> idestate \<Rightarrow> idestate res" where
  "ide_init status present st =
     bindr (idewait status (ports st) False) (\<lambda>_.
       let evs = ports st @ [Outb 0x1f6 (0xe0 OR push_bit 4 1)]
       in Ok (st\<lparr>havedisk1 := havedisk1 st \<or> present evs,
                 ports := evs @ [Outb 0x1f6 (0xe0 OR push_bit 4 0)]\<rparr>))"

text \<open>A block is one sector, so the commands are the plain ones.\<close>

definition start_events :: "buf \<Rightarrow> ideev list" where
  "start_events x =
     (let sector = b_blockno x in
      [Outb 0x3f6 0, Outb 0x1f2 1, Outb 0x1f3 (ucast (sector AND 0xff)),
       Outb 0x1f4 (ucast (drop_bit 8 sector AND 0xff)), Outb 0x1f5 (ucast (drop_bit 16 sector AND 0xff)),
       Outb 0x1f6 (0xe0 OR ucast (push_bit 4 (b_dev x AND 1)) OR ucast (drop_bit 24 sector AND 0x0f))] @
      (if b_flags x AND B_DIRTY \<noteq> 0 then [Outb 0x1f7 0x30, Outsl 0x1f0 (b_data x)] else [Outb 0x1f7 0x20]))"

definition idestart :: "(ideev list \<Rightarrow> u8) \<Rightarrow> nat \<Rightarrow> idestate \<Rightarrow> idestate res" where
  "idestart status b st =
     (if b_blockno (ibufs st b) \<ge> 1000 then Panic ''incorrect blockno''
      else bindr (idewait status (ports st) False) (\<lambda>_.
           Ok (st\<lparr>ports := ports st @ start_events (ibufs st b)\<rparr>)))"

definition ideintr ::
  "(ideev list \<Rightarrow> u8) \<Rightarrow> (ideev list \<Rightarrow> u8 list) \<Rightarrow> idestate \<Rightarrow> idestate res" where
  "ideintr status insl st =
     (case idequeue st of
        None \<Rightarrow> Ok st
      | Some b \<Rightarrow>
          let st = st\<lparr>idequeue := qnext st b\<rparr>; x = ibufs st b in
          bindr (if b_flags x AND B_DIRTY = 0
                 then bindr (idewait status (ports st) True) (\<lambda>r.
                      Ok (if r \<ge> 0 then x\<lparr>b_data := insl (ports st)\<rparr> else x))
                 else Ok x) (\<lambda>x.
          let st = st\<lparr>ibufs := (ibufs st)(b := x\<lparr>b_flags := (b_flags x OR B_VALID) AND NOT B_DIRTY\<rparr>)\<rparr>
          in case idequeue st of None \<Rightarrow> Ok st | Some n \<Rightarrow> idestart status n st))"

text \<open>The end of the list, found by following the links; \<open>None\<close> where they never end.\<close>

partial_function (option) queue_end :: "(nat \<Rightarrow> nat option) \<Rightarrow> nat \<Rightarrow> nat option" where
  "queue_end q b = (case q b of None \<Rightarrow> Some b | Some n \<Rightarrow> queue_end q n)"

definition append_request :: "nat \<Rightarrow> idestate \<Rightarrow> idestate res" where
  "append_request b st =
     (let st = st\<lparr>qnext := (qnext st)(b := None)\<rparr> in
      case idequeue st of
        None \<Rightarrow> Ok (st\<lparr>idequeue := Some b\<rparr>)
      | Some h \<Rightarrow>
          (case queue_end (qnext st) h of
             None \<Rightarrow> Blocks ''idequeue''
           | Some e \<Rightarrow> Ok (st\<lparr>qnext := (qnext st)(e := Some b)\<rparr>)))"

text \<open>\<open>iderw\<close> up to the loop in which the caller sleeps, and the condition that ends the loop.\<close>

definition ide_rw :: "(ideev list \<Rightarrow> u8) \<Rightarrow> nat \<Rightarrow> idestate \<Rightarrow> idestate res" where
  "ide_rw status b st =
     (let x = ibufs st b in
      if \<not> holdingsleep (b_lock x) then Panic ''iderw: buf not locked''
      else if b_flags x AND (B_VALID OR B_DIRTY) = B_VALID then Panic ''iderw: nothing to do''
      else if b_dev x \<noteq> 0 \<and> \<not> havedisk1 st then Panic ''iderw: ide disk 1 not present''
      else bindr (append_request b st) (\<lambda>st.
           if idequeue st = Some b then idestart status b st else Ok st))"

definition rw_done :: "nat \<Rightarrow> idestate \<Rightarrow> bool" where
  "rw_done b st \<longleftrightarrow> b_flags (ibufs st b) AND (B_VALID OR B_DIRTY) = B_VALID"

section \<open>The queue\<close>

primrec qlist :: "(nat \<Rightarrow> nat option) \<Rightarrow> nat option \<Rightarrow> nat list \<Rightarrow> bool" where
  "qlist q h [] \<longleftrightarrow> h = None"
| "qlist q h (x # xs) \<longleftrightarrow> h = Some x \<and> qlist q (q x) xs"

lemma qlist_frame: "b \<notin> set xs \<Longrightarrow> qlist (q(b := v)) h xs \<longleftrightarrow> qlist q h xs"
  by (induction xs arbitrary: h) auto

lemma queue_end_last: "qlist q (Some h) xs \<Longrightarrow> queue_end q h = Some (last xs)"
proof (induction xs arbitrary: h)
  case (Cons x xs)
  show ?case
  proof (cases xs)
    case Nil
    then show ?thesis using Cons.prems by (simp add: queue_end.simps)
  next
    case (Cons y ys)
    then have "q h = Some y" "qlist q (Some y) xs" using Cons.prems by auto
    then show ?thesis using Cons.IH [of y] Cons by (simp add: queue_end.simps [of q h])
  qed
qed simp

lemma qlist_append:
  "qlist q h xs \<Longrightarrow> distinct xs \<Longrightarrow> xs \<noteq> [] \<Longrightarrow> b \<notin> set xs \<Longrightarrow> q b = None \<Longrightarrow>
   qlist (q(last xs := Some b)) h (xs @ [b])"
proof (induction xs arbitrary: h)
  case (Cons x xs)
  show ?case
  proof (cases xs)
    case Nil
    then show ?thesis using Cons.prems by auto
  next
    case (Cons y ys)
    then have "x \<noteq> last xs" using Cons.prems(2) by (metis distinct.simps(2) last_in_set list.distinct(1))
    then show ?thesis using Cons.prems Cons.IH [of "q x"] Cons by auto
  qed
qed simp

lemma append_request_queue:
  assumes "qlist (qnext st) (idequeue st) xs" "distinct xs" "b \<notin> set xs"
  shows "\<exists>st'. append_request b st = Ok st' \<and> qlist (qnext st') (idequeue st') (xs @ [b]) \<and>
    ibufs st' = ibufs st \<and> ports st' = ports st \<and> havedisk1 st' = havedisk1 st"
proof (cases xs)
  case Nil
  then show ?thesis using assms by (simp add: append_request_def)
next
  case (Cons h ys)
  define q where "q = (qnext st)(b := None)"
  have q: "qlist q (Some h) xs" using assms Cons by (simp add: q_def qlist_frame)
  note e = queue_end_last [OF q]
  have "qlist (q(last xs := Some b)) (Some h) (xs @ [b])"
    by (rule qlist_append [OF q]) (use assms Cons in \<open>auto simp: q_def\<close>)
  then show ?thesis using assms Cons e by (auto simp: append_request_def q_def Let_def)
qed

section \<open>The disk\<close>

text \<open>
  The documented behaviour of the disk, as a reading of the port writes: the last value of each
  register, and the sectors.  The sector is addressed by registers 0x1f3 to 0x1f6, bit 4 of the last
  one selects the drive, and a block sent after command 0x30 is stored.
\<close>

record drive =
  regs :: "u16 \<Rightarrow> u8"
  sectors :: "bool \<Rightarrow> u32 \<Rightarrow> block"

definition lba :: "(u16 \<Rightarrow> u8) \<Rightarrow> u32" where
  "lba r = join32 (r 0x1f3) (r 0x1f4) (r 0x1f5) (r 0x1f6 AND 0x0f)"

definition selected :: "(u16 \<Rightarrow> u8) \<Rightarrow> bool" where
  "selected r \<longleftrightarrow> bit (r 0x1f6) 4"

primrec drive_step :: "ideev \<Rightarrow> drive \<Rightarrow> drive" where
  "drive_step (Outb p v) d = d\<lparr>regs := (regs d)(p := v)\<rparr>"
| "drive_step (Outsl p xs) d =
     (if p = 0x1f0 \<and> regs d 0x1f7 = 0x30
      then d\<lparr>sectors := (sectors d)(selected (regs d) := (sectors d (selected (regs d)))(lba (regs d) := xs))\<rparr> else d)"

definition drive_after :: "drive \<Rightarrow> ideev list \<Rightarrow> drive" where
  "drive_after d evs = fold drive_step evs d"

text \<open>A disk without errors: it always gets ready, and after command 0x20 delivers the addressed sector.\<close>

definition healthy_disk :: "drive \<Rightarrow> (ideev list \<Rightarrow> u8) \<Rightarrow> (ideev list \<Rightarrow> u8 list) \<Rightarrow> bool" where
  "healthy_disk d0 status insl \<longleftrightarrow>
     (\<forall>evs. status evs AND 0xC0 = 0x40 \<and> status evs AND 0x21 = 0) \<and>
     (\<forall>evs. let d = drive_after d0 evs in
        regs d 0x1f7 = 0x20 \<longrightarrow> insl evs = sectors d (selected (regs d)) (lba (regs d)))"

lemma sector_join:
  fixes n :: u32
  assumes "n < 1000"
  shows "join32 (ucast (n AND 0xff)) (ucast (drop_bit 8 n AND 0xff)) (ucast (drop_bit 16 n AND 0xff)) 0 = n"
    and "drop_bit 24 n AND 0x0f = 0"
proof -
  have nat: "unat n < 1000" using assms by (simp add: word_less_nat_alt)
  have z: "drop_bit 24 n = 0" using nat by (simp add: word_unat_eq_iff drop_bit_eq_div unat_div_distrib)
  then show "drop_bit 24 n AND 0x0f = 0" by simp
  have "byte_of 3 n = 0" using z by (simp add: byte_of_def)
  moreover have "ucast (drop_bit k n AND 0xff) = (ucast (drop_bit k n) :: u8)" for k
    unfolding and_0xFF by (rule bit_word_eqI) (auto simp: bit_simps)
  note this [of 0] this [of 8] this [of 16]
  ultimately show "join32 (ucast (n AND 0xff)) (ucast (drop_bit 8 n AND 0xff)) (ucast (drop_bit 16 n AND 0xff)) 0 = n"
    using join32_byte_of [of n] by (simp add: byte_of_def)
qed

lemma select_disk1: "(0xe0 OR ucast (push_bit 4 (1 :: u32))) AND 0x0f = (0 :: u8)" "bit (0xe0 OR ucast (push_bit 4 (1 :: u32)) :: u8) 4"
  by simp_all

lemma drive_start:
  fixes x :: buf and d0 :: drive and evs :: "ideev list"
  assumes "b_blockno x < 1000" "b_dev x = 1"
  defines "d \<equiv> drive_after d0 evs" and "d' \<equiv> drive_after d0 (evs @ start_events x)"
  shows "lba (regs d') = b_blockno x" "selected (regs d')"
    "regs d' 0x1f7 = (if b_flags x AND B_DIRTY \<noteq> 0 then 0x30 else 0x20)"
    "sectors d' True = (if b_flags x AND B_DIRTY \<noteq> 0 then (sectors d True)(b_blockno x := b_data x) else sectors d True)"
proof -
  note j = sector_join [OF assms(1)]
  show "lba (regs d') = b_blockno x"
    by (simp add: d'_def drive_after_def start_events_def Let_def lba_def assms(2) j)
  show "selected (regs d')"
    by (simp add: d'_def drive_after_def start_events_def Let_def selected_def assms(2) j)
  show "regs d' 0x1f7 = (if b_flags x AND B_DIRTY \<noteq> 0 then 0x30 else 0x20)"
    by (simp add: d'_def drive_after_def start_events_def Let_def)
  show "sectors d' True = (if b_flags x AND B_DIRTY \<noteq> 0 then (sectors d True)(b_blockno x := b_data x) else sectors d True)"
    by (simp add: d'_def d_def drive_after_def start_events_def Let_def lba_def selected_def assms(2) j)
qed

section \<open>The driver implements the memory disk\<close>

definition request_ok :: "buf \<Rightarrow> bool" where
  "request_ok x \<longleftrightarrow> holdingsleep (b_lock x) \<and> b_flags x AND (B_VALID OR B_DIRTY) \<noteq> B_VALID \<and>
     b_dev x = 1 \<and> b_blockno x < 1000"

text \<open>The requests \<open>xs\<close> wait, and the first one was started after the port writes \<open>evs\<close>.\<close>

definition ide_inv :: "idestate \<Rightarrow> nat list \<Rightarrow> ideev list \<Rightarrow> bool" where
  "ide_inv st xs evs \<longleftrightarrow> qlist (qnext st) (idequeue st) xs \<and> distinct xs \<and> havedisk1 st \<and>
     list_all (\<lambda>b. request_ok (ibufs st b)) xs \<and>
     ports st = evs @ (case xs of [] \<Rightarrow> [] | b # _ \<Rightarrow> start_events (ibufs st b))"

text \<open>The memory disk that stands for the driver: the sectors before the first request.\<close>

definition abs_disk :: "drive \<Rightarrow> idestate \<Rightarrow> ideev list \<Rightarrow> bstate" where
  "abs_disk d0 st evs =
     \<lparr>bufs = ibufs st, memdisk = sectors (drive_after d0 evs) True, disksize = 1000, written = [], mypid = 0\<rparr>"

lemma idewait_healthy: "healthy_disk d0 status insl \<Longrightarrow> idewait status evs c = Ok 0"
  by (simp add: healthy_disk_def idewait_def)

lemma idestart_healthy:
  "healthy_disk d0 status insl \<Longrightarrow> b_blockno (ibufs st b) < 1000 \<Longrightarrow>
   idestart status b st = Ok (st\<lparr>ports := ports st @ start_events (ibufs st b)\<rparr>)"
  by (simp add: idestart_def idewait_healthy not_le)

lemma submit_request:
  assumes "healthy_disk d0 status insl" "ide_inv st xs evs" "b \<notin> set xs" "request_ok (ibufs st b)"
  shows "\<exists>st'. ide_rw status b st = Ok st' \<and> ide_inv st' (xs @ [b]) evs \<and> ibufs st' = ibufs st"
proof -
  obtain s1 where s1: "append_request b st = Ok s1" "qlist (qnext s1) (idequeue s1) (xs @ [b])"
    "ibufs s1 = ibufs st" "ports s1 = ports st" "havedisk1 s1 = havedisk1 st"
    using append_request_queue [of st xs b] assms by (auto simp: ide_inv_def)
  have rw: "ide_rw status b st = (if idequeue s1 = Some b then idestart status b s1 else Ok s1)"
    using assms s1 by (simp add: ide_rw_def request_ok_def ide_inv_def)
  show ?thesis
  proof (cases xs)
    case Nil
    then have "ide_rw status b st = Ok (s1\<lparr>ports := ports s1 @ start_events (ibufs s1 b)\<rparr>)"
      using s1 rw idestart_healthy [OF assms(1), of s1 b] assms(4) by (simp add: request_ok_def)
    then show ?thesis using assms s1 Nil by (simp add: ide_inv_def)
  next
    case (Cons h ys)
    then have "ide_rw status b st = Ok s1" using s1 rw assms(3) by auto
    then show ?thesis using assms s1 Cons by (simp add: ide_inv_def)
  qed
qed

lemma flags_write: "((f :: u32) OR B_VALID) AND NOT B_DIRTY = (f AND NOT B_DIRTY) OR B_VALID"
  by (rule bit_word_eqI) (auto simp: bit_simps)

lemma flags_done: "((f :: u32) AND NOT B_DIRTY OR B_VALID) AND (B_VALID OR B_DIRTY) = B_VALID"
proof -
  have "NOT B_DIRTY AND (B_VALID OR B_DIRTY) = B_VALID" by simp
  then have "((f OR B_VALID) AND NOT B_DIRTY) AND (B_VALID OR B_DIRTY) = (f OR B_VALID) AND B_VALID" by (simp only: and.assoc)
  also have "\<dots> = B_VALID" by (rule bit_word_eqI) (auto simp: bit_simps)
  finally show ?thesis unfolding flags_write .
qed

lemma flags_clean: "(f :: u32) AND B_DIRTY = 0 \<Longrightarrow> f AND NOT B_DIRTY = f"
proof (rule bit_word_eqI)
  fix n
  assume "f AND B_DIRTY = 0"
  then have "\<not> (bit f n \<and> bit B_DIRTY n)" by (metis bit_and_iff bit_0_eq bot_apply bot_bool_def)
  then show "n < LENGTH(32) \<Longrightarrow> bit (f AND NOT B_DIRTY) n \<longleftrightarrow> bit f n" by (auto simp: bit_simps)
qed

lemmas flags_norm = flags_done [simplified] flags_write [simplified] flags_clean [simplified]

text \<open>The buffer when its request is finished.\<close>

definition finished :: "drive \<Rightarrow> buf \<Rightarrow> buf" where
  "finished d x =
     (if b_flags x AND B_DIRTY \<noteq> 0 then x\<lparr>b_flags := (b_flags x AND NOT B_DIRTY) OR B_VALID\<rparr>
      else x\<lparr>b_data := sectors d True (b_blockno x), b_flags := b_flags x OR B_VALID\<rparr>)"

lemma ideintr_head:
  assumes h: "healthy_disk d0 status insl" and i: "ide_inv st (b # xs) evs"
  shows "\<exists>st'. ideintr status insl st = Ok st' \<and>
    ibufs st' = (ibufs st)(b := finished (drive_after d0 (ports st)) (ibufs st b)) \<and> ide_inv st' xs (ports st)"
proof -
  let ?x = "ibufs st b" and ?y = "finished (drive_after d0 (ports st)) (ibufs st b)"
  have q: "idequeue st = Some b" "qlist (qnext st) (qnext st b) xs" "b \<notin> set xs" "distinct xs" "havedisk1 st"
    and r: "request_ok ?x" "list_all (\<lambda>b. request_ok (ibufs st b)) xs"
    and p: "ports st = evs @ start_events ?x"
    using i by (auto simp: ide_inv_def)
  have x: "b_blockno ?x < 1000" "b_dev ?x = 1" using r by (auto simp: request_ok_def)
  note d = drive_start [OF x, of d0 evs, folded p]
  have ins: "b_flags ?x AND B_DIRTY = 0 \<Longrightarrow> insl (ports st) = sectors (drive_after d0 (ports st)) True (b_blockno ?x)"
    using h d(1-3) by (auto simp: healthy_disk_def Let_def)
  define s1 where "s1 = st\<lparr>idequeue := qnext st b, ibufs := (ibufs st)(b := ?y)\<rparr>"
  have step: "ideintr status insl st = (case qnext st b of None \<Rightarrow> Ok s1 | Some n \<Rightarrow> idestart status n s1)"
    using q ins by (auto simp: ideintr_def idewait_healthy [OF h] finished_def s1_def flags_norm Let_def
        split: option.split)
  have same: "list_all (\<lambda>b. request_ok (ibufs s1 b)) xs" using r(2) q(3) by (auto simp: list_all_iff s1_def)
  show ?thesis
  proof (cases xs)
    case Nil
    then show ?thesis using q step same by (auto simp: ide_inv_def s1_def)
  next
    case (Cons c ys)
    then have c: "qnext st b = Some c" "b_blockno (ibufs s1 c) < 1000" using q same by (auto simp: request_ok_def)
    then have "ideintr status insl st = Ok (s1\<lparr>ports := ports s1 @ start_events (ibufs s1 c)\<rparr>)"
      using step idestart_healthy [OF h] by simp
    then show ?thesis using q same Cons by (auto simp: ide_inv_def s1_def)
  qed
qed

lemma iderw_finished:
  assumes "ide_inv st (b # xs) evs"
  shows "\<exists>s. iderw (abs_disk d0 st evs) b = Ok s \<and>
    bufs s = (ibufs st)(b := finished (drive_after d0 (ports st)) (ibufs st b)) \<and>
    memdisk s = sectors (drive_after d0 (ports st)) True"
proof -
  let ?x = "ibufs st b"
  have r: "request_ok ?x" and p: "ports st = evs @ start_events ?x" using assms by (auto simp: ide_inv_def)
  then have x: "b_blockno ?x < 1000" "b_dev ?x = 1" by (auto simp: request_ok_def)
  note d = drive_start [OF x, of d0 evs, folded p]
  show ?thesis using r x d(4)
    by (cases "b_flags ?x AND B_DIRTY = 0") (simp_all add: iderw_def abs_disk_def request_ok_def not_le finished_def Let_def)
qed

lemma finished_done: "b_flags (finished d x) AND (B_VALID OR B_DIRTY) = B_VALID"
proof -
  have "b_flags (finished d x) = b_flags x AND NOT B_DIRTY OR B_VALID"
    by (simp add: finished_def flags_norm)
  then show ?thesis by (simp only: flags_done)
qed

text \<open>C4. The interrupt-driven disk driver implements the memory disk.  On a disk without errors, with requests \<open>xs\<close>
  waiting: a new request is queued behind them and touches no buffer; an interrupt finishes exactly the first waiting
  request, and what it does to the buffers and to the sectors is what the memory disk's \<open>iderw\<close> does on that buffer at
  once; the process that waits for it sees it done, the other requests stay queued in order, and every buffer but that
  one is unchanged.  Without a request an interrupt does nothing.\<close>

theorem ide_refines_memide:
  assumes h: "healthy_disk d0 status insl" and i: "ide_inv st xs evs"
  shows "(b \<notin> set xs \<and> request_ok (ibufs st b) \<longrightarrow>
           (\<exists>st'. ide_rw status b st = Ok st' \<and> ide_inv st' (xs @ [b]) evs \<and> ibufs st' = ibufs st)) \<and>
         (xs = c # ys \<longrightarrow>
           (\<exists>st' s evs'. ideintr status insl st = Ok st' \<and> ide_inv st' ys evs' \<and> iderw (abs_disk d0 st evs) c = Ok s \<and>
              bufs s = bufs (abs_disk d0 st' evs') \<and> memdisk s = memdisk (abs_disk d0 st' evs') \<and> rw_done c st' \<and>
              (\<forall>a. a \<noteq> c \<longrightarrow> ibufs st' a = ibufs st a))) \<and>
         (xs = [] \<longrightarrow> ideintr status insl st = Ok st)"
proof (intro conjI impI)
  assume "b \<notin> set xs \<and> request_ok (ibufs st b)"
  then show "\<exists>st'. ide_rw status b st = Ok st' \<and> ide_inv st' (xs @ [b]) evs \<and> ibufs st' = ibufs st"
    using submit_request [OF h i] by simp
next
  assume xs: "xs = c # ys"
  from ideintr_head [OF h i [unfolded xs]] iderw_finished [OF i [unfolded xs], of d0] obtain st' s where
    "ideintr status insl st = Ok st'" "ide_inv st' ys (ports st)" "iderw (abs_disk d0 st evs) c = Ok s"
    "ibufs st' = (ibufs st)(c := finished (drive_after d0 (ports st)) (ibufs st c))"
    "bufs s = ibufs st'" "memdisk s = sectors (drive_after d0 (ports st)) True" by auto
  then show "\<exists>st' s evs'. ideintr status insl st = Ok st' \<and> ide_inv st' ys evs' \<and> iderw (abs_disk d0 st evs) c = Ok s \<and>
      bufs s = bufs (abs_disk d0 st' evs') \<and> memdisk s = memdisk (abs_disk d0 st' evs') \<and> rw_done c st' \<and>
      (\<forall>a. a \<noteq> c \<longrightarrow> ibufs st' a = ibufs st a)"
    by (intro exI [of _ st'] exI [of _ s] exI [of _ "ports st"]) (simp add: abs_disk_def rw_done_def finished_done [simplified])
next
  assume "xs = []"
  then show "ideintr status insl st = Ok st" using i by (simp add: ide_inv_def ideintr_def)
qed

text \<open>A disk of zeros, and a buffer that waits for block 5.\<close>

definition zero_drive :: drive where
  "zero_drive = \<lparr>regs = \<lambda>_. 0, sectors = \<lambda>_ _. replicate 512 0\<rparr>"

definition one_request :: idestate where
  "one_request =
     \<lparr>ibufs = \<lambda>_. \<lparr>b_flags = 0, b_dev = 1, b_blockno = 5, b_lock = \<lparr>sl_locked = True, sl_pid = 3\<rparr>, b_refcnt = 1, b_prev = 0,
        b_next = 0, b_data = []\<rparr>,
      qnext = \<lambda>_. None, idequeue = None, havedisk1 = True, ports = []\<rparr>"

lemma zero_drive_sectors: "sectors (drive_after zero_drive (start_events x)) True n = replicate 512 0"
  if "b_flags x AND B_DIRTY = 0"
  using that by (simp add: drive_after_def start_events_def zero_drive_def Let_def)

theorem ide_refines_memide_witness:
  "\<exists>st1 st2. ide_rw (\<lambda>_. 0x40) 7 one_request = Ok st1 \<and>
     ideintr (\<lambda>_. 0x40) (\<lambda>evs. let d = drive_after zero_drive evs in sectors d (selected (regs d)) (lba (regs d))) st1 = Ok st2 \<and>
     rw_done 7 st2 \<and> idequeue st2 = None"
proof -
  let ?insl = "\<lambda>evs. let d = drive_after zero_drive evs in sectors d (selected (regs d)) (lba (regs d))"
  have h: "healthy_disk zero_drive (\<lambda>_. 0x40) ?insl" by (simp add: healthy_disk_def Let_def)
  have i: "ide_inv one_request [] []" by (simp add: ide_inv_def one_request_def)
  have r: "request_ok (ibufs one_request 7)" by (simp add: request_ok_def one_request_def holdingsleep_def)
  from ide_refines_memide [OF h i, of 7] r obtain st1 where
    st1: "ide_rw (\<lambda>_. 0x40) 7 one_request = Ok st1" "ide_inv st1 [7] []" by auto
  from ide_refines_memide [OF h st1(2), of 0 7 "[]"] obtain st2 where
    "ideintr (\<lambda>_. 0x40) ?insl st1 = Ok st2" "rw_done 7 st2" "\<exists>evs'. ide_inv st2 [] evs'" by auto
  then show ?thesis using st1 by (auto simp: ide_inv_def)
qed

text \<open>C39. A read that the disk fails is reported as done: when the status has an error bit after a read, the interrupt
  handler leaves the buffer's bytes as they were and still marks the buffer valid, so the caller takes them for the
  block.\<close>

theorem ide_read_error_marked_valid:
  assumes "idequeue st = Some b" "qnext st b = None" "b_flags (ibufs st b) AND B_DIRTY = 0"
    "status (ports st) AND 0xC0 = 0x40" "status (ports st) AND 0x21 \<noteq> 0"
  shows "\<exists>st'. ideintr status insl st = Ok st' \<and> rw_done b st' \<and> b_data (ibufs st' b) = b_data (ibufs st b)"
  using assms by (simp add: ideintr_def idewait_def rw_done_def Let_def flags_done [simplified] flags_write [simplified])

theorem ide_read_error_marked_valid_witness:
  "\<exists>st1 st2. ide_rw (\<lambda>_. 0x40) 7 one_request = Ok st1 \<and> ideintr (\<lambda>_. 0x41) (\<lambda>_. replicate 512 9) st1 = Ok st2 \<and>
     rw_done 7 st2 \<and> b_data (ibufs st2 7) = []"
proof -
  have "ide_rw (\<lambda>_. 0x40) 7 one_request = Ok (one_request\<lparr>idequeue := Some 7, ports := start_events (ibufs one_request 7)\<rparr>)"
    by (simp add: ide_rw_def one_request_def holdingsleep_def append_request_def idestart_def idewait_def fun_upd_def Let_def)
  moreover from ide_read_error_marked_valid [of "one_request\<lparr>idequeue := Some 7, ports := start_events (ibufs one_request 7)\<rparr>" 7
      "\<lambda>_. 0x41" "\<lambda>_. replicate 512 9"]
  have "\<exists>st2. ideintr (\<lambda>_. 0x41) (\<lambda>_. replicate 512 9) (one_request\<lparr>idequeue := Some 7, ports := start_events (ibufs one_request 7)\<rparr>) = Ok st2 \<and>
    rw_done 7 st2 \<and> b_data (ibufs st2 7) = []"
    by (simp add: one_request_def)
  ultimately show ?thesis by blast
qed

end
