(* ===== verification/Pci.thy ===== *)
theory Pci
  imports Prelude
begin

text \<open>
  Access to the PCI configuration space: the structures of \<open>pci.h\<close>, the register macros of
  \<open>pciregisters.h\<close> and the part of \<open>pci.c\<close> that talks to one function of a device.  The hardware
  is a parameter: \<open>inl\<close> gives the word a port returns after a sequence of bus events, and the
  events of a routine are what it writes, in order.
\<close>

unbundle bit_operations_syntax

section \<open>Definitions\<close>

text \<open>
  What the drivers do to the hardware: a word to an I/O port, a word to a device register mapped
  into memory, and the two routing calls of the interrupt controllers.
\<close>

datatype event =
    Outl u16 u32
  | Mmio u32 u32
  | Picenable u8
  | Ioapicenable u8 nat

definition PCI_VENDOR :: "u32 \<Rightarrow> u32" where
  "PCI_VENDOR i = i AND 0xffff"

definition PCI_PRODUCT :: "u32 \<Rightarrow> u32" where
  "PCI_PRODUCT i = drop_bit 16 i AND 0xffff"

definition PCI_HDRTYPE :: "u32 \<Rightarrow> u32" where
  "PCI_HDRTYPE bhlcr = drop_bit 16 bhlcr AND 0xff"

definition PCI_HDRTYPE_TYPE :: "u32 \<Rightarrow> u32" where
  "PCI_HDRTYPE_TYPE bhlcr = PCI_HDRTYPE bhlcr AND 0x7f"

definition PCI_HDRTYPE_MULTIFN :: "u32 \<Rightarrow> bool" where
  "PCI_HDRTYPE_MULTIFN bhlcr \<longleftrightarrow> PCI_HDRTYPE bhlcr AND 0x80 \<noteq> 0"

definition PCI_INTERRUPT_PIN :: "u32 \<Rightarrow> u32" where
  "PCI_INTERRUPT_PIN icr = drop_bit 8 icr AND 0xff"

definition PCI_INTERRUPT_LINE :: "u32 \<Rightarrow> u32" where
  "PCI_INTERRUPT_LINE icr = icr AND 0xff"

definition PCI_CLASS :: "u32 \<Rightarrow> u32" where
  "PCI_CLASS cr = drop_bit 24 cr AND 0xff"

definition PCI_SUBCLASS :: "u32 \<Rightarrow> u32" where
  "PCI_SUBCLASS cr = drop_bit 16 cr AND 0xff"

definition PCI_MAPREG_NUM :: "u32 \<Rightarrow> nat" where
  "PCI_MAPREG_NUM offset = unat ((offset - 0x10) div 4)"

definition PCI_MAPREG_TYPE :: "u32 \<Rightarrow> u32" where
  "PCI_MAPREG_TYPE mr = mr AND 1"

definition PCI_MAPREG_MEM_TYPE :: "u32 \<Rightarrow> u32" where
  "PCI_MAPREG_MEM_TYPE mr = mr AND 6"

definition PCI_MAPREG_MEM_ADDR :: "u32 \<Rightarrow> u32" where
  "PCI_MAPREG_MEM_ADDR mr = mr AND 0xfffffff0"

definition PCI_MAPREG_MEM_SIZE :: "u32 \<Rightarrow> u32" where
  "PCI_MAPREG_MEM_SIZE mr = PCI_MAPREG_MEM_ADDR mr AND - PCI_MAPREG_MEM_ADDR mr"

definition PCI_MAPREG_IO_ADDR :: "u32 \<Rightarrow> u32" where
  "PCI_MAPREG_IO_ADDR mr = mr AND 0xfffffffc"

definition PCI_MAPREG_IO_SIZE :: "u32 \<Rightarrow> u32" where
  "PCI_MAPREG_IO_SIZE mr = PCI_MAPREG_IO_ADDR mr AND - PCI_MAPREG_IO_ADDR mr"

text \<open>The pointer to the bus is the number of the bus, the only field of it the code reads.\<close>

record pci_func =
  busno :: u32
  dev :: u32
  func :: u32
  dev_id :: u32
  dev_class :: u32
  reg_base :: "u32 list"
  reg_size :: "u32 list"
  irq_line :: u8
  irq_pin :: u8

definition pci_config_format_addr :: "u32 \<Rightarrow> u32 \<Rightarrow> u32 \<Rightarrow> u32 \<Rightarrow> u32" where
  "pci_config_format_addr bus_addr dev_addr func_addr offset =
     0x80000000 OR push_bit 16 bus_addr OR push_bit 11 dev_addr OR push_bit 8 func_addr OR offset"

definition conf_addr :: "pci_func \<Rightarrow> u32 \<Rightarrow> u32" where
  "conf_addr f reg = pci_config_format_addr (busno f) (dev f) (func f) reg"

definition pci_conf_read ::
  "(event list \<Rightarrow> u16 \<Rightarrow> u32) \<Rightarrow> pci_func \<Rightarrow> u32 \<Rightarrow> event list \<Rightarrow> u32 \<times> event list" where
  "pci_conf_read inl f reg evs =
     (let evs = evs @ [Outl 0xCF8 (conf_addr f reg)] in (inl evs 0xCFC, evs))"

definition pci_conf_write :: "pci_func \<Rightarrow> u32 \<Rightarrow> u32 \<Rightarrow> event list \<Rightarrow> event list" where
  "pci_conf_write f reg v evs = evs @ [Outl 0xCF8 (conf_addr f reg), Outl 0xCFC v]"

text \<open>
  One round of the loop over the base address registers: the width of the register, the function
  with the region recorded, and the bus.  A \<open>continue\<close> leaves the register as it reads.
\<close>

definition size_bar ::
  "(event list \<Rightarrow> u16 \<Rightarrow> u32) \<Rightarrow> u32 \<Rightarrow> pci_func \<Rightarrow> event list \<Rightarrow> u32 \<times> pci_func \<times> event list" where
  "size_bar inl bar f evs =
     (let (oldv, evs) = pci_conf_read inl f bar evs;
          evs = pci_conf_write f bar 0xffffffff evs;
          (rv, evs) = pci_conf_read inl f bar evs
      in if rv = 0 then (4, f, evs)
         else
           let regnum = PCI_MAPREG_NUM bar;
               mem_region = (PCI_MAPREG_TYPE rv = 0);
               bar_width = (if mem_region \<and> PCI_MAPREG_MEM_TYPE rv = 4 then 8 else 4);
               size = (if mem_region then PCI_MAPREG_MEM_SIZE rv else PCI_MAPREG_IO_SIZE rv);
               base = (if mem_region then PCI_MAPREG_MEM_ADDR oldv else PCI_MAPREG_IO_ADDR oldv);
               evs = pci_conf_write f bar oldv evs
           in (bar_width, f\<lparr>reg_base := (reg_base f)[regnum := base],
                           reg_size := (reg_size f)[regnum := size]\<rparr>, evs))"

lemma size_bar_width: "fst (size_bar inl bar f evs) \<in> {4, 8}"
  by (simp add: size_bar_def Let_def case_prod_beta)

lemma bar_step_less:
  assumes "bar < 0x28" "w \<in> {4, 8}"
  shows "0x30 - unat (bar + w) < 0x30 - unat (bar :: u32)"
proof -
  have "unat bar < 0x28" using assms(1) by (simp add: word_less_nat_alt)
  then show ?thesis using assms(2) by (auto simp: unat_word_ariths)
qed

function bar_loop ::
  "(event list \<Rightarrow> u16 \<Rightarrow> u32) \<Rightarrow> u32 \<Rightarrow> pci_func \<Rightarrow> event list \<Rightarrow> pci_func \<times> event list" where
  "bar_loop inl bar f evs =
     (if bar < 0x28
      then bar_loop inl (bar + fst (size_bar inl bar f evs)) (fst (snd (size_bar inl bar f evs)))
             (snd (snd (size_bar inl bar f evs)))
      else (f, evs))"
  by pat_completeness auto
termination
  by (relation "measure (\<lambda>(inl, bar, f, evs). 0x30 - unat bar)")
     (auto intro!: bar_step_less size_bar_width simp del: insert_iff)

declare bar_loop.simps [simp del]

definition pci_enable_device ::
  "(event list \<Rightarrow> u16 \<Rightarrow> u32) \<Rightarrow> pci_func \<Rightarrow> event list \<Rightarrow> pci_func \<times> event list" where
  "pci_enable_device inl f evs =
     (let evs = pci_conf_write f 0x04 (0x1 OR 0x2 OR 0x4) evs;
          (cmd, evs) = pci_conf_read inl f 0x04 evs
      in bar_loop inl 0x10 f evs)"

section \<open>Properties\<close>

text \<open>
  The documented behaviour of the configuration ports: a write to 0xCF8 selects a register, a write to
  0xCFC changes the bits of the selected register that \<open>wmask\<close> says are writable, and a read of 0xCFC
  returns it.
\<close>

record config =
  sel :: u32
  cregs :: "u32 \<Rightarrow> u32"

fun config_step :: "(u32 \<Rightarrow> u32) \<Rightarrow> event \<Rightarrow> config \<Rightarrow> config" where
  "config_step wmask (Outl p v) c =
     (if p = 0xCF8 then c\<lparr>sel := v\<rparr>
      else if p = 0xCFC
      then c\<lparr>cregs := (cregs c)(sel c := (v AND wmask (sel c)) OR (cregs c (sel c) AND NOT (wmask (sel c))))\<rparr>
      else c)"
| "config_step wmask _ c = c"

definition config_after :: "(u32 \<Rightarrow> u32) \<Rightarrow> config \<Rightarrow> event list \<Rightarrow> config" where
  "config_after wmask c evs = fold (config_step wmask) evs c"

definition config_ports :: "(u32 \<Rightarrow> u32) \<Rightarrow> config \<Rightarrow> (event list \<Rightarrow> u16 \<Rightarrow> u32) \<Rightarrow> bool" where
  "config_ports wmask c0 inl \<longleftrightarrow>
     (\<forall>evs. inl evs 0xCFC = cregs (config_after wmask c0 evs) (sel (config_after wmask c0 evs)))"

text \<open>
  A base address register: none, a 32-bit memory region or an I/O region of \<open>2 ^ k\<close> bytes.  The bits of
  the address above \<open>k\<close> are writable, the others are fixed and give the kind.
\<close>

datatype bar_kind = No_bar | Mem_bar u32 nat | Io_bar u32 nat

fun bar_ok :: "bar_kind \<Rightarrow> u32 \<Rightarrow> u32 \<Rightarrow> bool" where
  "bar_ok No_bar mk v \<longleftrightarrow> mk = 0 \<and> v = 0"
| "bar_ok (Mem_bar b k) mk v \<longleftrightarrow> 4 \<le> k \<and> k < 32 \<and> mk = NOT (mask k) \<and> b AND mask k = 0 \<and> v = b"
| "bar_ok (Io_bar b k) mk v \<longleftrightarrow> 2 \<le> k \<and> k < 32 \<and> mk = NOT (mask k) \<and> b AND mask k = 0 \<and> v = b OR 1"

fun region :: "bar_kind \<Rightarrow> u32 \<times> u32 \<Rightarrow> u32 \<times> u32" where
  "region No_bar old = old"
| "region (Mem_bar b k) old = (b, 2 ^ k)"
| "region (Io_bar b k) old = (b, 2 ^ k)"

lemma low_bits: "o1 < 256 \<Longrightarrow> take_bit 8 (conf_addr f o1) = o1"
proof -
  assume "o1 < 256"
  then have "take_bit 8 o1 = o1" by (simp add: take_bit_eq_mod word_unat_eq_iff unat_mod_distrib word_less_nat_alt)
  moreover have "take_bit 8 (conf_addr f o1) = take_bit 8 o1"
    by (rule bit_word_eqI) (auto simp: conf_addr_def pci_config_format_addr_def bit_simps)
  ultimately show ?thesis by simp
qed

lemma conf_addr_inj: "a < 256 \<Longrightarrow> b < 256 \<Longrightarrow> conf_addr f a = conf_addr f b \<longleftrightarrow> a = b"
  using low_bits by metis

subsection \<open>One register\<close>

lemma not_mask_size:
  assumes "k < 32"
  shows "NOT (mask k :: u32) AND - NOT (mask k) = 2 ^ k"
proof -
  have "- NOT (mask k :: u32) = 2 ^ k" by (simp add: minus_exp_eq_not_mask [symmetric])
  then show ?thesis using assms by (auto intro!: bit_word_eqI simp: bit_simps)
qed

lemma bar_read:
  assumes "bar_ok B mk v"
  defines "rv \<equiv> (0xffffffff AND mk) OR (v AND NOT mk)"
  shows "B = No_bar \<Longrightarrow> rv = 0"
    "B = Mem_bar b k \<Longrightarrow> rv \<noteq> 0 \<and> PCI_MAPREG_TYPE rv = 0 \<and> PCI_MAPREG_MEM_TYPE rv = 0 \<and> PCI_MAPREG_MEM_SIZE rv = 2 ^ k \<and>
       PCI_MAPREG_MEM_ADDR v = b"
    "B = Io_bar b k \<Longrightarrow> rv \<noteq> 0 \<and> PCI_MAPREG_TYPE rv \<noteq> 0 \<and> PCI_MAPREG_IO_SIZE rv = 2 ^ k \<and> PCI_MAPREG_IO_ADDR v = b"
    "(v AND mk) OR (rv AND NOT mk) = v"
proof -
  have ones: "(0xffffffff :: u32) = - 1" by simp
  show "B = No_bar \<Longrightarrow> rv = 0" using assms by simp
  show "(v AND mk) OR (rv AND NOT mk) = v"
    by (rule bit_word_eqI) (auto simp: rv_def bit_simps)
  have c4: "(0xfffffff0 :: u32) = NOT (mask 4)" and c2: "(0xfffffffc :: u32) = NOT (mask 2)"
    and c6: "mask 4 AND 6 = (6 :: u32)" by (simp_all add: mask_eq_exp_minus_1)
  {
    assume B: "B = Mem_bar b k"
    then have k: "4 \<le> k" "k < 32" and mk: "mk = NOT (mask k)" and b: "b AND mask k = 0" "v = b" using assms(1) by auto
    have rv: "rv = NOT (mask k)" using b unfolding rv_def ones mk by simp
    have bits: "\<not> bit b n" if "n < k" for n
    proof -
      have "bit (b AND mask k) n \<longleftrightarrow> bit b n" using that k by (simp add: bit_simps)
      then show ?thesis using b(1) by simp
    qed
    have addr: "PCI_MAPREG_MEM_ADDR rv = NOT (mask k)" "PCI_MAPREG_MEM_ADDR b = b"
      unfolding PCI_MAPREG_MEM_ADDR_def rv c4 using k bits by (auto intro!: bit_word_eqI simp: bit_simps)
    have "bit rv 31" using k by (simp add: rv bit_simps)
    then have "rv \<noteq> 0" by auto
    moreover have "PCI_MAPREG_TYPE rv = 0" using k unfolding PCI_MAPREG_TYPE_def rv by (simp add: and_one_eq mod_2_eq_odd even_not_iff even_mask_iff)
    moreover have "PCI_MAPREG_MEM_TYPE rv = 0"
    proof -
      have "NOT (mask k) AND mask 4 = (0 :: u32)" using k by (auto intro!: bit_word_eqI simp: bit_simps)
      then have "(NOT (mask k) AND mask 4) AND 6 = (0 :: u32)" by simp
      then show ?thesis by (simp only: PCI_MAPREG_MEM_TYPE_def rv and.assoc c6)
    qed
    ultimately show "rv \<noteq> 0 \<and> PCI_MAPREG_TYPE rv = 0 \<and> PCI_MAPREG_MEM_TYPE rv = 0 \<and> PCI_MAPREG_MEM_SIZE rv = 2 ^ k \<and>
       PCI_MAPREG_MEM_ADDR v = b"
      using addr not_mask_size [OF k(2)] b(2) by (simp add: PCI_MAPREG_MEM_SIZE_def)
  }
  {
    assume B: "B = Io_bar b k"
    then have k: "2 \<le> k" "k < 32" and mk: "mk = NOT (mask k)" and b: "b AND mask k = 0" "v = b OR 1" using assms(1) by auto
    have bits: "\<not> bit b n" if "n < k" for n
    proof -
      have "bit (b AND mask k) n \<longleftrightarrow> bit b n" using that k by (simp add: bit_simps)
      then show ?thesis using b(1) by simp
    qed
    have rv: "rv = NOT (mask k) OR 1"
      unfolding rv_def ones mk b(2) using bits k by (auto intro!: bit_word_eqI simp: bit_simps)
    have addr: "PCI_MAPREG_IO_ADDR rv = NOT (mask k)" "PCI_MAPREG_IO_ADDR v = b"
      unfolding PCI_MAPREG_IO_ADDR_def rv c2 b(2) using k bits by (auto intro!: bit_word_eqI simp: bit_simps)
    have "bit rv 31" "bit rv 0" using k by (simp_all add: rv bit_simps)
    then have "rv \<noteq> 0" "rv AND 1 \<noteq> 0" by (auto simp: and_exp_eq_0_iff_not_bit [of rv 0, simplified])
    then show "rv \<noteq> 0 \<and> PCI_MAPREG_TYPE rv \<noteq> 0 \<and> PCI_MAPREG_IO_SIZE rv = 2 ^ k \<and> PCI_MAPREG_IO_ADDR v = b"
      using addr not_mask_size [OF k(2)] by (simp add: PCI_MAPREG_IO_SIZE_def PCI_MAPREG_TYPE_def)
  }
qed

lemma conf_read:
  assumes "config_ports wmask c0 inl"
  shows "fst (pci_conf_read inl f reg evs) = cregs (config_after wmask c0 evs) (conf_addr f reg)"
    "cregs (config_after wmask c0 (snd (pci_conf_read inl f reg evs))) = cregs (config_after wmask c0 evs)"
  using assms by (simp_all add: pci_conf_read_def Let_def config_ports_def config_after_def)

lemma conf_write:
  "cregs (config_after wmask c0 (pci_conf_write f reg v evs)) =
     (let r = cregs (config_after wmask c0 evs); a = conf_addr f reg
      in r(a := (v AND wmask a) OR (r a AND NOT (wmask a))))"
  by (simp add: pci_conf_write_def Let_def config_after_def)

lemma bar_number: "i < 6 \<Longrightarrow> PCI_MAPREG_NUM (0x10 + 4 * of_nat i) = i"
proof -
  assume i: "i < 6"
  have "(4 * of_nat i :: u32) = of_nat (4 * i)" by simp
  moreover have "unat (of_nat (4 * i) div 4 :: u32) = i"
    using i by (simp add: unat_div_distrib unat_of_nat del: of_nat_mult)
  ultimately show ?thesis by (simp add: PCI_MAPREG_NUM_def)
qed

definition with_region :: "nat \<Rightarrow> bar_kind \<Rightarrow> pci_func \<Rightarrow> pci_func" where
  "with_region i B f =
     f\<lparr>reg_base := (reg_base f)[i := fst (region B (reg_base f ! i, reg_size f ! i))],
       reg_size := (reg_size f)[i := snd (region B (reg_base f ! i, reg_size f ! i))]\<rparr>"

lemma size_bar_region:
  assumes "config_ports wmask c0 inl" "i < 6"
    "bar_ok B (wmask (conf_addr f (0x10 + 4 * of_nat i))) (cregs (config_after wmask c0 evs) (conf_addr f (0x10 + 4 * of_nat i)))"
  shows "\<exists>evs'. size_bar inl (0x10 + 4 * of_nat i) f evs = (4, with_region i B f, evs') \<and>
    cregs (config_after wmask c0 evs') = cregs (config_after wmask c0 evs)"
proof -
  define a where "a = conf_addr f (0x10 + 4 * of_nat i)"
  define r where "r = cregs (config_after wmask c0 evs)"
  define e1 where "e1 = snd (pci_conf_read inl f (0x10 + 4 * of_nat i) evs)"
  define e2 where "e2 = pci_conf_write f (0x10 + 4 * of_nat i) 0xffffffff e1"
  define e3 where "e3 = snd (pci_conf_read inl f (0x10 + 4 * of_nat i) e2)"
  define e4 where "e4 = pci_conf_write f (0x10 + 4 * of_nat i) (r a) e3"
  define rv where "rv = (0xffffffff AND wmask a) OR (r a AND NOT (wmask a))"
  note rd = conf_read [OF assms(1)]
  have "pci_conf_read inl f (0x10 + 4 * of_nat i) evs = (r a, e1)"
    by (rule prod_eqI) (simp_all add: rd(1) e1_def r_def a_def)
  moreover have r2: "cregs (config_after wmask c0 e2) = r(a := rv)"
    by (simp add: e2_def conf_write e1_def rd(2) Let_def rv_def r_def [symmetric] a_def [symmetric])
  then have "pci_conf_read inl f (0x10 + 4 * of_nat i) e2 = (rv, e3)"
    by (intro prod_eqI) (simp_all add: rd(1) e3_def a_def [symmetric])
  moreover have r3: "cregs (config_after wmask c0 e3) = r(a := rv)" by (simp add: e3_def rd(2) r2)
  moreover note b = bar_read [OF assms(3), folded a_def r_def, folded rv_def]
  have "cregs (config_after wmask c0 e4) = r"
    using b(4) by (simp add: e4_def conf_write Let_def r3 a_def [symmetric])
  ultimately show ?thesis
  proof (cases B)
    case No_bar
    have "r(a := rv) = r"
      using assms(3) No_bar b(1) by (simp add: a_def [symmetric] r_def [symmetric] fun_upd_idem)
    with r3 have "cregs (config_after wmask c0 e3) = r" by simp
    moreover have "size_bar inl (0x10 + 4 * of_nat i) f evs = (4, f, e3)"
      using \<open>pci_conf_read inl f (0x10 + 4 * of_nat i) evs = (r a, e1)\<close> \<open>pci_conf_read inl f (0x10 + 4 * of_nat i) e2 = (rv, e3)\<close> b(1) No_bar
      by (simp add: size_bar_def e2_def [symmetric])
    ultimately show ?thesis using No_bar by (simp add: with_region_def r_def)
  next
    case (Mem_bar c k)
    have "size_bar inl (0x10 + 4 * of_nat i) f evs = (4, with_region i B f, e4)"
      using \<open>pci_conf_read inl f (0x10 + 4 * of_nat i) evs = (r a, e1)\<close> \<open>pci_conf_read inl f (0x10 + 4 * of_nat i) e2 = (rv, e3)\<close> b(2) [OF Mem_bar]
      by (simp add: size_bar_def e2_def [symmetric] e4_def [symmetric] Let_def Mem_bar with_region_def bar_number [OF assms(2)])
    then show ?thesis using \<open>cregs (config_after wmask c0 e4) = r\<close> by (simp add: r_def)
  next
    case (Io_bar c k)
    have "size_bar inl (0x10 + 4 * of_nat i) f evs = (4, with_region i B f, e4)"
      using \<open>pci_conf_read inl f (0x10 + 4 * of_nat i) evs = (r a, e1)\<close> \<open>pci_conf_read inl f (0x10 + 4 * of_nat i) e2 = (rv, e3)\<close> b(3) [OF Io_bar]
      by (simp add: size_bar_def e2_def [symmetric] e4_def [symmetric] Let_def Io_bar with_region_def bar_number [OF assms(2)])
    then show ?thesis using \<open>cregs (config_after wmask c0 e4) = r\<close> by (simp add: r_def)
  qed
qed

subsection \<open>All registers\<close>

lemma conf_addr_region [simp]: "conf_addr (with_region i B f) reg = conf_addr f reg"
  by (simp add: conf_addr_def with_region_def)

definition bars_ok :: "(u32 \<Rightarrow> u32) \<Rightarrow> (u32 \<Rightarrow> u32) \<Rightarrow> pci_func \<Rightarrow> (nat \<Rightarrow> bar_kind) \<Rightarrow> bool" where
  "bars_ok wmask r f Bs \<longleftrightarrow>
     (\<forall>i<6. bar_ok (Bs i) (wmask (conf_addr f (0x10 + 4 * of_nat i))) (r (conf_addr f (0x10 + 4 * of_nat i))))"

lemma bar_loop_regions:
  assumes "config_ports wmask c0 inl" "n \<le> 6" "bars_ok wmask (cregs (config_after wmask c0 evs)) f Bs"
  shows "\<exists>evs'. bar_loop inl (0x10 + 4 * of_nat (6 - n)) f evs = (fold (\<lambda>i. with_region i (Bs i)) [6 - n..<6] f, evs') \<and>
    cregs (config_after wmask c0 evs') = cregs (config_after wmask c0 evs)"
  using assms(2,3)
proof (induction n arbitrary: f evs)
  case 0
  then show ?case by (simp add: bar_loop.simps)
next
  case (Suc n)
  define i where "i = 6 - Suc n"
  have i: "i < 6" "6 - n = Suc i" using Suc.prems(1) by (auto simp: i_def)
  have lt: "(0x10 + 4 * of_nat i :: u32) < 0x28"
  proof -
    have "(0x10 + 4 * of_nat i :: u32) = of_nat (16 + 4 * i)" by simp
    then show ?thesis using i(1) by (simp only: word_less_nat_alt unat_of_nat) simp
  qed
  obtain e1 where e1: "size_bar inl (0x10 + 4 * of_nat i) f evs = (4, with_region i (Bs i) f, e1)"
    "cregs (config_after wmask c0 e1) = cregs (config_after wmask c0 evs)"
    using size_bar_region [OF assms(1) i(1), of "Bs i" f evs] Suc.prems(2) i(1) by (auto simp: bars_ok_def)
  have next_bar: "0x10 + 4 * of_nat i + 4 = (0x10 + 4 * of_nat (6 - n) :: u32)" by (simp add: i(2))
  have "\<exists>evs'. bar_loop inl (0x10 + 4 * of_nat (6 - n)) (with_region i (Bs i) f) e1 =
      (fold (\<lambda>i. with_region i (Bs i)) [6 - n..<6] (with_region i (Bs i) f), evs') \<and>
      cregs (config_after wmask c0 evs') = cregs (config_after wmask c0 e1)"
    using Suc.prems e1(2) by (intro Suc.IH) (simp_all add: bars_ok_def)
  then obtain e2 where e2: "bar_loop inl (0x10 + 4 * of_nat (6 - n)) (with_region i (Bs i) f) e1 =
      (fold (\<lambda>i. with_region i (Bs i)) [6 - n..<6] (with_region i (Bs i) f), e2)"
    "cregs (config_after wmask c0 e2) = cregs (config_after wmask c0 e1)" by blast
  have "bar_loop inl (0x10 + 4 * of_nat i) f evs = (fold (\<lambda>i. with_region i (Bs i)) [6 - n..<6] (with_region i (Bs i) f), e2)"
    unfolding bar_loop.simps [of inl "0x10 + 4 * of_nat i"] e1(1) fst_conv snd_conv next_bar e2(1) using lt by (simp only: if_True)
  moreover have "[i..<6] = i # [6 - n..<6]" using i by (simp add: upt_conv_Cons)
  ultimately show ?case unfolding i_def [symmetric] using e1(2) e2(2) by auto
qed

lemma with_region_nth:
  assumes "x < length (reg_base f)" "x < length (reg_size f)"
  shows "reg_base (with_region x B f) ! i = (if i = x then fst (region B (reg_base f ! x, reg_size f ! x)) else reg_base f ! i)"
    "reg_size (with_region x B f) ! i = (if i = x then snd (region B (reg_base f ! x, reg_size f ! x)) else reg_size f ! i)"
  using assms by (simp_all add: with_region_def)

lemma with_region_length [simp]:
  "length (reg_base (with_region x B f)) = length (reg_base f)" "length (reg_size (with_region x B f)) = length (reg_size f)"
  by (simp_all add: with_region_def)

lemma regions_nth:
  assumes "length (reg_base f) = 6" "length (reg_size f) = 6" "distinct xs" "set xs \<subseteq> {..<6}" "i < 6"
  shows "(reg_base (fold (\<lambda>i. with_region i (Bs i)) xs f) ! i, reg_size (fold (\<lambda>i. with_region i (Bs i)) xs f) ! i) =
    (if i \<in> set xs then region (Bs i) (reg_base f ! i, reg_size f ! i) else (reg_base f ! i, reg_size f ! i))"
  using assms
proof (induction xs arbitrary: f)
  case (Cons x xs)
  have "(reg_base (fold (\<lambda>i. with_region i (Bs i)) xs (with_region x (Bs x) f)) ! i,
         reg_size (fold (\<lambda>i. with_region i (Bs i)) xs (with_region x (Bs x) f)) ! i) =
    (if i \<in> set xs then region (Bs i) (reg_base (with_region x (Bs x) f) ! i, reg_size (with_region x (Bs x) f) ! i)
     else (reg_base (with_region x (Bs x) f) ! i, reg_size (with_region x (Bs x) f) ! i))"
    using Cons.prems by (intro Cons.IH) simp_all
  then show ?case using Cons.prems by (cases "i = x") (simp_all add: with_region_nth)
qed simp

text \<open>C7. Probing a device finds its regions and leaves it as it was.  On hardware with the documented behaviour of the PCI ports,
  enabling a function whose base address registers are absent, 32-bit memory that is not prefetchable, or I/O, like those
  of the network card, records for each of the six exactly the base and the size of the region behind it; afterwards every configuration register holds what it held before, except the command register,
  in which I/O, memory and bus mastering are switched on as far as its bits are writable.\<close>

theorem pci_enable_device_regions:
  assumes "config_ports wmask c0 inl" "bars_ok wmask (cregs (config_after wmask c0 evs)) f Bs"
    "length (reg_base f) = 6" "length (reg_size f) = 6" "pci_enable_device inl f evs = (f', evs')"
  shows "(\<forall>i<6. (reg_base f' ! i, reg_size f' ! i) = region (Bs i) (reg_base f ! i, reg_size f ! i)) \<and>
    (let r = cregs (config_after wmask c0 evs); r' = cregs (config_after wmask c0 evs'); a = conf_addr f 0x04
     in (\<forall>x. x \<noteq> a \<longrightarrow> r' x = r x) \<and> r' a = (0x7 AND wmask a) OR (r a AND NOT (wmask a)))"
proof -
  define e1 where "e1 = pci_conf_write f 0x04 0x7 evs"
  define e2 where "e2 = snd (pci_conf_read inl f 0x04 e1)"
  have f': "bar_loop inl 0x10 f e2 = (f', evs')"
    using assms(5) by (simp add: pci_enable_device_def Let_def case_prod_beta e2_def e1_def)
  have r2: "cregs (config_after wmask c0 e2) = cregs (config_after wmask c0 e1)" by (simp add: e2_def conf_read(2) [OF assms(1)])
  have other: "conf_addr f (0x10 + 4 * of_nat i) \<noteq> conf_addr f 0x04" if "i < 6" for i
  proof -
    have u: "(0x10 + 4 * of_nat i :: u32) = of_nat (16 + 4 * i)" by simp
    have "(0x10 + 4 * of_nat i :: u32) < 256" "(0x10 + 4 * of_nat i :: u32) \<noteq> 4"
      unfolding u using that by (simp_all only: word_less_nat_alt word_unat_eq_iff unat_of_nat) simp_all
    then show ?thesis by (simp add: conf_addr_inj)
  qed
  have "bars_ok wmask (cregs (config_after wmask c0 e2)) f Bs"
    using assms(2) other by (simp add: bars_ok_def r2 e1_def conf_write Let_def)
  from bar_loop_regions [OF assms(1) _ this, of 6] f'
  have f'_eq: "f' = fold (\<lambda>i. with_region i (Bs i)) [0..<6] f" and r': "cregs (config_after wmask c0 evs') = cregs (config_after wmask c0 e2)"
    by auto
  have "(reg_base f' ! i, reg_size f' ! i) = region (Bs i) (reg_base f ! i, reg_size f ! i)" if "i < 6" for i
    using regions_nth [OF assms(3,4) _ _ that, of "[0..<6]" Bs] that
    by (simp add: f'_eq atLeast0LessThan del: upt_rec_numeral)
  then show ?thesis by (simp add: r' r2 e1_def conf_write Let_def)
qed

text \<open>A network card: 128 KB of memory at 0xfebc0000 and 64 ports at 0xc000.\<close>

definition some_func :: pci_func where
  "some_func = \<lparr>busno = 0, dev = 3, func = 0, dev_id = 0, dev_class = 0, reg_base = replicate 6 0, reg_size = replicate 6 0, irq_line = 0, irq_pin = 0\<rparr>"

definition some_bars :: "nat \<Rightarrow> bar_kind" where
  "some_bars i = (if i = 0 then Mem_bar 0xfebc0000 17 else if i = 1 then Io_bar 0xc000 6 else No_bar)"

definition some_wmask :: "u32 \<Rightarrow> u32" where
  "some_wmask a = (if a = 0x80001810 then NOT (mask 17) else if a = 0x80001814 then NOT (mask 6) else if a = 0x80001804 then 0x7 else 0)"

definition some_config :: config where
  "some_config = \<lparr>sel = 0, cregs = \<lambda>a. if a = 0x80001810 then 0xfebc0000 else if a = 0x80001814 then 0xc001 else 0\<rparr>"

theorem pci_enable_device_regions_witness:
  "let inl = (\<lambda>evs p. cregs (config_after some_wmask some_config evs) (sel (config_after some_wmask some_config evs)))
   in reg_base (fst (pci_enable_device inl some_func [])) ! 0 = 0xfebc0000 \<and>
      reg_size (fst (pci_enable_device inl some_func [])) ! 0 = 0x20000 \<and>
      reg_base (fst (pci_enable_device inl some_func [])) ! 1 = 0xc000 \<and>
      reg_size (fst (pci_enable_device inl some_func [])) ! 1 = 64"
proof -
  define inl :: "event list \<Rightarrow> u16 \<Rightarrow> u32" where
    "inl = (\<lambda>evs p. cregs (config_after some_wmask some_config evs) (sel (config_after some_wmask some_config evs)))"
  have p: "config_ports some_wmask some_config inl" by (simp add: config_ports_def inl_def)
  have b: "bars_ok some_wmask (cregs (config_after some_wmask some_config [])) some_func some_bars"
    unfolding bars_ok_def
  proof (intro allI impI)
    fix i :: nat
    assume "i < 6"
    then consider "i = 0" | "i = 1" | "i = 2" | "i = 3" | "i = 4" | "i = 5" by linarith
    then show "bar_ok (some_bars i) (some_wmask (conf_addr some_func (0x10 + 4 * of_nat i)))
        (cregs (config_after some_wmask some_config []) (conf_addr some_func (0x10 + 4 * of_nat i)))"
      by cases (simp_all add: some_bars_def some_wmask_def some_func_def conf_addr_def pci_config_format_addr_def config_after_def
          some_config_def mask_eq_exp_minus_1)
  qed
  have l: "length (reg_base some_func) = 6" "length (reg_size some_func) = 6" by (simp_all add: some_func_def)
  obtain f' evs' where f': "pci_enable_device inl some_func [] = (f', evs')" by fastforce
  note r = conjunct1 [OF pci_enable_device_regions [OF p b l f']]
  from r [rule_format, of 0] r [rule_format, of 1] show ?thesis
    unfolding inl_def [symmetric] Let_def f' by (simp add: some_bars_def)
qed

end
