(* ===== verification/ArpFrame.thy ===== *)
theory ArpFrame
  imports CString
begin

text \<open>
  Ethernet and ARP frames: \<open>arp_frame.c\<close> and \<open>arp_frame.h\<close>.  A buffer a routine only fills is
  the list of bytes it writes there; a frame is the record of \<open>struct ethr_hdr\<close>, and
  \<open>ethr_bytes\<close> is its image in memory, which is what the driver puts on the wire.
\<close>

unbundle bit_operations_syntax

section \<open>Definitions\<close>

record ethr_hdr =
  dmac :: "u8 list"
  smac :: "u8 list"
  ethr_type :: u16
  hwtype :: u16
  protype :: u16
  hwsize :: u8
  prosize :: u8
  opcode :: u16
  arp_smac :: "u8 list"
  sip :: u32
  arp_dmac :: "u8 list"
  dip :: u16
  dip2 :: u16
  padd :: u16

definition hex_to_int :: "u8 \<Rightarrow> u32" where
  "hex_to_int ch =
     (if 48 \<le> ch \<and> ch \<le> 57 then ucast ch - 48
      else if 65 \<le> ch \<and> ch \<le> 70 then 10 + (ucast ch - 65)
      else if 97 \<le> ch \<and> ch \<le> 102 then 10 + (ucast ch - 97)
      else 0)"

function pack_mac_loop :: "u8 list \<Rightarrow> nat \<Rightarrow> u8 list res" where
  "pack_mac_loop src i =
     (if i < 17
      then bindr (idx src i) (\<lambda>c1.
           bindr (idx src (i + 1)) (\<lambda>c2.
           bindr (pack_mac_loop src (i + 3)) (\<lambda>rest.
           Ok (ucast (push_bit 4 (hex_to_int c1) + hex_to_int c2) # rest))))
      else Ok [])"
  by pat_completeness auto
termination
  by (relation "measure (\<lambda>(src, i). 17 - i)") auto

text \<open>The six bytes \<open>pack_mac\<close> writes at \<open>dest\<close>.\<close>

definition pack_mac :: "u8 list \<Rightarrow> u8 list res" where
  "pack_mac src = pack_mac_loop src 0"

text \<open>
  \<open>get_ip\<close> keeps the characters of the current octet in \<open>arr[4]\<close> and the octets in
  \<open>ip_vals[4]\<close>; both are the lists of what has been written so far.
\<close>

definition put_octet :: "u8 list \<Rightarrow> u32 list \<Rightarrow> u32 list res" where
  "put_octet arr ip_vals =
     (if length arr < 4
      then bindr (atoi (arr @ [0])) (\<lambda>v.
             if length ip_vals < 4 then Ok (ip_vals @ [of_int v]) else Undef ''index'')
      else Undef ''index'')"

fun get_ip_loop :: "u8 list \<Rightarrow> u8 list \<Rightarrow> u32 list \<Rightarrow> (u8 list \<times> u32 list) res" where
  "get_ip_loop [] arr ip_vals = Ok (arr, ip_vals)"
| "get_ip_loop (ch # cs) arr ip_vals =
     (if ch = 46 then bindr (put_octet arr ip_vals) (\<lambda>ip_vals. get_ip_loop cs [] ip_vals)
      else if length arr < 4 then get_ip_loop cs (arr @ [ch]) ip_vals
      else Undef ''index'')"

definition get_ip :: "u8 list \<Rightarrow> nat \<Rightarrow> u32 res" where
  "get_ip ip len =
     (if len \<le> length ip
      then bindr (get_ip_loop (take len ip) [] []) (\<lambda>(arr, ip_vals).
           bindr (put_octet arr ip_vals) (\<lambda>ip_vals.
           bindr (idx ip_vals 3) (\<lambda>v3. bindr (idx ip_vals 2) (\<lambda>v2.
           bindr (idx ip_vals 1) (\<lambda>v1. bindr (idx ip_vals 0) (\<lambda>v0.
           Ok (push_bit 24 v3 + push_bit 16 v2 + push_bit 8 v1 + v0)))))))
      else Undef ''index'')"

definition htons :: "u16 \<Rightarrow> u16" where
  "htons v = drop_bit 8 v OR push_bit 8 v"

definition htonl :: "u32 \<Rightarrow> u32" where
  "htonl v = ucast (htons (ucast (drop_bit 16 v))) OR push_bit 16 (ucast (htons (ucast v)))"

definition BROADCAST_MAC :: "u8 list" where
  "BROADCAST_MAC = ascii ''FF:FF:FF:FF:FF:FF'' @ [0]"

definition create_eth_arp_frame :: "u8 list \<Rightarrow> u8 list \<Rightarrow> ethr_hdr \<Rightarrow> ethr_hdr res" where
  "create_eth_arp_frame mac ipAddr eth =
     (if length mac < 6 then Undef ''index''
      else
        bindr (pack_mac BROADCAST_MAC) (\<lambda>bcast.
        bindr (get_ip (ascii ''192.168.1.1'') (length (ascii ''192.168.1.1''))) (\<lambda>own.
        bindr (get_ip ipAddr (length ipAddr)) (\<lambda>target.
        Ok (eth\<lparr>dmac := bcast, smac := take 6 mac, ethr_type := htons 0x0806,
                hwtype := htons 1, protype := htons 0x0800, hwsize := 0x06, prosize := 0x04,
                opcode := htons 1, arp_smac := take 6 mac, arp_dmac := bcast, sip := own,
                dip := ucast target, dip2 := ucast (drop_bit 16 target)\<rparr>)))))"

text \<open>The image of the structure in memory: no field needs padding before it.\<close>

definition ethr_bytes :: "ethr_hdr \<Rightarrow> u8 list" where
  "ethr_bytes e =
     dmac e @ smac e @ le16 (ethr_type e) @ le16 (hwtype e) @ le16 (protype e) @
     [hwsize e, prosize e] @ le16 (opcode e) @ arp_smac e @ le32 (sip e) @ arp_dmac e @
     le16 (dip e) @ le16 (dip2 e) @ le16 (padd e)"

definition int_to_hex :: "u32 \<Rightarrow> u8" where
  "int_to_hex n =
     (if 0 \<le> n \<and> n \<le> 9 then 48 + ucast n
      else if 10 \<le> n \<and> n \<le> 15 then 65 + (ucast n - 10)
      else 48)"

function unpack_mac_loop :: "u8 list \<Rightarrow> nat \<Rightarrow> u8 list res" where
  "unpack_mac_loop mac i =
     (if i < 6
      then bindr (idx mac i) (\<lambda>m.
             let i2 = ucast m AND 0x0f; i1 = drop_bit 4 (ucast m AND 0xf0)
             in bindr (unpack_mac_loop mac (i + 1)) (\<lambda>rest.
                Ok (int_to_hex i1 # int_to_hex i2 # 58 # rest)))
      else Ok [])"
  by pat_completeness auto
termination
  by (relation "measure (\<lambda>(mac, i). 6 - i)") auto

text \<open>The bytes \<open>unpack_mac\<close> writes at \<open>mac_str\<close>; the last colon becomes the NUL.\<close>

definition unpack_mac :: "u8 list \<Rightarrow> u8 list res" where
  "unpack_mac mac = bindr (unpack_mac_loop mac 0) (\<lambda>s. Ok (s[length s - 1 := 0]))"

text \<open>
  \<open>parse_ip\<close>: the first loop runs once (it counts down from 0) and stores the value of
  \<open>ip && v\<close>, a truth value, in \<open>ip_vals[0]\<close>; the other three entries keep what the stack held,
  the argument \<open>stack\<close>.
\<close>

definition parse_ip_vals :: "u32 list \<Rightarrow> u32 \<Rightarrow> u32 list" where
  "parse_ip_vals stack ip = stack[0 := (if ip \<noteq> 0 \<and> (255 :: u32) \<noteq> 0 then 1 else 0)]"

function parse_ip_digits :: "u32 \<Rightarrow> u8 list \<Rightarrow> u8 list res" where
  "parse_ip_digits ip1 arr =
     (if ip1 > 0
      then if length arr < 3 then parse_ip_digits (ip1 div 10) (arr @ [ucast (ip1 mod 10) + 48])
           else Undef ''index''
      else Ok arr)"
  by pat_completeness auto
termination
  by (relation "measure (\<lambda>(ip1, arr). 4 - length arr)") auto

fun parse_ip_loop :: "u32 list \<Rightarrow> u8 list res" where
  "parse_ip_loop [] = Ok []"
| "parse_ip_loop (ip1 # ip_vals) =
     (if ip1 = 0 then bindr (parse_ip_loop ip_vals) (\<lambda>rest. Ok (48 # 58 # rest))
      else bindr (parse_ip_digits ip1 []) (\<lambda>arr.
           bindr (parse_ip_loop ip_vals) (\<lambda>rest. Ok (rev arr @ 58 # rest))))"

definition parse_ip :: "u32 list \<Rightarrow> u32 \<Rightarrow> u8 list res" where
  "parse_ip stack ip =
     (if length stack = 4
      then bindr (parse_ip_loop (parse_ip_vals stack ip)) (\<lambda>s. Ok (s[length s - 1 := 0]))
      else Undef ''stack'')"

text \<open>What \<open>parse_arp_reply\<close> prints: one of its messages, or the sender's address.\<close>

datatype arp_output = Msg string | Mac "u8 list"

definition parse_arp_reply :: "u32 list \<Rightarrow> ethr_hdr \<Rightarrow> arp_output res" where
  "parse_arp_reply stack eth =
     (if ethr_type eth \<noteq> 0x0806 then Ok (Msg ''Not an ARP packet'')
      else if protype eth \<noteq> 0x0800 then Ok (Msg ''Not IPV4 protocol'')
      else if opcode eth \<noteq> 2 then Ok (Msg ''Not an ARP reply'')
      else
        bindr (unpack_mac (arp_dmac eth)) (\<lambda>dst_mac.
        bindr (strcmp (ascii ''FF:FF:FF:FF:FF:FF'' @ [0]) dst_mac) (\<lambda>c.
        if c \<noteq> 0 then Ok (Msg ''Not the intended recipient'')
        else
          bindr (parse_ip stack (ucast (dip eth))) (\<lambda>dst_ip.
          if length dst_ip > 16 then Undef ''index''
          else
            bindr (strcmp (ascii ''255.255.255.255'' @ [0]) dst_ip) (\<lambda>c.
            if c \<noteq> 0 then Ok (Msg ''Not the intended recipient'')
            else bindr (unpack_mac (arp_smac eth)) (\<lambda>mac. Ok (Mac mac)))))))"

declare pack_mac_loop.simps [simp del] unpack_mac_loop.simps [simp del]
  parse_ip_digits.simps [simp del]

section \<open>Properties\<close>

subsection \<open>Hardware addresses\<close>

lemma hex_to_int_int_to_hex: "n < 16 \<Longrightarrow> hex_to_int (int_to_hex n) = n"
proof -
  assume "n < 16"
  then have "unat n \<in> {0..<16}" by (simp add: word_less_nat_alt)
  then have "(of_nat (unat n) :: u32) \<in> of_nat ` {0..<16}" by (rule imageI)
  then have "n \<in> of_nat ` {0..<16}" by simp
  then have "n \<in> {0, 1, 2, 3, 4, 5, 6, 7, 8, 9, 10, 11, 12, 13, 14, 15}"
    by (simp add: atLeastLessThan_nat_numeral lessThan_atLeast0) blast
  then show ?thesis
    unfolding insert_iff empty_iff
    by (elim disjE) (simp_all add: hex_to_int_def int_to_hex_def)
qed

lemma low_nibble: "(ucast m AND 0x0f :: u32) = take_bit 4 (ucast (m :: u8))"
  by (simp add: take_bit_eq_mask mask_eq_exp_minus_1)

lemma high_nibble: "drop_bit 4 (ucast m AND 0xf0 :: u32) = drop_bit 4 (ucast (m :: u8))"
proof -
  have "(0xf0 :: u32) = push_bit 4 (mask 4)" by (simp add: mask_eq_exp_minus_1)
  then have "drop_bit 4 (ucast m AND 0xf0 :: u32) = drop_bit 4 (ucast m AND push_bit 4 (mask 4))"
    by (simp only:)
  also have "\<dots> = drop_bit 4 (ucast m)"
    by (rule bit_word_eqI) (auto simp: bit_simps not_less dest: bit_imp_le_length)
  finally show ?thesis .
qed

lemma high_nibble': "drop_bit 4 (ucast (m :: u8)) AND 15 = (drop_bit 4 (ucast m) :: u32)"
  using high_nibble [of m] by simp

lemma nibbles_join:
  "ucast (push_bit 4 (drop_bit 4 (ucast m)) + take_bit 4 (ucast m) :: u32) = (m :: u8)"
  by (simp add: bits_ident)

lemma nibble_bounds:
  "drop_bit 4 (ucast (m :: u8)) < (16 :: u32)" "take_bit 4 (ucast (m :: u8)) < (16 :: u32)"
proof -
  have "unat m < 256" by simp
  then have "unat m div 16 < 16" by linarith
  then show "drop_bit 4 (ucast (m :: u8)) < (16 :: u32)"
    by (simp add: word_less_nat_alt drop_bit_eq_div unat_div_distrib)
  show "take_bit 4 (ucast (m :: u8)) < (16 :: u32)"
    by (simp add: word_less_nat_alt take_bit_eq_mod unat_mod_distrib)
qed

lemma length6E:
  assumes "length xs = 6"
  obtains a b c d e f where "xs = [a, b, c, d, e, f]"
  using assms by (auto simp: length_Suc_conv numeral_eq_Suc)

text \<open>One address byte as its two hexadecimal digits.\<close>

definition hex_byte :: "u8 \<Rightarrow> u8 list" where
  "hex_byte m = [int_to_hex (drop_bit 4 (ucast m)), int_to_hex (take_bit 4 (ucast m))]"

lemma unpack_mac_eq:
  "unpack_mac [a, b, c, d, e, f] =
     Ok (hex_byte a @ [58] @ hex_byte b @ [58] @ hex_byte c @ [58] @ hex_byte d @ [58] @
         hex_byte e @ [58] @ hex_byte f @ [0])"
  by (simp add: unpack_mac_def unpack_mac_loop.simps hex_byte_def Let_def low_nibble high_nibble')

lemma unpack_mac_length: "length mac = 6 \<Longrightarrow> \<exists>s. unpack_mac mac = Ok s \<and> length s = 18"
  by (erule length6E) (simp add: unpack_mac_eq hex_byte_def)

lemma pack_unpack_mac: "length mac = 6 \<Longrightarrow> bindr (unpack_mac mac) pack_mac = Ok mac"
  by (erule length6E)
    (simp add: unpack_mac_eq hex_byte_def pack_mac_def pack_mac_loop.simps
      hex_to_int_int_to_hex nibble_bounds nibbles_join)

lemma pack_broadcast: "pack_mac BROADCAST_MAC = Ok [0xFF, 0xFF, 0xFF, 0xFF, 0xFF, 0xFF]"
  by (simp add: BROADCAST_MAC_def ascii_def pack_mac_def pack_mac_loop.simps hex_to_int_def)

subsection \<open>Protocol addresses\<close>

text \<open>Decimal digits of an octet, and a dotted address.\<close>

definition dec :: "nat \<Rightarrow> u8 list" where
  "dec k =
     (if k < 10 then [48 + of_nat k]
      else if k < 100 then [48 + of_nat (k div 10), 48 + of_nat (k mod 10)]
      else [48 + of_nat (k div 100), 48 + of_nat (k div 10 mod 10), 48 + of_nat (k mod 10)])"

definition dotted :: "u8 \<Rightarrow> u8 \<Rightarrow> u8 \<Rightarrow> u8 \<Rightarrow> u8 list" where
  "dotted a b c d = dec (unat a) @ 46 # dec (unat b) @ 46 # dec (unat c) @ 46 # dec (unat d)"

lemma digit_char:
  assumes "k < 10"
  shows "48 \<le> (48 + of_nat k :: u8)" "(48 + of_nat k :: u8) \<le> 57" "uint (48 + of_nat k :: u8) = 48 + int k"
    "(48 + of_nat k :: u8) \<noteq> 46"
proof -
  have u: "unat (48 + of_nat k :: u8) = 48 + k"
    using assms by (simp add: unat_word_ariths unat_of_nat)
  show "48 \<le> (48 + of_nat k :: u8)" "(48 + of_nat k :: u8) \<le> 57"
    using assms u by (simp_all add: word_le_nat_alt)
  show "uint (48 + of_nat k :: u8) = 48 + int k"
    using u by (simp add: uint_nat)
  show "(48 + of_nat k :: u8) \<noteq> 46"
  proof
    assume "(48 + of_nat k :: u8) = 46"
    then have "unat (48 + of_nat k :: u8) = unat (46 :: u8)" by (rule arg_cong)
    with u show False by simp
  qed
qed

lemma atoi_loop_digit:
  "k < 10 \<Longrightarrow> 0 \<le> n \<Longrightarrow> n \<le> 1000 \<Longrightarrow>
   atoi_loop ((48 + of_nat k) # cs) n = atoi_loop cs (n * 10 + int k)"
  by (simp add: digit_char)

lemma atoi_digits:
  assumes "a < 10" "b < 10" "c < 10"
  shows "atoi [48 + of_nat a, 0] = Ok (int a)"
    and "atoi [48 + of_nat a, 48 + of_nat b, 0] = Ok (int (a * 10 + b))"
    and "atoi [48 + of_nat a, 48 + of_nat b, 48 + of_nat c, 0] = Ok (int ((a * 10 + b) * 10 + c))"
  using assms by (simp_all add: atoi_def digit_char)

lemma atoi_dec:
  assumes "k < 1000"
  shows "atoi (dec k @ [0]) = Ok (int k)"
proof -
  have a: "k div 100 < 10" using assms by (simp add: less_mult_imp_div_less)
  have b: "k < 100 \<Longrightarrow> k div 10 < 10" by (simp add: less_mult_imp_div_less)
  have "k div 100 = k div 10 div 10" by (simp flip: div_mult2_eq)
  then have k3: "(k div 100 * 10 + k div 10 mod 10) * 10 + k mod 10 = k" by simp
  have k2: "k div 10 * 10 + k mod 10 = k" by simp
  show ?thesis
    using atoi_digits [of k 0 0] atoi_digits [of "k div 10" "k mod 10" 0]
      atoi_digits [of "k div 100" "k div 10 mod 10" "k mod 10"] a b k2 k3
    by (simp add: dec_def)
qed

lemma dec_props:
  assumes "k < 1000"
  shows "length (dec k) \<le> 3" "46 \<notin> set (dec k)"
proof -
  have "k div 100 < 10" using assms by (simp add: less_mult_imp_div_less)
  moreover have "k < 100 \<Longrightarrow> k div 10 < 10" by (simp add: less_mult_imp_div_less)
  ultimately show "46 \<notin> set (dec k)"
    using digit_char(4) [of k] digit_char(4) [of "k mod 10"] digit_char(4) [of "k div 10 mod 10"]
      digit_char(4) [of "k div 10"] digit_char(4) [of "k div 100"]
    by (auto simp: dec_def dest: sym)
qed (simp add: dec_def)

lemma get_ip_loop_digits:
  "46 \<notin> set ds \<Longrightarrow> length arr + length ds \<le> 4 \<Longrightarrow>
   get_ip_loop (ds @ cs) arr vals = get_ip_loop cs (arr @ ds) vals"
  by (induction ds arbitrary: arr) auto

lemma put_octet_dec:
  "k < 1000 \<Longrightarrow> length vals < 4 \<Longrightarrow> put_octet (dec k) vals = Ok (vals @ [of_nat k])"
  using dec_props(1) [of k] by (simp add: put_octet_def atoi_dec)

lemma get_ip_loop_octet:
  "length vals < 4 \<Longrightarrow>
   get_ip_loop (dec (unat a) @ 46 # cs) [] vals = get_ip_loop cs [] (vals @ [ucast a])"
  for a :: u8
  using dec_props [of "unat a"] unat_u8_less [of a]
  by (simp add: get_ip_loop_digits put_octet_dec less_trans [OF unat_u8_less] del: unat_u8_less)

lemma get_ip_loop_last:
  "get_ip_loop (dec (unat a)) [] vals = Ok (dec (unat a), vals)" for a :: u8
  using dec_props [of "unat a"] unat_u8_less [of a] get_ip_loop_digits [of "dec (unat a)" "[]" "[]" vals]
  by (simp add: less_trans [OF unat_u8_less] del: unat_u8_less)

lemma get_ip_dotted: "get_ip (dotted a b c d) (length (dotted a b c d)) = Ok (join32 a b c d)"
proof -
  have "unat d < 1000" by (rule less_trans [OF unat_u8_less]) simp
  then show ?thesis
    by (simp add: get_ip_def dotted_def get_ip_loop_octet get_ip_loop_last put_octet_dec join32_sum)
qed

subsection \<open>Byte order\<close>

lemma htons_join: "htons (join16 a b) = join16 b a"
proof (rule bit_word_eqI)
  fix n
  assume n: "n < LENGTH(16)"
  consider "n < 8" | "8 \<le> n" by linarith
  then show "bit (htons (join16 a b)) n = bit (join16 b a) n"
    using n by cases (auto simp: htons_def join16_def bit_simps)
qed

lemma htons_htons [simp]: "htons (htons v) = v"
  using htons_join [of "byte_of 0 v" "byte_of 1 v"] htons_join [of "byte_of 1 v" "byte_of 0 v"]
  by simp

lemma le16_htons: "le16 (htons v) = rev (le16 v)"
  using htons_join [of "byte_of 0 v" "byte_of 1 v"] by (simp add: le16_def)

lemma split32:
  "ucast (join32 a b c d) = join16 a b" "ucast (drop_bit 16 (join32 a b c d)) = join16 c d"
  by (rule bit_word_eqI; auto simp: join32_def join16_def bit_simps)+

lemma halves32: "le16 (ucast w) @ le16 (ucast (drop_bit 16 w)) = le32 w"
proof -
  have "w = join32 (byte_of 0 w) (byte_of 1 w) (byte_of 2 w) (byte_of 3 w)" by simp
  then have "ucast w = join16 (byte_of 0 w) (byte_of 1 w)"
    "ucast (drop_bit 16 w) = join16 (byte_of 2 w) (byte_of 3 w)"
    by (metis split32)+
  then show ?thesis by (simp add: le16_def le32_def)
qed

lemma htonl_join: "htonl (join32 a b c d) = join32 d c b a"
proof -
  have "ucast (join16 x y) OR push_bit 16 (ucast (join16 z w)) = join32 x y z w" for x y z w
    by (rule bit_word_eqI) (auto simp: join32_def join16_def bit_simps)
  then show ?thesis by (simp add: htonl_def split32 htons_join)
qed

lemma le32_htonl: "le32 (htonl v) = rev (le32 v)"
proof -
  have "htonl v = join32 (byte_of 3 v) (byte_of 2 v) (byte_of 1 v) (byte_of 0 v)"
    using htonl_join [of "byte_of 0 v" "byte_of 1 v" "byte_of 2 v" "byte_of 3 v"] by simp
  then show ?thesis by (simp add: le32_def)
qed

subsection \<open>The request frame\<close>

lemma own_address: "ascii ''192.168.1.1'' = dotted 192 168 1 1"
  by (simp add: ascii_def dotted_def dec_def)

lemma create_eth_arp_frame_eq:
  assumes "length mac = 6"
  shows "create_eth_arp_frame mac (dotted a b c d) eth =
    Ok (eth\<lparr>dmac := replicate 6 0xFF, smac := mac, ethr_type := htons 0x0806,
            hwtype := htons 1, protype := htons 0x0800, hwsize := 6, prosize := 4,
            opcode := htons 1, arp_smac := mac, arp_dmac := replicate 6 0xFF,
            sip := join32 192 168 1 1,
            dip := ucast (join32 a b c d), dip2 := ucast (drop_bit 16 (join32 a b c d))\<rparr>)"
  using assms
  by (simp add: create_eth_arp_frame_def pack_broadcast own_address get_ip_dotted numeral_eq_Suc)

text \<open>The 42 bytes of the request for the address \<open>a.b.c.d\<close> from a card with address \<open>mac\<close>.\<close>

definition arp_request :: "u8 list \<Rightarrow> u8 \<Rightarrow> u8 \<Rightarrow> u8 \<Rightarrow> u8 \<Rightarrow> u8 list" where
  "arp_request mac a b c d =
     replicate 6 0xFF @ mac @ [0x08, 0x06, 0x00, 0x01, 0x08, 0x00, 6, 4, 0, 1] @ mac @ [192, 168, 1, 1] @ replicate 6 0xFF @ [a, b, c, d]"

lemma frame_bytes:
  assumes "length mac = 6"
  shows "\<exists>f. create_eth_arp_frame mac (dotted a b c d) eth = Ok f \<and> take 42 (ethr_bytes f) = arp_request mac a b c d"
proof -
  have "le32 (join32 w x y z) = [w, x, y, z]" for w x y z by (simp add: le32_def)
  moreover have "rev (le16 0x0806) = [8, 6]" "rev (le16 1) = [0, 1]" "rev (le16 0x0800) = [8, 0]"
    by (simp_all add: le16_def byte_of_def)
  ultimately show ?thesis
    using assms halves32 [of "join32 a b c d"]
    by (simp add: create_eth_arp_frame_eq ethr_bytes_def le16_htons arp_request_def)
qed

text \<open>
  The frame built for a dotted target address goes out as the 42 bytes of an ARP request:
  broadcast destination, own hardware address, EtherType 0806, Ethernet and IPv4 as hardware and
  protocol, operation 1, own hardware and protocol address, and the four octets of the target in
  the order they were written.
\<close>

theorem arp_request_wire:
  assumes "length mac = 6"
  shows "\<exists>f. create_eth_arp_frame mac (dotted a b c d) eth = Ok f \<and>
    take 42 (ethr_bytes f) =
      [0xFF, 0xFF, 0xFF, 0xFF, 0xFF, 0xFF] @ mac @ [0x08, 0x06, 0x00, 0x01, 0x08, 0x00, 6, 4, 0, 1] @
      mac @ [192, 168, 1, 1] @ [0xFF, 0xFF, 0xFF, 0xFF, 0xFF, 0xFF] @ [a, b, c, d]"
proof -
  have "replicate 6 x = [x, x, x, x, x, x]" for x :: u8
    by (simp add: numeral_eq_Suc)
  then show ?thesis using frame_bytes [OF assms] by (simp add: arp_request_def)
qed

theorem arp_request_wire_witness:
  "length [0x52, 0x54, 0, 0x12, 0x34, 0x56 :: u8] = 6 \<and>
   (\<exists>f. create_eth_arp_frame [0x52, 0x54, 0, 0x12, 0x34, 0x56] (dotted 192 168 2 1)
      \<lparr>dmac = [], smac = [], ethr_type = 0, hwtype = 0, protype = 0, hwsize = 0, prosize = 0,
       opcode = 0, arp_smac = [], sip = 0, arp_dmac = [], dip = 0, dip2 = 0, padd = 0\<rparr> = Ok f \<and>
    take 42 (ethr_bytes f) =
      [0xFF, 0xFF, 0xFF, 0xFF, 0xFF, 0xFF, 0x52, 0x54, 0, 0x12, 0x34, 0x56, 8, 6, 0, 1, 8, 0, 6, 4,
       0, 1, 0x52, 0x54, 0, 0x12, 0x34, 0x56, 192, 168, 1, 1,
       0xFF, 0xFF, 0xFF, 0xFF, 0xFF, 0xFF, 192, 168, 2, 1])"
  using arp_request_wire [of "[0x52, 0x54, 0, 0x12, 0x34, 0x56]" 192 168 2 1] by simp

text \<open>
  Printing a six-byte hardware address and packing the text again gives the address back:
  \<open>unpack_mac\<close> writes 18 bytes that end in a NUL, and \<open>pack_mac\<close> reads the same six bytes from them.
\<close>

theorem mac_text_roundtrip:
  assumes "length mac = 6"
  shows "\<exists>s. unpack_mac mac = Ok s \<and> length s = 18 \<and> last s = 0 \<and> pack_mac s = Ok mac"
  using assms pack_unpack_mac [OF assms]
  by (elim length6E) (simp add: unpack_mac_eq hex_byte_def)

theorem mac_text_roundtrip_witness:
  "length [0x52, 0x54, 0, 0x12, 0x34, 0x56 :: u8] = 6 \<and>
   (\<exists>s. unpack_mac [0x52, 0x54, 0, 0x12, 0x34, 0x56] = Ok s \<and> length s = 18 \<and> last s = 0 \<and>
      pack_mac s = Ok [0x52, 0x54, 0, 0x12, 0x34, 0x56])"
  using mac_text_roundtrip [of "[0x52, 0x54, 0, 0x12, 0x34, 0x56]"] by simp

text \<open>
  \<open>get_ip\<close> reads a dotted address into a word whose bytes in memory are the four octets in
  the order they were written, which is network order on this little-endian machine; \<open>htonl\<close>
  reverses the bytes of a word.
\<close>

theorem get_ip_network_order:
  "\<exists>w. get_ip (dotted a b c d) (length (dotted a b c d)) = Ok w \<and> le32 w = [a, b, c, d] \<and>
     le32 (htonl w) = [d, c, b, a]"
  by (simp add: get_ip_dotted le32_htonl) (simp add: le32_def)

subsection \<open>Replies\<close>

lemma parse_ip_head:
  assumes "parse_ip stack ip = Ok s"
  shows "\<exists>rest. s = 48 # rest \<or> s = 49 # rest"
proof -
  from assms obtain x stack' where st: "stack = x # stack'"
    by (cases stack) (auto simp: parse_ip_def)
  have one: "parse_ip_digits 1 [] = Ok [49]"
    by (simp add: parse_ip_digits.simps)
  show ?thesis
    using assms by (auto simp: parse_ip_def parse_ip_vals_def st one split: if_splits)
qed

text \<open>
  C40. \<open>parse_arp_reply\<close> never reaches the point where it prints the sender's address, whatever
  the frame and the contents of the stack: a reply as it arrives from the wire (EtherType bytes
  08 06) is turned away as "Not an ARP packet", because the field is compared without
  converting its byte order, and the comparison with the textual own address fails on its first
  character.
\<close>

theorem arp_reply_never_accepted:
  "parse_arp_reply stack eth \<noteq> Ok (Mac mac) \<and>
   parse_arp_reply stack (eth\<lparr>ethr_type := join16 0x08 0x06\<rparr>) = Ok (Msg ''Not an ARP packet'')"
proof
  show "parse_arp_reply stack eth \<noteq> Ok (Mac mac)"
  proof
    assume "parse_arp_reply stack eth = Ok (Mac mac)"
    then obtain dst_ip where ip: "parse_ip stack (ucast (dip eth)) = Ok dst_ip"
      and eq: "strcmp (ascii ''255.255.255.255'' @ [0]) dst_ip = Ok 0"
      by (auto simp: parse_arp_reply_def split: if_splits)
    from parse_ip_head [OF ip] eq show False
      by (auto simp: ascii_def)
  qed
  show "parse_arp_reply stack (eth\<lparr>ethr_type := join16 0x08 0x06\<rparr>) = Ok (Msg ''Not an ARP packet'')"
    by (simp add: parse_arp_reply_def join16_def)
qed

end
