(* ===== verification/E1000.thy ===== *)
theory E1000
  imports Pci Kalloc ArpFrame
begin

text \<open>
  The driver of the network card, \<open>e1000.c\<close>.  The descriptor rings and the packet buffers are
  addresses of kernel memory, which the card reads and writes too.  The card is a parameter:
  \<open>mmio\<close> gives the value a register reads after a sequence of events, and \<open>dma\<close> the memory once
  the card has done what the events ask of it.  A wait that the card does not end is \<open>Blocks\<close>.
  \<open>udelay\<close>, which reads a port and drops the value, and the messages are left out.
\<close>

unbundle bit_operations_syntax

section \<open>Definitions\<close>

record e1000 =
  tbd :: "u32 list"
  rbd :: "u32 list"
  tx_buf :: "u32 list"
  rx_buf :: "u32 list"
  tbd_head :: nat
  tbd_tail :: nat
  rbd_head :: nat
  rbd_tail :: nat
  iobase :: u32
  membase :: u32
  line :: u8
  pin :: u8
  mac_addr :: "u8 list"

record netstate =
  kpool :: kmem
  events :: "event list"

definition e1000_reg_write :: "u32 \<Rightarrow> u32 \<Rightarrow> e1000 \<Rightarrow> 'a netstate_scheme \<Rightarrow> 'a netstate_scheme" where
  "e1000_reg_write reg_addr v e s = s\<lparr>events := events s @ [Mmio (membase e + reg_addr) v]\<rparr>"

definition e1000_reg_read ::
  "(event list \<Rightarrow> u32 \<Rightarrow> u32) \<Rightarrow> u32 \<Rightarrow> e1000 \<Rightarrow> 'a netstate_scheme \<Rightarrow> u32" where
  "e1000_reg_read mmio reg_addr e s = mmio (events s) (membase e + reg_addr)"

subsection \<open>Sending a packet\<close>

definition store16 :: "mem \<Rightarrow> u32 \<Rightarrow> u16 \<Rightarrow> mem" where
  "store16 m a w = store_bytes m a (le16 w)"

text \<open>
  The writes to \<open>struct e1000_tbd\<close>: the address is 64 bits wide, \<open>length\<close> is at offset 8, \<open>cso\<close> at
  10, \<open>cmd\<close> at 11 and \<open>status\<close> at 12.
\<close>

definition fill_tbd :: "mem \<Rightarrow> u32 \<Rightarrow> u32 \<Rightarrow> u8 list \<Rightarrow> mem" where
  "fill_tbd m d b pkt =
     (let m = memset m d 0 16;
          m = store_bytes m b pkt;
          m = store32 m d (V2P b);
          m = store32 m (d + 4) 0;
          m = store16 m (d + 8) (of_nat (length pkt));
          m = m(d + 11 := 0x08 OR 0x01 OR 0x02)
      in m(d + 10 := 0))"

definition e1000_send ::
  "(event list \<Rightarrow> mem \<Rightarrow> mem) \<Rightarrow> e1000 \<Rightarrow> u8 list \<Rightarrow> 'a netstate_scheme \<Rightarrow>
   (e1000 \<times> 'a netstate_scheme) res" where
  "e1000_send dma e pkt s =
     bindr (idx (tbd e) (tbd_tail e)) (\<lambda>d.
     bindr (idx (tx_buf e) (tbd_tail e)) (\<lambda>b.
       let k = kpool s;
           s = s\<lparr>kpool := k\<lparr>memory := fill_tbd (memory k) d b pkt\<rparr>\<rparr>;
           e = e\<lparr>tbd_tail := (tbd_tail e + 1) mod 128\<rparr>;
           s = e1000_reg_write 0x03818 (of_nat (tbd_tail e)) e s;
           m = dma (events s) (memory (kpool s))
       in if m (d + 12) AND 1 = 0 then Blocks ''transmit''
          else Ok (e, s\<lparr>kpool := (kpool s)\<lparr>memory := m\<rparr>\<rparr>)))"

definition e1000_recv :: "e1000 \<Rightarrow> u8 list \<Rightarrow> 'a netstate_scheme \<Rightarrow> 'a netstate_scheme" where
  "e1000_recv e pkt s = s"

subsection \<open>Bringing the card up\<close>

text \<open>The search for the I/O and memory regions; the two values start as what the page held.\<close>

fun find_bases :: "(u32 \<times> u32) list \<Rightarrow> u32 \<Rightarrow> u32 \<Rightarrow> (u32 \<times> u32) res" where
  "find_bases [] io mm = Ok (io, mm)"
| "find_bases ((base, sz) # rest) io mm =
     (if base \<le> 0xffff
      then (if sz \<noteq> 64 then Panic ''I/O space BAR size != 64'' else Ok (base, mm))
      else if 0 < base
      then (if sz \<noteq> 0x20000 then Panic ''Mem space BAR size != 128KB'' else find_bases rest io base)
      else find_bases rest io mm)"

definition bases ::
  "pci_func \<Rightarrow> u32 \<Rightarrow> mem \<Rightarrow> (u32 \<times> u32) res" where
  "bases pcif page m =
     bindr (find_bases (zip (reg_base pcif) (reg_size pcif)) (load32 m (page + 2072))
              (load32 m (page + 2076))) (\<lambda>(io, mm).
       if io = 0 then Panic ''Fail to find a valid I/O port base for E1000.''
       else if mm = 0 then Panic ''Fail to find a valid Mem I/O base for E1000.''
       else Ok (io, mm))"

definition mac_bytes :: "u32 \<Rightarrow> u32 \<Rightarrow> u8 list" where
  "mac_bytes macaddr_l macaddr_h = le32 macaddr_l @ le16 (ucast macaddr_h)"

definition desc_ring :: "u32 \<Rightarrow> u32 list" where
  "desc_ring base = map (\<lambda>i. base + 16 * of_nat i) [0..<128]"

text \<open>Two packet buffers of 2046 bytes in each page.\<close>

definition rx_pair :: "u32 list \<Rightarrow> nat \<Rightarrow> u32 list \<times> kmem \<Rightarrow> u32 list \<times> kmem" where
  "rx_pair rbds i = (\<lambda>(bufs, k).
     let (p, k) = kalloc k;
         m = store32 (memory k) (rbds ! i) (V2P p);
         m = store32 m (rbds ! i + 4) 0;
         m = store32 m (rbds ! (i + 1)) (V2P (p + 2046));
         m = store32 m (rbds ! (i + 1) + 4) 0
     in (bufs @ [p, p + 2046], k\<lparr>memory := m\<rparr>))"

definition tx_pair :: "nat \<Rightarrow> u32 list \<times> kmem \<Rightarrow> u32 list \<times> kmem" where
  "tx_pair i = (\<lambda>(bufs, k). let (p, k) = kalloc k in (bufs @ [p, p + 2046], k))"

definition E1000_TCTL_CT_SET :: "u32 \<Rightarrow> u32" where
  "E1000_TCTL_CT_SET v = push_bit 4 v AND 0x00000ff0"

definition E1000_TCTL_COLD_SET :: "u32 \<Rightarrow> u32" where
  "E1000_TCTL_COLD_SET v = push_bit 12 v AND 0x003ff000"

definition E1000_TIPG_IPGT_SET :: "u32 \<Rightarrow> u32" where
  "E1000_TIPG_IPGT_SET v = v AND 0x000003ff"

definition E1000_TIPG_IPGR1_SET :: "u32 \<Rightarrow> u32" where
  "E1000_TIPG_IPGR1_SET v = push_bit 10 v AND 0x000ffc00"

definition E1000_TIPG_IPGR2_SET :: "u32 \<Rightarrow> u32" where
  "E1000_TIPG_IPGR2_SET v = push_bit 20 v AND 0x3ff00000"

definition ring_registers :: "u32 \<Rightarrow> u32 \<Rightarrow> (u32 \<times> u32) list" where
  "ring_registers tbd0 rbd0 =
     [(0x03800, V2P tbd0), (0x03804, 0), (0x03808, push_bit 7 (128 * 16)), (0x03810, 0),
      (0x00400, 0x2 OR 0x8 OR E1000_TCTL_CT_SET 0x0f OR E1000_TCTL_COLD_SET 0x200),
      (0x03818, 0),
      (0x00410, E1000_TIPG_IPGT_SET 10 OR E1000_TIPG_IPGR1_SET 10 OR E1000_TIPG_IPGR2_SET 10),
      (0x02800, V2P rbd0), (0x02804, 0), (0x02808, push_bit 7 (128 * 16)), (0x02810, 0),
      (0x02818, 0),
      (0x000d0, 0x8 OR 0x40 OR 0x80 OR 0x2),
      (0x00100, 0x2 OR 0x8000 OR 0x0 OR 0x8)]"

text \<open>The reset of the card and the two bits the manual asks for after it.\<close>

definition reset_card ::
  "(event list \<Rightarrow> u32 \<Rightarrow> u32) \<Rightarrow> e1000 \<Rightarrow> 'a netstate_scheme \<Rightarrow> 'a netstate_scheme res" where
  "reset_card mmio e s =
     (let s = e1000_reg_write 0 (e1000_reg_read mmio 0 e s OR 0x04000000) e s
      in if e1000_reg_read mmio 0 e s AND 0x04000000 \<noteq> 0 then Blocks ''reset''
         else Ok (e1000_reg_write 0 (e1000_reg_read mmio 0 e s OR 0x20 OR 0x40) e s))"

text \<open>
  The rings and the buffers.  Only the receive descriptors are written here, so only a ring page
  that could not be allocated is a null pointer the code follows.
\<close>

definition setup_rings ::
  "u32 \<Rightarrow> e1000 \<Rightarrow> 'a netstate_scheme \<Rightarrow> (int \<times> e1000 \<times> 'a netstate_scheme) res" where
  "setup_rings kend e s =
     (let (t, k) = kalloc (kpool s);
          e = e\<lparr>tbd := desc_ring t\<rparr>
      in if V2P (tbd e ! 0) AND 0xf \<noteq> 0
         then bindr (kfree kend k (t + 128 * 16)) (\<lambda>k. Ok (-1, e, s\<lparr>kpool := k\<rparr>))
         else
           let (r, k) = kalloc k;
               e = e\<lparr>rbd := desc_ring r\<rparr>
           in if V2P (rbd e ! 0) AND 0xf \<noteq> 0
              then bindr (kfree kend k (r + 128 * 16)) (\<lambda>k. Ok (-1, e, s\<lparr>kpool := k\<rparr>))
              else if r = 0 then Undef ''null''
              else
                let (rxs, k) = fold (rx_pair (rbd e)) (map ((*) 2) [0..<64]) ([], k);
                    (txs, k) = fold tx_pair (map ((*) 2) [0..<64]) ([], k)
                in Ok (0, e\<lparr>rx_buf := rxs, tx_buf := txs\<rparr>, s\<lparr>kpool := k\<rparr>))"

definition fresh_e1000 :: "u32 \<Rightarrow> u32 \<Rightarrow> pci_func \<Rightarrow> e1000" where
  "fresh_e1000 io mm pcif =
     \<lparr>tbd = [], rbd = [], tx_buf = [], rx_buf = [], tbd_head = 0, tbd_tail = 0, rbd_head = 0,
      rbd_tail = 0, iobase = io, membase = mm, line = irq_line pcif, pin = irq_pin pcif,
      mac_addr = []\<rparr>"

definition start_card :: "e1000 \<Rightarrow> 'a netstate_scheme \<Rightarrow> 'a netstate_scheme" where
  "start_card e s =
     (let s = fold (\<lambda>(reg, v). e1000_reg_write reg v e) (ring_registers (tbd e ! 0) (rbd e ! 0)) s
      in s\<lparr>events := events s @ [Picenable (line e), Ioapicenable (line e) 0, Ioapicenable (line e) 1]\<rparr>)"

text \<open>
  The result is the return value, what the call stores through \<open>driver\<close> (\<open>None\<close>: nothing), and the
  bytes it writes from \<open>mac_addr\<close> on: a 4-byte store at offset 0 and another at offset 4.
\<close>

definition e1000_init ::
  "u32 \<Rightarrow> (event list \<Rightarrow> u32 \<Rightarrow> u32) \<Rightarrow> pci_func \<Rightarrow> 'a netstate_scheme \<Rightarrow>
   (int \<times> e1000 option \<times> u8 list \<times> 'a netstate_scheme) res" where
  "e1000_init kend mmio pcif s =
     (let (page, k) = kalloc (kpool s);
          s = s\<lparr>kpool := k\<rparr>
      in if page = 0 then Undef ''null''
         else
           bindr (bases pcif page (memory k)) (\<lambda>(io, mm).
             let e = fresh_e1000 io mm pcif
             in bindr (reset_card mmio e s) (\<lambda>s.
                  let macaddr_l = e1000_reg_read mmio 0x05400 e s;
                      macaddr_h = e1000_reg_read mmio 0x05404 e s;
                      e = e\<lparr>mac_addr := mac_bytes macaddr_l macaddr_h\<rparr>;
                      out = le32 macaddr_l @ le32 (macaddr_h AND 0xffff)
                  in bindr (setup_rings kend e s) (\<lambda>(r, e, s).
                       if r < 0 then Ok (r, None, out, s)
                       else Ok (0, Some e, out, start_card e s)))))"

section \<open>Properties\<close>

subsection \<open>Queueing a packet\<close>

lemma desc_ring_nth: "i < 128 \<Longrightarrow> desc_ring r ! i = r + of_nat (16 * i)"
  by (simp add: desc_ring_def)

text \<open>The packet a descriptor tells the card to send, and the command byte.\<close>

definition queued :: "mem \<Rightarrow> u32 \<Rightarrow> u8 list" where
  "queued m d = load_bytes m (P2V (load32 m d)) (unat (join16 (m (d + 8)) (m (d + 9))))"

definition tbd_bytes :: "u32 \<Rightarrow> nat \<Rightarrow> u8 list" where
  "tbd_bytes b n = le32 (V2P b) @ [0, 0, 0, 0] @ le16 (of_nat n) @ [0, 0x0b, 0, 0, 0, 0]"

lemma nat_less_16:
  assumes "(i :: nat) < 16"
  obtains "i = 0" | "i = 1" | "i = 2" | "i = 3" | "i = 4" | "i = 5" | "i = 6" | "i = 7"
    | "i = 8" | "i = 9" | "i = 10" | "i = 11" | "i = 12" | "i = 13" | "i = 14" | "i = 15"
proof -
  have "i = 0 \<or> i = 1 \<or> i = 2 \<or> i = 3 \<or> i = 4 \<or> i = 5 \<or> i = 6 \<or> i = 7 \<or>
    i = 8 \<or> i = 9 \<or> i = 10 \<or> i = 11 \<or> i = 12 \<or> i = 13 \<or> i = 14 \<or> i = 15" using assms by presburger
  then show thesis using that by blast
qed

lemma fill_tbd_outside:
  assumes "\<not> off d x < 16" "length pkt \<le> 2046"
  shows "fill_tbd m d b pkt x = (if off b x < length pkt then pkt ! off b x else m x)"
proof -
  have "x \<noteq> d + of_nat k" if "k < 16" for k :: nat using assms(1) that by auto
  from this [of 0] this [of 1] this [of 2] this [of 3] this [of 4] this [of 5] this [of 6] this [of 7]
    this [of 8] this [of 9] this [of 10] this [of 11]
  show ?thesis using assms
    by (simp add: fill_tbd_def Let_def store32_def store16_def le16_def memset_apply store_bytes_apply add.assoc)
qed

lemma fill_tbd_inside:
  assumes "apart d 16 b (length pkt)" "length pkt \<le> 2046" "i < 16"
  shows "fill_tbd m d b pkt (d + of_nat i) = tbd_bytes b (length pkt) ! i"
proof -
  have "\<not> off b (d + of_nat i) < length pkt"
  proof
    assume "off b (d + of_nat i) < length pkt"
    then have "d + of_nat i \<noteq> b + of_nat (off b (d + of_nat i))" using assms(1,3) unfolding apart_def by blast
    then show False by simp
  qed
  then show ?thesis using assms(2,3)
    by (elim nat_less_16)
      (simp_all add: fill_tbd_def Let_def store32_def store16_def le16_def le32_def memset_apply store_bytes_apply tbd_bytes_def
        add.assoc byte_of_def off_def)
qed

lemma fill_tbd_fields:
  fixes m :: mem
  assumes "apart d 16 b (length pkt)" "length pkt \<le> 2046"
  defines "m' \<equiv> fill_tbd m d b pkt"
  shows "load32 m' d = V2P b" "join16 (m' (d + 8)) (m' (d + 9)) = of_nat (length pkt)" "m' (d + 11) = 0x0b"
    "load_bytes m' b (length pkt) = pkt"
proof -
  have nth: "m' (d + of_nat i) = tbd_bytes b (length pkt) ! i" if "i < 16" for i
    using fill_tbd_inside [OF assms(1,2) that] by (simp add: m'_def)
  show "load32 m' d = V2P b"
    using nth [of 0] nth [of 1] nth [of 2] nth [of 3] by (simp add: load32_def tbd_bytes_def le32_def)
  show "join16 (m' (d + 8)) (m' (d + 9)) = of_nat (length pkt)"
    using nth [of 8] nth [of 9] by (simp add: tbd_bytes_def le32_def le16_def)
  show "m' (d + 11) = 0x0b" using nth [of 11] by (simp add: tbd_bytes_def le32_def le16_def)
  show "load_bytes m' b (length pkt) = pkt"
  proof (rule nth_equalityI)
    fix i
    assume "i < length (load_bytes m' b (length pkt))"
    then have i: "i < length pkt" by simp
    have "\<not> off d (b + of_nat i) < 16"
    proof
      assume "off d (b + of_nat i) < 16"
      then have "d + of_nat (off d (b + of_nat i)) \<noteq> b + of_nat i" using assms(1) i unfolding apart_def by blast
      then show False by simp
    qed
    then show "load_bytes m' b (length pkt) ! i = pkt ! i"
      using i assms(2) by (simp add: m'_def fill_tbd_outside)
  qed simp
qed

text \<open>The rings and the transmit buffers do not overlap, and the tail is a slot.\<close>

definition driver_ok :: "e1000 \<Rightarrow> bool" where
  "driver_ok e \<longleftrightarrow> length (tbd e) = 128 \<and> length (tx_buf e) = 128 \<and> tbd_tail e < 128 \<and>
     (\<forall>i<128. \<forall>j<128. apart (tbd e ! i) 16 (tx_buf e ! j) 2046 \<and>
        (i \<noteq> j \<longrightarrow> apart (tbd e ! i) 16 (tbd e ! j) 16 \<and> apart (tx_buf e ! i) 2046 (tx_buf e ! j) 2046))"

text \<open>
  What the manual of the card says about transmission, read off the register writes so far.  A reset switches the
  transmitter off and empties the ring; with the transmitter on and the link up, the card works from the head to
  the tail, around the end of the ring that the length register gives, and stops when the head has caught up.
\<close>

record tx_ring =
  td_base :: u32
  td_high :: u32
  td_len :: u32
  td_head :: u32
  td_tail :: u32
  tx_on :: bool
  tx_link :: bool

definition tx_event :: "u32 \<Rightarrow> event \<Rightarrow> tx_ring \<Rightarrow> tx_ring" where
  "tx_event mb ev c =
     (case ev of
        Mmio a v \<Rightarrow>
          if a = mb then
            (if v AND 0x04000000 \<noteq> 0 then c\<lparr>td_len := 0, td_head := 0, td_tail := 0, tx_on := False, tx_link := False\<rparr>
             else c\<lparr>tx_link := (v AND 0x40 \<noteq> 0)\<rparr>)
          else if a = mb + 0x03800 then c\<lparr>td_base := v\<rparr>
          else if a = mb + 0x03804 then c\<lparr>td_high := v\<rparr>
          else if a = mb + 0x03808 then c\<lparr>td_len := v\<rparr>
          else if a = mb + 0x03810 then c\<lparr>td_head := v\<rparr>
          else if a = mb + 0x00400 then
            (if v AND 2 \<noteq> 0 then c\<lparr>tx_on := True, td_head := td_tail c\<rparr> else c\<lparr>tx_on := False\<rparr>)
          else if a = mb + 0x03818 then
            (if tx_on c then c\<lparr>td_tail := v, td_head := v\<rparr> else c\<lparr>td_tail := v\<rparr>)
          else c
      | _ \<Rightarrow> c)"

definition tx_ring_of :: "u32 \<Rightarrow> event list \<Rightarrow> tx_ring" where
  "tx_ring_of mb evs =
     fold (tx_event mb) evs
       \<lparr>td_base = 0, td_high = 0, td_len = 0, td_head = 0, td_tail = 0, tx_on = False, tx_link = False\<rparr>"

text \<open>The slots between the head and a new tail.\<close>

definition tx_slots :: "tx_ring \<Rightarrow> u32 \<Rightarrow> nat list" where
  "tx_slots c v =
     (if td_head c \<le> v then [unat (td_head c)..<unat v]
      else [unat (td_head c)..<unat (td_len c) div 16] @ [0..<unat v])"

text \<open>
  The documented effect on memory: when a new tail hands a running card one descriptor, a whole packet that asks for
  a report, the card sends the packet and sets the done bit of that descriptor's status byte.
\<close>

definition transmits :: "(event list \<Rightarrow> mem \<Rightarrow> mem) \<Rightarrow> u32 \<Rightarrow> bool" where
  "transmits dma mb \<longleftrightarrow>
     (\<forall>evs v m i. let c = tx_ring_of mb evs; d = P2V (td_base c + of_nat (16 * i))
        in tx_on c \<and> tx_link c \<and> td_high c = 0 \<and> tx_slots c v = [i] \<and> m (d + 11) AND 0x09 = 0x09 \<longrightarrow>
           (\<exists>s. s AND 1 \<noteq> 0 \<and> dma (evs @ [Mmio (mb + 0x03818) v]) m = m(d + 12 := s)))"

text \<open>The card is running on the ring of the driver, which is one array, and has sent all it was given.\<close>

definition card_ready :: "e1000 \<Rightarrow> event list \<Rightarrow> bool" where
  "card_ready e evs \<longleftrightarrow>
     (let c = tx_ring_of (membase e) evs
      in tx_on c \<and> tx_link c \<and> td_high c = 0 \<and> td_base c = V2P (tbd e ! 0) \<and> 16 * 128 \<le> unat (td_len c) \<and>
         td_head c = of_nat (tbd_tail e)) \<and>
     tbd e = desc_ring (tbd e ! 0)"

lemma tx_ring_of_snoc [simp]: "tx_ring_of mb (evs @ [ev]) = tx_event mb ev (tx_ring_of mb evs)"
  by (simp add: tx_ring_of_def)

lemma tx_event_tail: "tx_on c \<Longrightarrow> tx_event mb (Mmio (mb + 0x03818) v) c = c\<lparr>td_tail := v, td_head := v\<rparr>"
  by (simp add: tx_event_def)

lemma card_ready_slot:
  assumes "card_ready e evs" "tbd_tail e < 127"
  shows "tx_slots (tx_ring_of (membase e) evs) (of_nat ((tbd_tail e + 1) mod 128)) = [tbd_tail e]"
    "card_ready (e\<lparr>tbd_tail := (tbd_tail e + 1) mod 128\<rparr>) (evs @ [Mmio (membase e + 0x03818) (of_nat ((tbd_tail e + 1) mod 128))])"
proof -
  have m: "(tbd_tail e + 1) mod 128 = tbd_tail e + 1" using assms(2) by simp
  have u: "unat (of_nat (tbd_tail e) :: u32) = tbd_tail e" "unat (of_nat (tbd_tail e + 1) :: u32) = tbd_tail e + 1"
    using assms(2) by (simp_all only: unat_of_nat) simp_all
  then show "tx_slots (tx_ring_of (membase e) evs) (of_nat ((tbd_tail e + 1) mod 128)) = [tbd_tail e]"
    unfolding m using assms(1) by (simp add: card_ready_def tx_slots_def Let_def word_le_nat_alt del: of_nat_add of_nat_Suc)
  show "card_ready (e\<lparr>tbd_tail := (tbd_tail e + 1) mod 128\<rparr>) (evs @ [Mmio (membase e + 0x03818) (of_nat ((tbd_tail e + 1) mod 128))])"
    using assms(1) by (simp add: card_ready_def Let_def tx_event_tail)
qed

lemma apart_mono: "apart s n t k \<Longrightarrow> n' \<le> n \<Longrightarrow> k' \<le> k \<Longrightarrow> apart s n' t k'"
  by (auto simp: apart_def)

lemma queued_status:
  assumes "apart d 16 b (length pkt)" "P2V (load32 m d) = b" "unat (join16 (m (d + 8)) (m (d + 9))) = length pkt"
  shows "queued (m(d + 12 := s)) d = load_bytes m b (length pkt)"
proof -
  have "load32 (m(d + 12 := s)) d = load32 m d" by (simp add: load32_def)
  moreover have "(m(d + 12 := s)) (b + of_nat i) = m (b + of_nat i)" if "i < length pkt" for i
    using assms(1) [unfolded apart_def, rule_format, of 12 i] that by auto
  ultimately show ?thesis using assms(2,3) by (simp add: queued_def load_bytes_def)
qed

text \<open>Sending a packet hands the card exactly that packet.  With a driver whose rings and buffers do not overlap, a packet
  of at most 2046 bytes, and a running card: the call returns; the descriptor at the old tail describes
  the packet byte for byte, with end-of-packet, checksum and report requested; the tail moves on by one slot, which is
  what the card is told; no memory outside that descriptor and that buffer changes; driver and card stay ready.  Slot 127
  is excepted: there the tail wraps around, and the card, whose length register gives 16384 slots, does not.\<close>

lemma e1000_send_queues:
  assumes "driver_ok e" "length pkt \<le> 2046" "transmits dma (membase e)" "card_ready e (events s)" "tbd_tail e < 127"
  shows "\<exists>e' s'. e1000_send dma e pkt s = Ok (e', s') \<and> driver_ok e' \<and> card_ready e' (events s') \<and>
    queued (memory (kpool s')) (tbd e ! tbd_tail e) = pkt \<and> memory (kpool s') (tbd e ! tbd_tail e + 11) = 0x0b \<and>
    e' = e\<lparr>tbd_tail := (tbd_tail e + 1) mod 128\<rparr> \<and>
    events s' = events s @ [Mmio (membase e + 0x03818) (of_nat (tbd_tail e'))] \<and>
    (\<forall>x. 16 \<le> off (tbd e ! tbd_tail e) x \<longrightarrow> 2046 \<le> off (tx_buf e ! tbd_tail e) x \<longrightarrow>
       memory (kpool s') x = memory (kpool s) x)"
proof -
  define i where "i = tbd_tail e"
  define d where "d = tbd e ! i"
  define b where "b = tx_buf e ! i"
  define m where "m = fill_tbd (memory (kpool s)) d b pkt"
  have i: "i < 128" "length (tbd e) = 128" "length (tx_buf e) = 128" and "apart d 16 b 2046"
    using assms(1) by (auto simp: driver_ok_def i_def d_def b_def)
  then have ap: "apart d 16 b (length pkt)" using assms(2) by (auto intro: apart_mono)
  note f = fill_tbd_fields [OF ap assms(2), of "memory (kpool s)", folded m_def]
  have d: "d = P2V (td_base (tx_ring_of (membase e) (events s)) + of_nat (16 * i))"
    using assms(4) desc_ring_nth [OF i(1), of "tbd e ! 0"] by (simp add: card_ready_def Let_def d_def P2V_def V2P_def)
  have "m (d + 11) AND 0x09 = 0x09" using f(3) by simp
  then obtain st where st: "st AND 1 \<noteq> 0"
    "dma (events s @ [Mmio (membase e + 0x03818) (of_nat ((i + 1) mod 128))]) m = m(d + 12 := st)"
    using assms(3,4) card_ready_slot(1) [OF assms(4,5)] unfolding transmits_def Let_def card_ready_def i_def [symmetric] d by blast
  define e' where "e' = e\<lparr>tbd_tail := (i + 1) mod 128\<rparr>"
  define s' where "s' = s\<lparr>kpool := (kpool s)\<lparr>memory := m(d + 12 := st)\<rparr>,
    events := events s @ [Mmio (membase e + 0x03818) (of_nat ((i + 1) mod 128))]\<rparr>"
  have "e1000_send dma e pkt s = Ok (e', s')"
    using i st by (simp add: e1000_send_def Let_def e1000_reg_write_def i_def [symmetric] d_def [symmetric] b_def [symmetric]
      m_def [symmetric] e'_def s'_def)
  moreover have "driver_ok e'" using assms(1) by (simp add: driver_ok_def e'_def)
  moreover have "card_ready e' (events s')" using card_ready_slot(2) [OF assms(4,5)] by (simp add: e'_def s'_def i_def)
  moreover have "queued (memory (kpool s')) d = pkt"
  proof -
    have "unat (of_nat (length pkt) :: u16) = length pkt" using assms(2) by (simp add: unat_of_nat)
    then show ?thesis using queued_status [OF ap, of m st] f by (simp add: s'_def)
  qed
  moreover have "memory (kpool s') (d + 11) = 0x0b" using f(3) by (simp add: s'_def)
  moreover have "memory (kpool s') x = memory (kpool s) x" if x: "16 \<le> off d x" "2046 \<le> off b x" for x
  proof -
    have "x \<noteq> d + 12" using x(1) by (auto simp: off_def)
    then show ?thesis using x assms(2) by (simp add: s'_def m_def fill_tbd_outside)
  qed
  ultimately show ?thesis by (intro exI [of _ e'] exI [of _ s']) (simp add: e'_def s'_def d_def b_def i_def)
qed

text \<open>A driver with its descriptors from 0x80400000 and its buffers from 0x80500000 on.\<close>

definition some_driver :: e1000 where
  "some_driver =
     \<lparr>tbd = map (\<lambda>i. 0x80400000 + of_nat (16 * i)) [0..<128], rbd = [],
      tx_buf = map (\<lambda>i. 0x80500000 + of_nat (2048 * i)) [0..<128], rx_buf = [],
      tbd_head = 0, tbd_tail = 0, rbd_head = 0, rbd_tail = 0, iobase = 0xc000, membase = 0xfebc0000, line = 11, pin = 1,
      mac_addr = [0x52, 0x54, 0, 0x12, 0x34, 0x56]\<rparr>"

text \<open>A card that sets the done bits of all slots that a new tail hands it.\<close>

definition some_card :: "event list \<Rightarrow> mem \<Rightarrow> mem" where
  "some_card evs m =
     (case last evs of
        Mmio a v \<Rightarrow>
          let c = tx_ring_of (membase some_driver) (butlast evs)
          in fold (\<lambda>i m. m(P2V (td_base c + of_nat (16 * i)) + 12 := 1)) (tx_slots c v) m
      | _ \<Rightarrow> m)"

lemma apart_offsets:
  assumes "p + n \<le> q \<or> q + k \<le> p" "p + n \<le> 2 ^ 32" "q + k \<le> 2 ^ 32"
  shows "apart (a + of_nat p) n (a + of_nat q) k"
proof -
  have "a + of_nat p + of_nat i \<noteq> a + of_nat q + of_nat j" if "i < n" "j < k" for i j
  proof
    assume "a + of_nat p + of_nat i = a + of_nat q + of_nat j"
    then have "(of_nat (p + i) :: u32) = of_nat (q + j)" by (simp only: add.assoc of_nat_add add_left_cancel)
    then have "unat (of_nat (p + i) :: u32) = unat (of_nat (q + j) :: u32)" by (rule arg_cong)
    moreover have "p + i < 2 ^ 32" "q + j < 2 ^ 32" using assms that by auto
    ultimately have "p + i = q + j" by (simp only: unat_of_nat) simp
    then show False using assms(1) that by auto
  qed
  then show ?thesis by (simp add: apart_def)
qed

lemma some_driver_ok: "driver_ok some_driver"
proof -
  have t: "tbd some_driver ! i = 0x80400000 + of_nat (16 * i)" "tx_buf some_driver ! i = 0x80400000 + of_nat (0x100000 + 2048 * i)"
    if "i < 128" for i using that by (simp_all add: some_driver_def)
  have "apart (tbd some_driver ! i) 16 (tx_buf some_driver ! j) 2046" if "i < 128" "j < 128" for i j
    unfolding t(1) [OF that(1)] t(2) [OF that(2)] using that by (intro apart_offsets) auto
  moreover have "apart (tbd some_driver ! i) 16 (tbd some_driver ! j) 16" if "i < 128" "j < 128" "i \<noteq> j" for i j
    unfolding t(1) [OF that(1)] t(1) [OF that(2)] using that by (intro apart_offsets) auto
  moreover have "apart (tx_buf some_driver ! i) 2046 (tx_buf some_driver ! j) 2046" if "i < 128" "j < 128" "i \<noteq> j" for i j
    unfolding t(2) [OF that(1)] t(2) [OF that(2)] using that by (intro apart_offsets) auto
  ultimately show ?thesis by (simp add: driver_ok_def) (simp add: some_driver_def)
qed

lemma some_card_transmits: "transmits some_card (membase some_driver)"
  by (auto simp: transmits_def some_card_def Let_def intro!: exI [of _ 1])

subsection \<open>Rings and buffers\<close>

lemma apart_pages:
  assumes "unat p mod 4096 = 0" "unat q mod 4096 = 0" "p \<noteq> q" "a + n \<le> 4096" "b + k \<le> 4096"
  shows "apart (p + of_nat a) n (q + of_nat b) k"
proof -
  have "PGROUNDDOWN (p + of_nat (a + i)) = p" if "i < n" for i
    using that assms by (intro PGROUNDDOWN_offset) auto
  moreover have "PGROUNDDOWN (q + of_nat (b + j)) = q" if "j < k" for j
    using that assms by (intro PGROUNDDOWN_offset) auto
  ultimately show ?thesis using assms(3) unfolding apart_def by (metis (no_types) add.assoc of_nat_add)
qed

text \<open>
  The loop over the buffers, for a body that allocates a page, records its two halves and writes
  only to the page \<open>r\<close>, which is not free.
\<close>

definition halves :: "u32 list \<Rightarrow> u32 list" where
  "halves ps = concat (map (\<lambda>p. [p, p + 2046]) ps)"

lemma pairs_fold:
  assumes "\<And>x bufs k p k1. x \<in> set xs \<Longrightarrow> kalloc k = (p, k1) \<Longrightarrow>
      \<exists>m. f x (bufs, k) = (bufs @ [p, p + 2046], k1\<lparr>memory := m\<rparr>) \<and> (\<forall>y. PGROUNDDOWN y \<noteq> r \<longrightarrow> m y = memory k1 y)"
    and "kmem_inv kend k" "r \<notin> kmem_avail k" "length xs \<le> card (kmem_avail k)" "fold f xs (bufs, k) = (bufs', k')"
  shows "\<exists>ps. bufs' = bufs @ halves ps \<and> length ps = length xs \<and> distinct ps \<and> set ps \<subseteq> kmem_avail k \<and>
    kmem_inv kend k' \<and> kmem_avail k' = kmem_avail k - set ps"
  using assms
proof (induction xs arbitrary: bufs k)
  case Nil
  then show ?case by (intro exI [of _ "[]"]) (simp add: halves_def)
next
  case (Cons x xs)
  obtain p k1 where p: "kalloc k = (p, k1)" by fastforce
  have fin: "finite (kmem_avail k)" using Cons.prems(2) by (rule kpages.avail_finite)
  have "kmem_avail k \<noteq> {}" using Cons.prems(4) by auto
  from kpages.alloc_some [OF Cons.prems(2) this p]
  have k1: "p \<in> kmem_avail k" "kmem_inv kend k1" "kmem_avail k1 = kmem_avail k - {p}" by auto
  obtain m where m: "f x (bufs, k) = (bufs @ [p, p + 2046], k1\<lparr>memory := m\<rparr>)" "\<forall>y. PGROUNDDOWN y \<noteq> r \<longrightarrow> m y = memory k1 y"
    using Cons.prems(1) [of x k p k1 bufs] p by auto
  have "r \<notin> kmem_avail k1" using k1(3) Cons.prems(3) by simp
  then have "m y = memory k1 y" if "PGROUNDDOWN y \<in> kmem_avail k1" for y using m(2) that by auto
  note k2 = kmem_cong [OF k1(2) this]
  let ?k2 = "k1\<lparr>memory := m\<rparr>"
  have "\<exists>ps. bufs' = (bufs @ [p, p + 2046]) @ halves ps \<and> length ps = length xs \<and> distinct ps \<and> set ps \<subseteq> kmem_avail ?k2 \<and>
    kmem_inv kend k' \<and> kmem_avail k' = kmem_avail ?k2 - set ps"
  proof (rule Cons.IH)
    show "\<exists>m. f x (bufs, k) = (bufs @ [p, p + 2046], k1\<lparr>memory := m\<rparr>) \<and> (\<forall>y. PGROUNDDOWN y \<noteq> r \<longrightarrow> m y = memory k1 y)"
      if "x \<in> set xs" "kalloc k = (p, k1)" for x bufs k p k1 using Cons.prems(1) [of x k p k1 bufs] that by simp
  qed (use k2 k1 Cons.prems m(1) fin in auto)
  then obtain ps where ps: "bufs' = (bufs @ [p, p + 2046]) @ halves ps" "length ps = length xs" "distinct ps"
    "set ps \<subseteq> kmem_avail ?k2" "kmem_inv kend k'" "kmem_avail k' = kmem_avail ?k2 - set ps" by blast
  then show ?case using k1 k2 by (intro exI [of _ "p # ps"]) (auto simp: halves_def)
qed

lemma store32_page:
  assumes "unat r mod 4096 = 0" "n + 4 \<le> 4096" "PGROUNDDOWN y \<noteq> r"
  shows "store32 m (r + of_nat n) w y = m y"
proof (rule store32_other, rule ccontr)
  assume "\<not> 4 \<le> off (r + of_nat n) y"
  then have "PGROUNDDOWN (r + of_nat (n + off (r + of_nat n) y)) = r" using assms by (intro PGROUNDDOWN_offset) auto
  moreover have "r + of_nat (n + off (r + of_nat n) y) = y" by (simp only: of_nat_add add.assoc [symmetric] add_off)
  ultimately show False using assms(3) by simp
qed

lemma rx_pair_body:
  assumes "unat r mod 4096 = 0" "i + 1 < 128" "kalloc k = (p, k1)"
  shows "\<exists>m. rx_pair (desc_ring r) i (bufs, k) = (bufs @ [p, p + 2046], k1\<lparr>memory := m\<rparr>) \<and>
    (\<forall>y. PGROUNDDOWN y \<noteq> r \<longrightarrow> m y = memory k1 y)"
proof -
  have a: "desc_ring r ! i = r + of_nat (16 * i)" "desc_ring r ! i + 4 = r + of_nat (16 * i + 4)"
    "desc_ring r ! (i + 1) = r + of_nat (16 * i + 16)" "desc_ring r ! (i + 1) + 4 = r + of_nat (16 * i + 20)"
    using assms(2) by (simp_all add: desc_ring_nth)
  have st: "store32 m (r + of_nat n) w y = m y" if "n \<in> {16 * i, 16 * i + 4, 16 * i + 16, 16 * i + 20}" "PGROUNDDOWN y \<noteq> r" for n m w y
    using that assms(2) by (intro store32_page [OF assms(1)]) auto
  show ?thesis
    unfolding rx_pair_def prod.case assms(3) Let_def a(2,4) unfolding a(1,3)
    by (rule exI, rule conjI, rule refl, intro allI impI) (simp add: st del: of_nat_add of_nat_mult)
qed

lemma page_paragraph:
  assumes "page_ok kend p"
  shows "V2P p AND 0xf = 0"
proof -
  have "unat (V2P p) = unat p - 0x80000000"
    using assms V2P_below [of p] by (auto simp: page_ok_def V2P_def unat_sub word_le_nat_alt)
  moreover have "16 dvd unat p" by (rule dvd_trans [of 16 4096]) (use page_ok_aligned [OF assms] in auto)
  then have "16 dvd unat p - 0x80000000" by (rule dvd_diff_nat) simp
  ultimately have "unat (V2P p) mod 16 = 0" by simp
  then have "V2P p mod 16 = 0" by (simp add: word_unat_eq_iff unat_mod_distrib)
  moreover have "V2P p AND 0xf = V2P p mod 16" using take_bit_eq_mask [of 4 "V2P p"] by (simp add: take_bit_eq_mod mask_eq_exp_minus_1)
  ultimately show ?thesis by simp
qed

lemma setup_rings_layout:
  assumes "kmem_inv kend (kpool s)" "130 \<le> card (kmem_avail (kpool s))"
  shows "\<exists>t r rps tps s'. setup_rings kend e s = Ok (0, e\<lparr>tbd := desc_ring t, rbd := desc_ring r, rx_buf := halves rps, tx_buf := halves tps\<rparr>, s') \<and>
    length rps = 64 \<and> length tps = 64 \<and> distinct (t # r # rps @ tps) \<and> set (t # r # rps @ tps) \<subseteq> kmem_avail (kpool s) \<and> events s' = events s"
proof -
  define xs where "xs = map ((*) 2) [0..<64 :: nat]"
  have xs: "length xs = 64" "x \<in> set xs \<Longrightarrow> x + 1 < 128" for x by (auto simp: xs_def)
  let ?A = "kmem_avail (kpool s)"
  have fin: "finite ?A" using assms(1) by (rule kpages.avail_finite)
  obtain t k1 where t: "kalloc (kpool s) = (t, k1)" by fastforce
  have "?A \<noteq> {}" using assms(2) by auto
  from kpages.alloc_some [OF assms(1) this t] have k1: "t \<in> ?A" "kmem_inv kend k1" "kmem_avail k1 = ?A - {t}" by auto
  have c1: "129 \<le> card (kmem_avail k1)" using assms(2) k1 fin by simp
  obtain r k2 where r: "kalloc k1 = (r, k2)" by fastforce
  have "kmem_avail k1 \<noteq> {}" using c1 by auto
  from kpages.alloc_some [OF k1(2) this r]
  have k2: "r \<in> kmem_avail k1" "kmem_inv kend k2" "kmem_avail k2 = kmem_avail k1 - {r}" by auto
  have c2: "128 \<le> card (kmem_avail k2)" using c1 k2 fin k1 by simp
  have ok: "page_ok kend t" "page_ok kend r" using kpages.avail_valid assms(1) k1 k2 by blast+
  obtain rxs k3 where rx: "fold (rx_pair (desc_ring r)) xs ([], k2) = (rxs, k3)" by fastforce
  have body: "\<exists>m. rx_pair (desc_ring r) x (bufs, k) = (bufs @ [p, p + 2046], k1\<lparr>memory := m\<rparr>) \<and> (\<forall>y. PGROUNDDOWN y \<noteq> r \<longrightarrow> m y = memory k1 y)"
    if "x \<in> set xs" "kalloc k = (p, k1)" for x bufs k p k1
    using that xs(2) by (intro rx_pair_body [OF page_ok_aligned [OF ok(2)]])
  have "\<exists>ps. rxs = [] @ halves ps \<and> length ps = length xs \<and> distinct ps \<and> set ps \<subseteq> kmem_avail k2 \<and>
    kmem_inv kend k3 \<and> kmem_avail k3 = kmem_avail k2 - set ps"
    by (rule pairs_fold [OF body k2(2) _ _ rx]) (use c2 k2 xs(1) in auto)
  then obtain rps where rps: "rxs = halves rps" "length rps = 64" "distinct rps" "set rps \<subseteq> kmem_avail k2" "kmem_inv kend k3"
    "kmem_avail k3 = kmem_avail k2 - set rps" using xs(1) by auto
  obtain txs k4 where tx: "fold tx_pair xs ([], k3) = (txs, k4)" by fastforce
  have "card (kmem_avail k3) = card (kmem_avail k2) - card (set rps)" using rps fin k1 k2 by (simp add: card_Diff_subset)
  then have c3: "64 \<le> card (kmem_avail k3)" using c2 rps by (simp add: distinct_card)
  have body': "\<exists>m. tx_pair x (bufs, k) = (bufs @ [p, p + 2046], k1\<lparr>memory := m\<rparr>) \<and> (\<forall>y. PGROUNDDOWN y \<noteq> r \<longrightarrow> m y = memory k1 y)"
    if "x \<in> set xs" "kalloc k = (p, k1)" for x bufs k p k1
    using that by (intro exI [of _ "memory k1"]) (simp add: tx_pair_def)
  have "\<exists>ps. txs = [] @ halves ps \<and> length ps = length xs \<and> distinct ps \<and> set ps \<subseteq> kmem_avail k3 \<and>
    kmem_inv kend k4 \<and> kmem_avail k4 = kmem_avail k3 - set ps"
    by (rule pairs_fold [OF body' rps(5) _ _ tx]) (use c3 rps(6) k2 xs(1) in auto)
  then obtain tps where tps: "txs = halves tps" "length tps = 64" "distinct tps" "set tps \<subseteq> kmem_avail k3" using xs(1) by auto
  have first: "desc_ring t ! 0 = t" "desc_ring r ! 0 = r" by (simp_all add: desc_ring_nth)
  have par: "V2P t AND 0xf = 0" "V2P r AND 0xf = 0" "r \<noteq> 0" using ok page_paragraph page_ok_nonzero by blast+
  have "setup_rings kend e s =
      Ok (0, e\<lparr>tbd := desc_ring t, rbd := desc_ring r, rx_buf := halves rps, tx_buf := halves tps\<rparr>, s\<lparr>kpool := k4\<rparr>)"
    by (simp add: setup_rings_def t r rx tx first par rps(1) tps(1) xs_def [symmetric] del: upt_rec_numeral)
  moreover have "distinct (t # r # rps @ tps)"
    using k1(3) k2(1,3) rps(3,4,6) tps(3,4) by (simp add: subset_iff) blast
  moreover have "set (t # r # rps @ tps) \<subseteq> ?A"
    using k1(1,3) k2(1,3) rps(4,6) tps(4) by (simp add: subset_iff)
  ultimately show ?thesis using rps(2) tps(2) by (intro exI [of _ t] exI [of _ r] exI [of _ rps] exI [of _ tps] exI [of _ "s\<lparr>kpool := k4\<rparr>"]) simp
qed

lemma halves_length: "length (halves ps) = 2 * length ps"
  by (induction ps) (auto simp: halves_def)

lemma halves_nth: "j < 2 * length ps \<Longrightarrow> halves ps ! j = ps ! (j div 2) + of_nat (2046 * (j mod 2))"
proof (induction ps arbitrary: j)
  case (Cons p ps)
  consider "j = 0" | "j = 1" | i where "j = i + 2" by (metis One_nat_def add_2_eq_Suc' not0_implies_Suc)
  then show ?case
  proof cases
    case (3 i)
    then show ?thesis using Cons.IH [of i] Cons.prems by (simp add: halves_def)
  qed (simp_all add: halves_def)
qed simp

lemma halves_apart:
  assumes "length ps = 64" "distinct ps" "\<forall>p\<in>set ps. unat p mod 4096 = 0" "i < 128" "j < 128" "i \<noteq> j"
  shows "apart (halves ps ! i) 2046 (halves ps ! j) 2046"
proof -
  have n: "halves ps ! i = ps ! (i div 2) + of_nat (2046 * (i mod 2))" "halves ps ! j = ps ! (j div 2) + of_nat (2046 * (j mod 2))"
    using assms by (simp_all add: halves_nth)
  have m: "i mod 2 < 2" "j mod 2 < 2" by simp_all
  show ?thesis
  proof (cases "i div 2 = j div 2")
    case True
    then have "i mod 2 \<noteq> j mod 2" using assms(6) by (metis mult_div_mod_eq)
    then have "i mod 2 = 0 \<and> j mod 2 = 1 \<or> i mod 2 = 1 \<and> j mod 2 = 0" using m by linarith
    then show ?thesis unfolding n True by (intro apart_offsets) auto
  next
    case False
    then have "ps ! (i div 2) \<noteq> ps ! (j div 2)" using assms by (simp add: nth_eq_iff_index_eq)
    then show ?thesis unfolding n using assms m by (intro apart_pages) auto
  qed
qed

lemma ring_apart: "i < 128 \<Longrightarrow> j < 128 \<Longrightarrow> i \<noteq> j \<Longrightarrow> apart (desc_ring t ! i) 16 (desc_ring t ! j) 16"
  unfolding desc_ring_nth by (intro apart_offsets) auto

lemma ring_halves_apart:
  assumes "length ps = 64" "t \<notin> set ps" "unat t mod 4096 = 0" "\<forall>p\<in>set ps. unat p mod 4096 = 0" "i < 128" "j < 128"
  shows "apart (desc_ring t ! i) 16 (halves ps ! j) 2046"
proof -
  have j: "halves ps ! j = ps ! (j div 2) + of_nat (2046 * (j mod 2))" "ps ! (j div 2) \<in> set ps" "j mod 2 < 2"
    using assms by (simp_all add: halves_nth)
  have "t \<noteq> ps ! (j div 2)" using assms(2) j(2) by metis
  then show ?thesis unfolding j(1) desc_ring_nth [OF assms(5)] using assms j by (intro apart_pages) auto
qed

lemma reset_card_link:
  assumes "reset_card mmio e s = Ok s'"
  shows "tx_link (tx_ring_of (membase e) (events s'))"
proof -
  define s1 where "s1 = e1000_reg_write 0 (e1000_reg_read mmio 0 e s OR 0x04000000) e s"
  define x where "x = e1000_reg_read mmio 0 e s1"
  have x: "x AND 0x04000000 = 0" "s' = e1000_reg_write 0 (x OR 0x20 OR 0x40) e s1"
    using assms by (auto simp: reset_card_def Let_def s1_def x_def split: if_splits)
  have "(x OR 0x20 OR 0x40) AND 0x04000000 = 0" "(x OR 0x20 OR 0x40) AND 0x40 \<noteq> 0"
    using x(1) by (simp_all add: bit.conj_disj_distrib2 or_eq_0_iff)
  then show ?thesis using x(2) by (simp add: e1000_reg_write_def tx_event_def)
qed

lemma start_card_ring:
  "tx_ring_of (membase e) (events (start_card e s)) =
     \<lparr>td_base = V2P (tbd e ! 0), td_high = 0, td_len = 0x40000, td_head = 0, td_tail = 0, tx_on = True,
      tx_link = tx_link (tx_ring_of (membase e) (events s))\<rparr>"
  by (simp add: start_card_def ring_registers_def e1000_reg_write_def Let_def tx_ring_of_def tx_event_def
    E1000_TCTL_CT_SET_def E1000_TCTL_COLD_SET_def)

lemma e1000_init_result:
  assumes "kmem_inv kend (kpool s)" "131 \<le> card (kmem_avail (kpool s))" "e1000_init kend mmio pcif s = Ok (r, drv, out, s')"
  obtains e t rr rps tps s3 where "r = 0" "drv = Some e" "tbd_tail e = 0" "s' = start_card e s3"
    "tx_link (tx_ring_of (membase e) (events s3))" "tbd e = desc_ring t" "rbd e = desc_ring rr" "rx_buf e = halves rps" "tx_buf e = halves tps"
    "length rps = 64" "length tps = 64" "distinct (t # rr # rps @ tps)" "\<forall>p\<in>set (t # rr # rps @ tps). unat p mod 4096 = 0"
proof -
  obtain page k1 where page: "kalloc (kpool s) = (page, k1)" by fastforce
  have fin: "finite (kmem_avail (kpool s))" using assms(1) by (rule kpages.avail_finite)
  have "kmem_avail (kpool s) \<noteq> {}" using assms(2) by auto
  from kpages.alloc_some [OF assms(1) this page]
  have k1: "page \<in> kmem_avail (kpool s)" "kmem_inv kend k1" "kmem_avail k1 = kmem_avail (kpool s) - {page}" by auto
  then have c: "130 \<le> card (kmem_avail k1)" using assms(2) fin by simp
  have reset: "kpool u' = kpool u" if "reset_card mmio e u = Ok u'" for e u u'
    using that by (auto simp: reset_card_def e1000_reg_write_def Let_def split: if_splits)
  from assms(3) obtain io mm s2 e2 s3 r2 where
    e: "reset_card mmio (fresh_e1000 io mm pcif) (s\<lparr>kpool := k1\<rparr>) = Ok s2"
    "setup_rings kend ((fresh_e1000 io mm pcif)\<lparr>mac_addr := mac_bytes (e1000_reg_read mmio 0x05400 (fresh_e1000 io mm pcif) s2)
       (e1000_reg_read mmio 0x05404 (fresh_e1000 io mm pcif) s2)\<rparr>) s2 = Ok (r2, e2, s3)"
    "(r, drv, s') = (if r2 < 0 then (r2, None, s3) else (0, Some e2, start_card e2 s3))"
    by (auto simp: e1000_init_def page Let_def split: if_splits prod.splits)
  have "kpool s2 = k1" using reset [OF e(1)] by simp
  then have "kmem_inv kend (kpool s2)" "130 \<le> card (kmem_avail (kpool s2))" using k1(2) c by simp_all
  from setup_rings_layout [OF this, of "(fresh_e1000 io mm pcif)\<lparr>mac_addr := mac_bytes (e1000_reg_read mmio 0x05400 (fresh_e1000 io mm pcif) s2)
       (e1000_reg_read mmio 0x05404 (fresh_e1000 io mm pcif) s2)\<rparr>", unfolded e(2)] obtain t rr rps tps where
    l: "r2 = 0" "tbd e2 = desc_ring t" "rbd e2 = desc_ring rr" "rx_buf e2 = halves rps" "tx_buf e2 = halves tps" "tbd_tail e2 = 0"
      "membase e2 = mm" "events s3 = events s2"
    and ps: "length rps = 64" "length tps = 64" "distinct (t # rr # rps @ tps)" "set (t # rr # rps @ tps) \<subseteq> kmem_avail (kpool s2)"
    by (auto simp: fresh_e1000_def)
  have "unat p mod 4096 = 0" if "p \<in> set (t # rr # rps @ tps)" for p
    using kpages.avail_valid [OF k1(2)] ps(4) that \<open>kpool s2 = k1\<close> by (blast intro: page_ok_aligned)
  moreover have "tx_link (tx_ring_of (membase e2) (events s3))" using reset_card_link [OF e(1)] l by (simp add: fresh_e1000_def)
  ultimately show thesis using e(3) l ps by (intro that [of e2 s3 t rr rps tps]) auto
qed

lemma halves_halves_apart:
  assumes "length ps = 64" "length qs = 64" "set ps \<inter> set qs = {}" "\<forall>p\<in>set ps \<union> set qs. unat p mod 4096 = 0" "i < 128" "j < 128"
  shows "apart (halves ps ! i) 2046 (halves qs ! j) 2046"
proof -
  have h: "halves ps ! i = ps ! (i div 2) + of_nat (2046 * (i mod 2))" "halves qs ! j = qs ! (j div 2) + of_nat (2046 * (j mod 2))"
    "ps ! (i div 2) \<in> set ps" "qs ! (j div 2) \<in> set qs" "i mod 2 < 2" "j mod 2 < 2"
    using assms by (simp_all add: halves_nth)
  then have "ps ! (i div 2) \<noteq> qs ! (j div 2)" using assms(3) by auto
  then show ?thesis unfolding h(1,2) using assms(4) h by (intro apart_pages) auto
qed

text \<open>C17. Bringing the card up lays out its memory without overlaps.  If the call returns, with at least 131 free pages, it
  succeeds and hands over a driver whose 128 transmit and 128 receive descriptors and whose 128 transmit and 128 receive
  buffers of 2046 bytes are pairwise disjoint, all 512 of them; transmission starts at slot 0, and the card is switched
  on, with the link up, and runs on the transmit ring of the driver.\<close>

theorem e1000_init_layout:
  assumes "kmem_inv kend (kpool s)" "131 \<le> card (kmem_avail (kpool s))" "e1000_init kend mmio pcif s = Ok (r, drv, out, s')"
  shows "r = 0 \<and> (\<exists>e. drv = Some e \<and> driver_ok e \<and> tbd_tail e = 0 \<and> card_ready e (events s') \<and>
    driver_ok (e\<lparr>tbd := rbd e, tx_buf := rx_buf e\<rparr>) \<and>
    (\<forall>i<128. \<forall>j<128. apart (tbd e ! i) 16 (rbd e ! j) 16 \<and> apart (tx_buf e ! i) 2046 (rx_buf e ! j) 2046 \<and>
       apart (tbd e ! i) 16 (rx_buf e ! j) 2046 \<and> apart (rbd e ! i) 16 (tx_buf e ! j) 2046))"
proof -
  obtain e t rr rps tps s3 where l: "r = 0" "drv = Some e" "tbd_tail e = 0" "s' = start_card e s3"
    "tx_link (tx_ring_of (membase e) (events s3))" "tbd e = desc_ring t" "rbd e = desc_ring rr" "rx_buf e = halves rps" "tx_buf e = halves tps"
    and ps: "length rps = 64" "length tps = 64" "distinct (t # rr # rps @ tps)" "\<forall>p\<in>set (t # rr # rps @ tps). unat p mod 4096 = 0"
    by (rule e1000_init_result [OF assms])
  have len: "length (desc_ring x) = 128" for x by (simp add: desc_ring_def)
  have "driver_ok e" unfolding driver_ok_def l
    using ps by (auto simp: len halves_length intro!: ring_apart halves_apart ring_halves_apart)
  moreover have "driver_ok (e\<lparr>tbd := rbd e, tx_buf := rx_buf e\<rparr>)" unfolding driver_ok_def
    using ps by (auto simp: l len halves_length intro!: ring_apart halves_apart ring_halves_apart)
  moreover have "apart (tbd e ! i) 16 (rbd e ! j) 16" if "i < 128" "j < 128" for i j
    unfolding l desc_ring_nth [OF that(1)] desc_ring_nth [OF that(2)] using ps that by (intro apart_pages) auto
  moreover have "apart (tx_buf e ! i) 2046 (rx_buf e ! j) 2046" "apart (tbd e ! i) 16 (rx_buf e ! j) 2046"
    "apart (rbd e ! i) 16 (tx_buf e ! j) 2046" if "i < 128" "j < 128" for i j
    unfolding l using ps that by (auto intro!: halves_halves_apart ring_halves_apart)
  moreover have "desc_ring t ! 0 = t" by (simp add: desc_ring_nth)
  then have "card_ready e (events s')" using l(3,5,6) by (simp add: l(4) card_ready_def start_card_ring)
  ultimately show ?thesis using l(1,2,3) by blast
qed

text \<open>The regions of the card that the emulator shows, and an allocator with the 256 pages of one megabyte.\<close>

definition some_pci :: pci_func where
  "some_pci = \<lparr>busno = 0, dev = 3, func = 0, dev_id = 0x100e8086, dev_class = 0x02000003,
     reg_base = [0xfebc0000, 0xc000, 0, 0, 0, 0], reg_size = [0x20000, 64, 0, 0, 0, 0], irq_line = 11, irq_pin = 1\<rparr>"

lemma megabyte:
  "\<exists>k. kmem_inv 0x80110000 k \<and> 131 \<le> card (kmem_avail k)"
proof -
  define k0 where "k0 = \<lparr>memory = \<lambda>_. 0, use_lock = False, freelist = 0\<rparr>"
  have l0: "kmem_list 0x80110000 k0 []" by (simp add: k0_def kmem_list_def)
  have r: "PGROUNDUP 0x80400000 = 0x80400000" by (simp add: PGROUNDUP_def)
  obtain k where k: "kmem_inv 0x80110000 k" "kmem_avail k = kmem_avail k0 \<union> pages_between 0x80400000 0x80500000"
    using freerange_pages [of "0x80110000" k0 "0x80400000" "0x80500000"] l0 kmem_avail_list [OF l0]
    by (auto simp: kmem_inv_def r)
  let ?f = "\<lambda>i. 0x80400000 + of_nat (4096 * i) :: u32"
  have u: "unat (?f i) = 0x80400000 + 4096 * i" if "i < 256" for i
    using that by (simp only: unat_word_ariths unat_of_nat) simp
  have "inj_on ?f {..<256}" by (rule inj_onI) (metis (no_types) u lessThan_iff add_left_cancel mult_left_cancel zero_neq_numeral)
  then have "card (?f ` {..<256}) = 256" by (simp add: card_image)
  moreover have "?f ` {..<256} \<subseteq> kmem_avail k" using u by (auto simp: k(2) pages_between_def word_le_nat_alt simp del: of_nat_mult)
  moreover have "finite (kmem_avail k)" using k(1) by (rule kpages.avail_finite)
  ultimately have "256 \<le> card (kmem_avail k)" by (metis card_mono)
  then show ?thesis using k(1) by (intro exI [of _ k]) simp
qed

lemma some_init:
  "\<exists>k e out s'. kmem_inv 0x80110000 k \<and> 131 \<le> card (kmem_avail k) \<and>
     e1000_init 0x80110000 (\<lambda>_ _. 0) some_pci \<lparr>kpool = k, events = []\<rparr> = Ok (0, Some e, out, s')"
proof -
  obtain k where k: "kmem_inv 0x80110000 k" "131 \<le> card (kmem_avail k)" using megabyte by blast
  define s where "s = \<lparr>kpool = k, events = []\<rparr>"
  obtain page k1 where page: "kalloc k = (page, k1)" by fastforce
  have fin: "finite (kmem_avail k)" using k(1) by (rule kpages.avail_finite)
  have "kmem_avail k \<noteq> {}" using k(2) by auto
  from kpages.alloc_some [OF k(1) this page] have k1: "page \<in> kmem_avail k" "kmem_inv 0x80110000 k1" "kmem_avail k1 = kmem_avail k - {page}" by auto
  have nz: "page \<noteq> 0" using kpages.avail_valid [OF k(1) k1(1)] page_ok_nonzero by blast
  have c: "130 \<le> card (kmem_avail k1)" using k(2) k1 fin by simp
  have b: "bases some_pci page m = Ok (0xc000, 0xfebc0000)" for m by (simp add: bases_def some_pci_def)
  let ?e = "fresh_e1000 0xc000 0xfebc0000 some_pci"
  obtain s2 where s2: "reset_card (\<lambda>_ _. 0) ?e (s\<lparr>kpool := k1\<rparr>) = Ok s2" "kpool s2 = k1"
    by (simp add: reset_card_def e1000_reg_read_def e1000_reg_write_def Let_def)
  have inv: "kmem_inv 0x80110000 (kpool s2)" "130 \<le> card (kmem_avail (kpool s2))" using s2(2) k1(2) c by simp_all
  obtain e3 s3 where "setup_rings 0x80110000 (?e\<lparr>mac_addr := mac_bytes 0 0\<rparr>) s2 = Ok (0, e3, s3)"
    using setup_rings_layout [OF inv, of "?e\<lparr>mac_addr := mac_bytes 0 0\<rparr>"] by auto
  then have "\<exists>e out s'. e1000_init 0x80110000 (\<lambda>_ _. 0) some_pci s = Ok (0, Some e, out, s')"
    using page nz b s2(1) by (simp add: e1000_init_def s_def e1000_reg_read_def Let_def)
  then show ?thesis using k unfolding s_def by blast
qed

theorem e1000_init_layout_witness:
  "\<exists>k e out s'. e1000_init 0x80110000 (\<lambda>_ _. 0) some_pci \<lparr>kpool = k, events = []\<rparr> = Ok (0, Some e, out, s') \<and>
     driver_ok e \<and> card_ready e (events s')"
proof -
  obtain k e out s1 where i: "kmem_inv 0x80110000 k" "131 \<le> card (kmem_avail k)"
    "e1000_init 0x80110000 (\<lambda>_ _. 0) some_pci \<lparr>kpool = k, events = []\<rparr> = Ok (0, Some e, out, s1)"
    using some_init by blast
  then show ?thesis using e1000_init_layout [of "0x80110000" "\<lparr>kpool = k, events = []\<rparr>" "\<lambda>_ _. 0" some_pci] by fastforce
qed

subsection \<open>What the card is told of its rings\<close>

text \<open>Packets sent one after another.\<close>

primrec send_all ::
  "(event list \<Rightarrow> mem \<Rightarrow> mem) \<Rightarrow> u8 list list \<Rightarrow> e1000 \<Rightarrow> 'a netstate_scheme \<Rightarrow> (e1000 \<times> 'a netstate_scheme) res" where
  "send_all dma [] e s = Ok (e, s)"
| "send_all dma (pkt # pkts) e s = bindr (e1000_send dma e pkt s) (\<lambda>(e, s). send_all dma pkts e s)"

lemma send_all_append:
  "send_all dma (ps @ qs) e s = bindr (send_all dma ps e s) (\<lambda>(e, s). send_all dma qs e s)"
  by (induction ps arbitrary: e s) (auto simp: bindr_assoc split_def)

text \<open>The value last written to a register, and the size of the receive buffers that the receive control register selects.\<close>

definition last_written :: "u32 \<Rightarrow> event list \<Rightarrow> u32" where
  "last_written a evs = fold (\<lambda>ev v. case ev of Mmio b w \<Rightarrow> if b = a then w else v | _ \<Rightarrow> v) evs 0"

definition rx_buffer_bytes :: "u32 \<Rightarrow> nat" where
  "rx_buffer_bytes rctl =
     (let k = drop_bit 16 rctl AND 3
      in (if k = 0 then 2048 else if k = 1 then 1024 else if k = 2 then 512 else 256) *
         (if rctl AND 0x02000000 \<noteq> 0 then 16 else 1))"

lemma start_card_rctl: "last_written (membase e + 0x00100) (events (start_card e s)) = 0x800A"
  by (simp add: start_card_def ring_registers_def e1000_reg_write_def Let_def last_written_def)

lemma e1000_send_event:
  assumes "e1000_send dma e pkt s = Ok (e', s')"
  shows "e' = e\<lparr>tbd_tail := (tbd_tail e + 1) mod 128\<rparr> \<and>
    events s' = events s @ [Mmio (membase e + 0x03818) (of_nat ((tbd_tail e + 1) mod 128))]"
  using assms by (auto simp: e1000_send_def Let_def e1000_reg_write_def split: if_splits)

lemma send_all_ring:
  assumes "send_all dma pkts e s = Ok (e', s')" "tx_on (tx_ring_of (membase e) (events s))" "td_head (tx_ring_of (membase e) (events s)) = of_nat (tbd_tail e)"
    "tbd_tail e + length pkts < 128"
  shows "membase e' = membase e \<and> tbd_tail e' = tbd_tail e + length pkts \<and>
    tx_on (tx_ring_of (membase e) (events s')) \<and> td_len (tx_ring_of (membase e) (events s')) = td_len (tx_ring_of (membase e) (events s)) \<and>
    td_head (tx_ring_of (membase e) (events s')) = of_nat (tbd_tail e')"
  using assms
proof (induction pkts arbitrary: e s)
  case (Cons pkt pkts)
  then obtain e1 s1 where 1: "e1000_send dma e pkt s = Ok (e1, s1)" "send_all dma pkts e1 s1 = Ok (e', s')" by auto
  note e1 = e1000_send_event [OF 1(1)]
  show ?case using Cons.IH [OF 1(2)] Cons.prems e1 by (simp add: tx_event_tail)
qed simp

text \<open>C37. The card is told of more than there is.  Once the driver has sent 128 packets the tail it writes wraps around to
  0, but by the length register that it wrote the card's ring does not end there: the slots that this hands the card are
  127, the last descriptor of the driver, and all those from 128 to 16383, which are whatever follows the ring in memory.
  And with the receive buffer size selected by the receive control register, the two receive buffers in each page overlap.\<close>

theorem e1000_ring_registers_exceed:
  assumes "kmem_inv kend (kpool s)" "131 \<le> card (kmem_avail (kpool s))" "e1000_init kend mmio pcif s = Ok (r, drv, out, s')"
  shows "\<exists>e. drv = Some e \<and> length (tbd e) = 128 \<and>
    (\<forall>dma pkts e2 s2. length pkts = 128 \<longrightarrow> send_all dma pkts e s' = Ok (e2, s2) \<longrightarrow>
       (\<exists>evs. events s2 = evs @ [Mmio (membase e + 0x03818) 0] \<and> tx_slots (tx_ring_of (membase e) evs) 0 = [127..<16384])) \<and>
    (let n = rx_buffer_bytes (last_written (membase e + 0x00100) (events s'))
     in \<forall>i<64. \<not> apart (rx_buf e ! (2 * i)) n (rx_buf e ! (2 * i + 1)) n)"
proof -
  obtain e t rr rps tps s3 where l: "r = 0" "drv = Some e" "tbd_tail e = 0" "s' = start_card e s3"
    "tx_link (tx_ring_of (membase e) (events s3))" "tbd e = desc_ring t" "rbd e = desc_ring rr" "rx_buf e = halves rps" "tx_buf e = halves tps"
    and ps: "length rps = 64" "length tps = 64" "distinct (t # rr # rps @ tps)" "\<forall>p\<in>set (t # rr # rps @ tps). unat p mod 4096 = 0"
    by (rule e1000_init_result [OF assms])
  have "\<exists>evs. events s2 = evs @ [Mmio (membase e + 0x03818) 0] \<and> tx_slots (tx_ring_of (membase e) evs) 0 = [127..<16384]"
    if n: "length pkts = 128" and sa: "send_all dma pkts e s' = Ok (e2, s2)" for dma pkts e2 s2
  proof -
    have "pkts \<noteq> []" using n by auto
    then obtain qs q where pq: "pkts = qs @ [q]" "length qs = 127" using n by (cases pkts rule: rev_cases) auto
    obtain e1 s1 where 1: "send_all dma qs e s' = Ok (e1, s1)" "e1000_send dma e1 q s1 = Ok (e2, s2)"
      using sa unfolding pq(1) send_all_append by auto
    have c: "membase e1 = membase e" "tbd_tail e1 = 127" "td_len (tx_ring_of (membase e) (events s1)) = 0x40000"
        "td_head (tx_ring_of (membase e) (events s1)) = 127"
      using send_all_ring [OF 1(1)] pq(2) l(3) by (simp_all add: l(4) start_card_ring)
    then show ?thesis using e1000_send_event [OF 1(2)] by (intro exI [of _ "events s1"]) (simp add: tx_slots_def del: upt_rec_numeral)
  qed
  moreover have "\<not> apart (rx_buf e ! (2 * i)) 2048 (rx_buf e ! (2 * i + 1)) 2048" if "i < 64" for i
  proof
    assume "apart (rx_buf e ! (2 * i)) 2048 (rx_buf e ! (2 * i + 1)) 2048"
    from this [unfolded apart_def, rule_format, of 2046 0]
    have "rx_buf e ! (2 * i) + of_nat 2046 \<noteq> rx_buf e ! (2 * i + 1) + of_nat 0" by simp
    then show False using that ps(1) by (simp add: l(8) halves_nth)
  qed
  moreover have "rx_buffer_bytes (last_written (membase e + 0x00100) (events s')) = 2048"
    by (simp add: l(4) start_card_rctl rx_buffer_bytes_def)
  moreover have "length (tbd e) = 128" by (simp add: l(6) desc_ring_def)
  ultimately show ?thesis using l(2) unfolding Let_def by (intro exI [of _ e]) (simp del: upt_rec_numeral)
qed

lemma send_all_returns:
  "length (tbd e) = 128 \<Longrightarrow> length (tx_buf e) = 128 \<Longrightarrow> tbd_tail e < 128 \<Longrightarrow> \<exists>e' s'. send_all (\<lambda>_ _ _. 1) pkts e s = Ok (e', s')"
proof (induction pkts arbitrary: e s)
  case (Cons pkt pkts)
  obtain e1 s1 where 1: "e1000_send (\<lambda>_ _ _. 1) e pkt s = Ok (e1, s1)" using Cons.prems by (simp add: e1000_send_def Let_def)
  then show ?case using Cons.IH [of e1 s1] Cons.prems e1000_send_event [OF 1] by simp
qed simp

text \<open>The emulator's card and a card that reports every packet sent at once.\<close>

theorem e1000_ring_registers_exceed_witness:
  "\<exists>k e s1 e2 s2 out evs. e1000_init 0x80110000 (\<lambda>_ _. 0) some_pci \<lparr>kpool = k, events = []\<rparr> = Ok (0, Some e, out, s1) \<and>
     send_all (\<lambda>_ _ _. 1) (replicate 128 []) e s1 = Ok (e2, s2) \<and>
     events s2 = evs @ [Mmio (membase e + 0x03818) 0] \<and> tx_slots (tx_ring_of (membase e) evs) 0 = [127..<16384]"
proof -
  obtain k e out s1 where i: "kmem_inv 0x80110000 k" "131 \<le> card (kmem_avail k)"
    "e1000_init 0x80110000 (\<lambda>_ _. 0) some_pci \<lparr>kpool = k, events = []\<rparr> = Ok (0, Some e, out, s1)"
    using some_init by blast
  have p: "kmem_inv 0x80110000 (kpool \<lparr>kpool = k, events = []\<rparr>)" "131 \<le> card (kmem_avail (kpool \<lparr>kpool = k, events = []\<rparr>))"
    using i by simp_all
  have "length (tbd e) = 128" "length (tx_buf e) = 128" "tbd_tail e = 0"
    by (rule e1000_init_result [OF p i(3)], simp add: desc_ring_def halves_length)+
  then obtain e2 s2 where s: "send_all (\<lambda>_ _ _. 1) (replicate 128 []) e s1 = Ok (e2, s2)" using send_all_returns [of e "replicate 128 []" s1] by (metis zero_less_numeral)
  have "length (replicate 128 ([] :: u8 list)) = 128" by simp
  then show ?thesis using e1000_ring_registers_exceed [OF p i(3)] i(3) s by blast
qed

end
