(* ===== verification/Net.thy ===== *)
theory Net
  imports E1000 Syscall
begin

text \<open>
  From the bus to the wire: the registered device (\<open>nic.c\<close>, \<open>nic.h\<close>), the walk over the PCI bus
  that attaches the driver (\<open>pci.c\<close>), the ARP request (\<open>arp.c\<close>) and its system call
  (\<open>sysarp.c\<close>).
\<close>

unbundle bit_operations_syntax

section \<open>Definitions\<close>

text \<open>A null function pointer is \<open>False\<close>; the only drivers' functions are those of the e1000.\<close>

record nic_device =
  driver :: "e1000 option"
  nic_mac :: "u8 list"
  send_packet :: bool
  recv_packet :: bool

record nicstate = netstate +
  nic_devices :: nic_device

definition get_device :: "'a nicstate_scheme \<Rightarrow> int \<times> nic_device option" where
  "get_device s =
     (let nd = nic_devices s
      in if \<not> send_packet nd \<or> \<not> recv_packet nd then (-1, None) else (0, Some nd))"

definition register_device :: "nic_device \<Rightarrow> 'a nicstate_scheme \<Rightarrow> 'a nicstate_scheme" where
  "register_device nd s = s\<lparr>nic_devices := nd\<rparr>"

subsection \<open>Attaching the driver\<close>

text \<open>The registers of the hardware and the end of the kernel image.\<close>

record hardware =
  inl :: "event list \<Rightarrow> u16 \<Rightarrow> u32"
  mmio :: "event list \<Rightarrow> u32 \<Rightarrow> u32"
  dma :: "event list \<Rightarrow> mem \<Rightarrow> mem"
  kernel_end :: u32

definition e1000_attach :: "hardware \<Rightarrow> pci_func \<Rightarrow> 'a nicstate_scheme \<Rightarrow> (int \<times> 'a nicstate_scheme) res" where
  "e1000_attach hw pcif s =
     (let (pcif, evs) = pci_enable_device (inl hw) pcif (events s)
      in bindr (e1000_init (kernel_end hw) (mmio hw) pcif (s\<lparr>events := evs\<rparr>)) (\<lambda>(r, drv, out, s).
           Ok (0, register_device \<lparr>driver = drv, nic_mac = take 6 out,
                                   send_packet = True, recv_packet = True\<rparr> s)))"

text \<open>\<open>pci_attach_vendor_based\<close> without its terminating entry: the identifiers \<open>e1000_attach\<close> serves.\<close>

definition pci_attach_vendor_based :: "(u32 \<times> u32) list" where
  "pci_attach_vendor_based = [(0x8086, 0x100e)]"

definition pci_attach_nic :: "hardware \<Rightarrow> pci_func \<Rightarrow> 'a nicstate_scheme \<Rightarrow> 'a nicstate_scheme res" where
  "pci_attach_nic hw pcif s =
     for_each (\<lambda>(key1, key2) s.
       if key1 = PCI_VENDOR (dev_id pcif) \<and> key2 = PCI_PRODUCT (dev_id pcif)
       then bindr (e1000_attach hw pcif s) (\<lambda>(r, s). Ok s)
       else Ok s) pci_attach_vendor_based s"

definition pci_probe_func :: "hardware \<Rightarrow> pci_func \<Rightarrow> 'a nicstate_scheme \<Rightarrow> 'a nicstate_scheme res" where
  "pci_probe_func hw f s =
     (let (i, evs) = pci_conf_read (inl hw) f 0x00 (events s)
      in if PCI_VENDOR i = 0xffff then Ok (s\<lparr>events := evs\<rparr>)
         else
           let (intr, evs) = pci_conf_read (inl hw) f 0x3c evs;
               (cls, evs) = pci_conf_read (inl hw) f 0x08 evs;
               af = f\<lparr>dev_id := i, irq_line := ucast (PCI_INTERRUPT_LINE intr),
                      irq_pin := ucast (PCI_INTERRUPT_PIN intr), dev_class := cls\<rparr>;
               s = s\<lparr>events := evs\<rparr>
           in if PCI_CLASS cls = 2 then pci_attach_nic hw af s else Ok s)"

definition pci_probe_dev ::
  "hardware \<Rightarrow> pci_func \<Rightarrow> nat \<Rightarrow> nat \<times> 'a nicstate_scheme \<Rightarrow> (nat \<times> 'a nicstate_scheme) res" where
  "pci_probe_dev hw df d = (\<lambda>(totaldev, s).
     let df = df\<lparr>dev := of_nat d\<rparr>;
         (bhlc, evs) = pci_conf_read (inl hw) df 0x0c (events s);
         s = s\<lparr>events := evs\<rparr>
     in if PCI_HDRTYPE_TYPE bhlc > 1 then Ok (totaldev, s)
        else bindr (for_each (\<lambda>i. pci_probe_func hw (df\<lparr>func := of_nat i\<rparr>))
                      [0..<(if PCI_HDRTYPE_MULTIFN bhlc then 8 else 1)] s)
               (\<lambda>s. Ok (totaldev + 1, s)))"

definition zero_func :: "u32 \<Rightarrow> pci_func" where
  "zero_func bus =
     \<lparr>busno = bus, dev = 0, func = 0, dev_id = 0, dev_class = 0, reg_base = replicate 6 0,
      reg_size = replicate 6 0, irq_line = 0, irq_pin = 0\<rparr>"

definition pci_enumerate_bus :: "hardware \<Rightarrow> u32 \<Rightarrow> 'a nicstate_scheme \<Rightarrow> (nat \<times> 'a nicstate_scheme) res" where
  "pci_enumerate_bus hw bus s = for_each (pci_probe_dev hw (zero_func bus)) [0..<32] (0, s)"

definition pci_init :: "hardware \<Rightarrow> 'a nicstate_scheme \<Rightarrow> (nat \<times> 'a nicstate_scheme) res" where
  "pci_init hw s = pci_enumerate_bus hw 0 s"

subsection \<open>The ARP request\<close>

text \<open>
  Nothing is received: \<open>block_until_arp_reply\<close> returns at once and leaves the reply as the stack
  held it, the argument \<open>stack\<close>.
\<close>

definition block_until_arp_reply :: "ethr_hdr \<Rightarrow> int \<times> ethr_hdr" where
  "block_until_arp_reply arpReply = (0, arpReply)"

text \<open>The value, the bytes written from \<open>arpResp\<close> on, and the state.\<close>

definition send_arpRequest ::
  "hardware \<Rightarrow> ethr_hdr \<Rightarrow> ethr_hdr \<Rightarrow> u8 list \<Rightarrow> 'a nicstate_scheme \<Rightarrow>
   (int \<times> u8 list \<times> 'a nicstate_scheme) res" where
  "send_arpRequest hw stack_eth stack_reply ipAddr s =
     (case get_device s of
        (_, None) \<Rightarrow> Ok (-1, [], s)
      | (_, Some nd) \<Rightarrow>
          bindr (create_eth_arp_frame (nic_mac nd) ipAddr stack_eth) (\<lambda>eth.
          case driver nd of
            None \<Rightarrow> Undef ''driver''
          | Some e \<Rightarrow>
              bindr (e1000_send (dma hw) e (take 42 (ethr_bytes eth)) s) (\<lambda>(e, s).
                let s = s\<lparr>nic_devices := nd\<lparr>driver := Some e\<rparr>\<rparr>;
                    (r, arpResponse) = block_until_arp_reply stack_reply
                in if r < 0 then Ok (-3, [], s)
                   else bindr (unpack_mac (arp_dmac arpResponse)) (\<lambda>resp.
                          Ok (0, resp[17 := 0], s)))))"

text \<open>
  The system call.  The answer is stored at \<open>arpResp\<close> in the memory of the process: as many bytes
  as the routine writes, whatever \<open>size\<close> says.
\<close>

definition sys_arp ::
  "hardware \<Rightarrow> ethr_hdr \<Rightarrow> ethr_hdr \<Rightarrow> ucontext \<Rightarrow> 'a nicstate_scheme \<Rightarrow>
   (int \<times> ucontext \<times> 'a nicstate_scheme) res" where
  "sys_arp hw stack_eth stack_reply u s =
     (case (argpath u 0, argpath u 1, argint u 3) of
        (Some interface, Some ipAddr, Some sz) \<Rightarrow>
          (case argptr u 2 (sint sz) of
             None \<Rightarrow> Ok (-1, u, s)
           | Some arpResp \<Rightarrow>
               bindr (send_arpRequest hw stack_eth stack_reply ipAddr s) (\<lambda>(r, resp, s).
                 let u = u\<lparr>u_mem := store_bytes (u_mem u) arpResp resp\<rparr>
                 in if r < 0 then Ok (-1, u, s) else Ok (0, u, s)))
      | _ \<Rightarrow> Ok (-1, u, s))"

section \<open>Properties\<close>

text \<open>C3. An ARP request reaches the card.  With a registered card whose driver is well formed, and that runs on the driver's
  ring and has sent what it was given, asking for a dotted address returns 0, and the descriptor that the card was just told
  of describes exactly the 42 bytes of the request for that address; the driver has moved to its next slot, and driver and
  card are ready for the next request.  This holds of the slots up to 126: from slot 127 the tail wraps around where the
  card's ring does not.  Without a registered card the call returns -1 and changes nothing.\<close>

theorem arp_request_transmitted:
  assumes "nic_devices s = \<lparr>driver = Some e, nic_mac = mac, send_packet = True, recv_packet = True\<rparr>"
    "driver_ok e" "transmits (dma hw) (membase e)" "card_ready e (events s)" "tbd_tail e < 127"
    "length mac = 6" "length (arp_dmac reply) = 6"
  shows "(\<exists>resp e' s'. send_arpRequest hw eth reply (dotted a b c d) s = Ok (0, resp, s') \<and> length resp = 18 \<and>
      nic_devices s' = (nic_devices s)\<lparr>driver := Some e'\<rparr> \<and> driver_ok e' \<and> card_ready e' (events s') \<and> tbd_tail e' = tbd_tail e + 1 \<and>
      queued (memory (kpool s')) (tbd e ! tbd_tail e) = arp_request mac a b c d \<and>
      last (events s') = Mmio (membase e + 0x03818) (of_nat (tbd_tail e'))) \<and>
    (\<forall>nd. \<not> send_packet nd \<or> \<not> recv_packet nd \<longrightarrow>
      send_arpRequest hw eth reply ip (s\<lparr>nic_devices := nd\<rparr>) = Ok (-1, [], s\<lparr>nic_devices := nd\<rparr>))"
proof (intro conjI allI impI)
  obtain f where f: "create_eth_arp_frame mac (dotted a b c d) eth = Ok f" "take 42 (ethr_bytes f) = arp_request mac a b c d"
    using frame_bytes [OF assms(6)] by blast
  obtain e' s1 where sent: "e1000_send (dma hw) e (arp_request mac a b c d) s = Ok (e', s1)"
    "driver_ok e'" "card_ready e' (events s1)" "tbd_tail e' = tbd_tail e + 1"
    "queued (memory (kpool s1)) (tbd e ! tbd_tail e) = arp_request mac a b c d"
    "events s1 = events s @ [Mmio (membase e + 0x03818) (of_nat (tbd_tail e'))]"
    using e1000_send_queues [OF assms(2) _ assms(3,4,5), of "arp_request mac a b c d"] assms(5,6) by (auto simp: arp_request_def)
  obtain resp where resp: "unpack_mac (arp_dmac reply) = Ok resp" "length resp = 18" using unpack_mac_length [OF assms(7)] by blast
  have "send_arpRequest hw eth reply (dotted a b c d) s =
      Ok (0, resp[17 := 0], s1\<lparr>nic_devices := (nic_devices s)\<lparr>driver := Some e'\<rparr>\<rparr>)"
    using assms(1) f sent(1) resp by (simp add: send_arpRequest_def get_device_def block_until_arp_reply_def)
  then show "\<exists>resp e' s'. send_arpRequest hw eth reply (dotted a b c d) s = Ok (0, resp, s') \<and> length resp = 18 \<and>
      nic_devices s' = (nic_devices s)\<lparr>driver := Some e'\<rparr> \<and> driver_ok e' \<and> card_ready e' (events s') \<and> tbd_tail e' = tbd_tail e + 1 \<and>
      queued (memory (kpool s')) (tbd e ! tbd_tail e) = arp_request mac a b c d \<and>
      last (events s') = Mmio (membase e + 0x03818) (of_nat (tbd_tail e'))"
    using sent resp(2) by (intro exI [of _ "resp[17 := 0]"] exI [of _ e'] exI) (auto intro: refl)
next
  fix nd :: nic_device
  assume "\<not> send_packet nd \<or> \<not> recv_packet nd"
  then show "send_arpRequest hw eth reply ip (s\<lparr>nic_devices := nd\<rparr>) = Ok (-1, [], s\<lparr>nic_devices := nd\<rparr>)"
    by (simp add: send_arpRequest_def get_device_def)
qed

definition some_nic :: nicstate where
  "some_nic = \<lparr>kpool = \<lparr>memory = \<lambda>_. 0, use_lock = True, freelist = 0\<rparr>,
     events = events (start_card some_driver \<lparr>kpool = \<lparr>memory = \<lambda>_. 0, use_lock = True, freelist = 0\<rparr>, events = [Mmio 0xfebc0000 0x60]\<rparr>),
     nic_devices = \<lparr>driver = Some some_driver, nic_mac = [0x52, 0x54, 0, 0x12, 0x34, 0x56], send_packet = True, recv_packet = True\<rparr>\<rparr>"

definition blank_frame :: ethr_hdr where
  "blank_frame = \<lparr>dmac = [], smac = [], ethr_type = 0, hwtype = 0, protype = 0, hwsize = 0, prosize = 0, opcode = 0,
     arp_smac = [], sip = 0, arp_dmac = [0, 0, 0, 0, 0, 0], dip = 0, dip2 = 0, padd = 0\<rparr>"

theorem arp_request_transmitted_witness:
  "\<exists>resp s'. send_arpRequest \<lparr>inl = \<lambda>_ _. 0, mmio = \<lambda>_ _. 0, dma = some_card, kernel_end = 0x80110000\<rparr>
      blank_frame blank_frame (dotted 192 168 2 1) some_nic = Ok (0, resp, s') \<and>
    queued (memory (kpool s')) 0x80400000 =
      [0xFF, 0xFF, 0xFF, 0xFF, 0xFF, 0xFF, 0x52, 0x54, 0, 0x12, 0x34, 0x56, 8, 6, 0, 1, 8, 0, 6, 4,
       0, 1, 0x52, 0x54, 0, 0x12, 0x34, 0x56, 192, 168, 1, 1,
       0xFF, 0xFF, 0xFF, 0xFF, 0xFF, 0xFF, 192, 168, 2, 1]"
proof -
  let ?hw = "\<lparr>inl = \<lambda>_ _. 0, mmio = \<lambda>_ _. 0, dma = some_card, kernel_end = 0x80110000\<rparr>"
  have n: "nic_devices some_nic = \<lparr>driver = Some some_driver, nic_mac = [0x52, 0x54, 0, 0x12, 0x34, 0x56], send_packet = True, recv_packet = True\<rparr>"
    by (simp add: some_nic_def)
  have t: "transmits (dma ?hw) (membase some_driver)" using some_card_transmits by simp
  have ring: "tbd some_driver = desc_ring 0x80400000" by (simp add: some_driver_def desc_ring_def)
  have m: "membase some_driver = 0xfebc0000" "tbd_tail some_driver = 0" by (simp_all add: some_driver_def)
  have "tx_link (tx_ring_of 0xfebc0000 [Mmio 0xfebc0000 0x60])" by (simp add: tx_ring_of_def tx_event_def)
  moreover have "desc_ring 0x80400000 ! 0 = 0x80400000" by (simp add: desc_ring_nth)
  ultimately have c: "card_ready some_driver (events some_nic)" "tbd_tail some_driver < 127"
    by (simp_all add: some_nic_def card_ready_def Let_def ring m start_card_ring [of some_driver, unfolded m])
  have l: "tbd some_driver ! tbd_tail some_driver = 0x80400000" by (simp add: some_driver_def)
  have r: "replicate 6 x = [x, x, x, x, x, x]" for x :: u8 by (simp add: numeral_eq_Suc)
  have b: "length (arp_dmac blank_frame) = 6" "length [0x52, 0x54, 0, 0x12, 0x34, 0x56 :: u8] = 6" by (simp_all add: blank_frame_def)
  from conjunct1 [OF arp_request_transmitted [OF n some_driver_ok t c b(2,1), of blank_frame 192 168 2 1 "[]"]]
  obtain resp s' where "send_arpRequest ?hw blank_frame blank_frame (dotted 192 168 2 1) some_nic = Ok (0, resp, s')"
    "queued (memory (kpool s')) 0x80400000 = arp_request [0x52, 0x54, 0, 0x12, 0x34, 0x56] 192 168 2 1" unfolding l by blast
  then show ?thesis by (auto simp: arp_request_def r)
qed

end
