(* ===== verification/ProcTable.thy ===== *)
theory ProcTable
  imports Proc
begin

text \<open>
  The process table under concurrency.  Every change of the table that \<open>proc.c\<close> makes in one go
  (mostly one section under the table's lock) is a step, taken by any process that runs, on any number of
  processors; the theorems hold of every table that steps can reach from the one \<open>userinit\<close> leaves.
\<close>

section \<open>Steps\<close>

text \<open>
  The rules \<open>alloc\<close>, \<open>give_up\<close>, \<open>adopt\<close> and \<open>publish\<close> are the parts of \<open>fork\<close>: the slot is taken, the
  call fails for want of memory, the parent is set (without the lock), the child becomes runnable.
  Only \<open>wait\<close> sleeps on the address of a process, its own.
\<close>

inductive proc_step :: "nat \<Rightarrow> ptab \<times> int \<Rightarrow> ptab \<times> int \<Rightarrow> bool" for init where
  alloc: "take_slot t n = Some (j, t') \<Longrightarrow> proc_step init (t, n) (t', n + 1)"
| give_up: "j < NPROC \<Longrightarrow> p_state (t j) = EMBRYO \<Longrightarrow> p_parent (t j) = None \<Longrightarrow>
    proc_step init (t, n) (upd_proc t j (\<lambda>p. p\<lparr>p_state := UNUSED\<rparr>), n)"
| adopt: "i < NPROC \<Longrightarrow> j < NPROC \<Longrightarrow> p_state (t i) = RUNNING \<Longrightarrow> p_state (t j) = EMBRYO \<Longrightarrow>
    proc_step init (t, n) (upd_proc t j (\<lambda>p. p\<lparr>p_parent := Some i\<rparr>), n)"
| publish: "j < NPROC \<Longrightarrow> p_state (t j) = EMBRYO \<Longrightarrow> p_parent (t j) \<noteq> None \<Longrightarrow>
    proc_step init (t, n) (upd_proc t j (\<lambda>p. p\<lparr>p_state := RUNNABLE\<rparr>), n)"
| schedule: "i < NPROC \<Longrightarrow> p_state (t i) = RUNNABLE \<Longrightarrow>
    proc_step init (t, n) (upd_proc t i (\<lambda>p. p\<lparr>p_state := RUNNING, p_chan := No_chan\<rparr>), n)"
| yield: "i < NPROC \<Longrightarrow> p_state (t i) = RUNNING \<Longrightarrow>
    proc_step init (t, n) (upd_proc t i (\<lambda>p. p\<lparr>p_state := RUNNABLE\<rparr>), n)"
| sleep: "i < NPROC \<Longrightarrow> p_state (t i) = RUNNING \<Longrightarrow> (\<And>k. ch \<noteq> Proc_chan k) \<Longrightarrow>
    proc_step init (t, n) (sleep_table i ch t, n)"
| wait_sleep: "i < NPROC \<Longrightarrow> p_state (t i) = RUNNING \<Longrightarrow> wait_scan i t = (None, True) \<Longrightarrow>
    proc_step init (t, n) (sleep_table i (Proc_chan i) t, n)"
| wait_reap: "i < NPROC \<Longrightarrow> p_state (t i) = RUNNING \<Longrightarrow> wait_scan i t = (Some j, kids) \<Longrightarrow>
    proc_step init (t, n) (reap j t, n)"
| wakeup: "proc_step init (t, n) (wakeup1 ch t, n)"
| kill: "proc_step init (t, n) (snd (kill pid t), n)"
| exit: "i < NPROC \<Longrightarrow> p_state (t i) = RUNNING \<Longrightarrow> i \<noteq> init \<Longrightarrow>
    proc_step init (t, n) (exit_table i (Some init) t, n)"

text \<open>The table after \<open>userinit\<close>: one process, ready to run, in a table of zeros.\<close>

definition zero_proc :: proc where
  "zero_proc = \<lparr>p_sz = 0, p_pgdir = 0, p_kstack = 0, p_state = UNUSED, p_pid = 0, p_parent = None, p_tf = 0, p_context = 0,
     p_chan = No_chan, p_killed = False, p_ofile = replicate NOFILE None, p_cwd = None, p_name = replicate 16 0\<rparr>"

definition boot_table :: "nat \<Rightarrow> ptab" where
  "boot_table init = (\<lambda>i. if i = init then zero_proc\<lparr>p_state := RUNNABLE, p_pid := 1\<rparr> else zero_proc)"

inductive proc_reach :: "nat \<Rightarrow> ptab \<times> int \<Rightarrow> bool" for init where
  boot: "init < NPROC \<Longrightarrow> proc_reach init (boot_table init, 2)"
| step: "proc_reach init s \<Longrightarrow> proc_step init s s' \<Longrightarrow> proc_reach init s'"

inductive_cases proc_stepE: "proc_step init (t, n) s'"

section \<open>The invariant\<close>

definition live :: "ptab \<Rightarrow> nat \<Rightarrow> bool" where
  "live t i \<longleftrightarrow> i < NPROC \<and> p_state (t i) \<noteq> UNUSED"

definition pids_ok :: "ptab \<Rightarrow> int \<Rightarrow> bool" where
  "pids_ok t n \<longleftrightarrow> 0 < n \<and> (\<forall>i. live t i \<longrightarrow> 0 < p_pid (t i) \<and> p_pid (t i) < n) \<and>
     (\<forall>i j. live t i \<longrightarrow> live t j \<longrightarrow> p_pid (t i) = p_pid (t j) \<longrightarrow> i = j)"

text \<open>A process that can still run: it can be a parent that waits.\<close>

definition active :: "ptab \<Rightarrow> nat \<Rightarrow> bool" where
  "active t i \<longleftrightarrow> i < NPROC \<and> p_state (t i) \<in> {SLEEPING, RUNNABLE, RUNNING}"

definition parents_ok :: "nat \<Rightarrow> ptab \<Rightarrow> bool" where
  "parents_ok init t \<longleftrightarrow> active t init \<and> p_parent (t init) = None \<and> (\<forall>i. p_parent (t i) \<noteq> Some i) \<and>
     (\<forall>i<NPROC. \<forall>j. p_parent (t i) = Some j \<longrightarrow> active t j \<and> p_state (t i) \<noteq> UNUSED) \<and>
     (\<forall>i<NPROC. i \<noteq> init \<longrightarrow> p_state (t i) \<in> {SLEEPING, RUNNABLE, RUNNING, ZOMBIE} \<longrightarrow> p_parent (t i) \<noteq> None)"

definition asleep_on :: "ptab \<Rightarrow> nat \<Rightarrow> chan \<Rightarrow> bool" where
  "asleep_on t i ch \<longleftrightarrow> i < NPROC \<and> p_state (t i) = SLEEPING \<and> p_chan (t i) = ch"

text \<open>No process waits for a child that has exited already.\<close>

definition waits_ok :: "ptab \<Rightarrow> bool" where
  "waits_ok t \<longleftrightarrow>
     (\<forall>i k. asleep_on t i (Proc_chan k) \<longrightarrow> i = k) \<and>
     (\<forall>i j. asleep_on t i (Proc_chan i) \<longrightarrow> j < NPROC \<longrightarrow> p_parent (t j) = Some i \<longrightarrow> p_state (t j) \<noteq> ZOMBIE)"

lemmas table_defs = live_def active_def asleep_on_def upd_proc_def

lemma upd_proc_apply [simp]: "upd_proc t i f j = (if j = i then f (t i) else t j)"
  by (simp add: upd_proc_def)

subsection \<open>Waking up\<close>

lemma wakeup1_fields [simp]:
  "p_pid (wakeup1 ch t i) = p_pid (t i)" "p_parent (wakeup1 ch t i) = p_parent (t i)" "p_chan (wakeup1 ch t i) = p_chan (t i)"
  by (simp_all add: wakeup1_def)

lemma wakeup1_state:
  "p_state (wakeup1 ch t i) = (if asleep_on t i ch then RUNNABLE else p_state (t i))"
  by (auto simp: wakeup1_def asleep_on_def)

lemma wakeup1_live [simp]: "live (wakeup1 ch t) i = live t i" "active (wakeup1 ch t) i = active t i"
  by (auto simp: live_def active_def wakeup1_state asleep_on_def)

lemma wakeup1_asleep [simp]: "asleep_on (wakeup1 ch t) i c \<longleftrightarrow> asleep_on t i c \<and> c \<noteq> ch"
  by (auto simp: asleep_on_def wakeup1_state)

lemma wakeup1_unused [simp]: "p_state (wakeup1 ch t i) = UNUSED \<longleftrightarrow> p_state (t i) = UNUSED"
  "p_state (wakeup1 ch t i) = ZOMBIE \<longleftrightarrow> p_state (t i) = ZOMBIE" "p_state (wakeup1 ch t i) = EMBRYO \<longleftrightarrow> p_state (t i) = EMBRYO"
  by (auto simp: wakeup1_state asleep_on_def)

subsection \<open>Exit\<close>

lemma abandon_fold:
  assumes "init \<noteq> cur"
  shows "let t' = fold (abandon cur (Some init)) xs t in
    (\<forall>i. p_pid (t' i) = p_pid (t i) \<and> p_chan (t' i) = p_chan (t i) \<and>
         p_parent (t' i) = (if i \<in> set xs \<and> p_parent (t i) = Some cur then Some init else p_parent (t i)) \<and>
         (p_state (t' i) = p_state (t i) \<or> asleep_on t i (Proc_chan init) \<and> p_state (t' i) = RUNNABLE)) \<and>
    ((\<exists>j\<in>set xs. p_parent (t j) = Some cur \<and> p_state (t j) = ZOMBIE) \<longrightarrow> (\<forall>i. \<not> asleep_on t' i (Proc_chan init)))"
proof (induction xs arbitrary: t)
  case Nil
  then show ?case by simp
next
  case (Cons x xs)
  define u where "u = abandon cur (Some init) x t"
  have u: "p_pid (u i) = p_pid (t i)" "p_chan (u i) = p_chan (t i)"
    "p_parent (u i) = (if i = x \<and> p_parent (t i) = Some cur then Some init else p_parent (t i))"
    "p_state (u i) = p_state (t i) \<or> asleep_on t i (Proc_chan init) \<and> p_state (u i) = RUNNABLE"
    "p_parent (t x) = Some cur \<Longrightarrow> p_state (t x) = ZOMBIE \<Longrightarrow> \<not> asleep_on u i (Proc_chan init)" for i
    by (auto simp: u_def abandon_def Let_def proc_chan_def wakeup1_state asleep_on_def)
  have slept: "asleep_on u i c \<Longrightarrow> asleep_on t i c" for i c
    using u(2,4) [of i] by (auto simp: asleep_on_def)
  define t' where "t' = fold (abandon cur (Some init)) xs u"
  have ih: "p_pid (t' i) = p_pid (u i)" "p_chan (t' i) = p_chan (u i)"
    "p_parent (t' i) = (if i \<in> set xs \<and> p_parent (u i) = Some cur then Some init else p_parent (u i))"
    "p_state (t' i) = p_state (u i) \<or> asleep_on u i (Proc_chan init) \<and> p_state (t' i) = RUNNABLE"
    "j \<in> set xs \<Longrightarrow> p_parent (u j) = Some cur \<Longrightarrow> p_state (u j) = ZOMBIE \<Longrightarrow> \<not> asleep_on t' i (Proc_chan init)" for i j
    using Cons.IH [of u] unfolding t'_def Let_def by blast+
  have slept': "asleep_on t' i c \<Longrightarrow> asleep_on u i c" for i c
    using ih(2,4) [of i] by (auto simp: asleep_on_def)
  have "fold (abandon cur (Some init)) (x # xs) t = t'" by (simp add: t'_def u_def)
  moreover have "p_parent (t' i) = (if i \<in> set (x # xs) \<and> p_parent (t i) = Some cur then Some init else p_parent (t i))" for i
    using ih(3) [of i] u(3) [of i] assms by auto
  moreover have "p_state (t' i) = p_state (t i) \<or> asleep_on t i (Proc_chan init) \<and> p_state (t' i) = RUNNABLE" for i
    using ih(4) [of i] u(4) [of i] slept by auto
  moreover have "\<not> asleep_on t' i (Proc_chan init)"
    if j: "j \<in> set (x # xs)" "p_parent (t j) = Some cur" "p_state (t j) = ZOMBIE" for i j
  proof (cases "j = x")
    case True
    then show ?thesis using u(5) [of i] j slept' by blast
  next
    case False
    then have "p_parent (u j) = Some cur" "p_state (u j) = ZOMBIE" using u(3,4) [of j] j by (auto simp: asleep_on_def)
    then show ?thesis using ih(5) j False by auto
  qed
  ultimately show ?case using ih(1,2) u(1,2) unfolding Let_def by (intro conjI allI impI) (simp, simp, blast, blast, blast)
qed

lemma exit_table_fields:
  fixes t :: ptab
  assumes "init \<noteq> cur"
  defines "t' \<equiv> exit_table cur (Some init) t"
  shows "p_pid (t' i) = p_pid (t i)" "p_chan (t' i) = p_chan (t i)"
    "p_parent (t' i) = (if i < NPROC \<and> p_parent (t i) = Some cur then Some init else p_parent (t i))"
    "p_state (t' cur) = ZOMBIE"
    "i \<noteq> cur \<Longrightarrow> p_state (t' i) = p_state (t i) \<or> p_state (t i) = SLEEPING \<and> p_state (t' i) = RUNNABLE"
    "\<not> asleep_on t' i (proc_chan (p_parent (t cur)))"
    "j < NPROC \<Longrightarrow> p_parent (t j) = Some cur \<Longrightarrow> p_state (t j) = ZOMBIE \<Longrightarrow> \<not> asleep_on t' i (Proc_chan init)"
proof -
  define u where "u = wakeup1 (proc_chan (p_parent (t cur))) t"
  define v where "v = fold (abandon cur (Some init)) [0..<NPROC] u"
  have t': "t' = upd_proc v cur (\<lambda>p. p\<lparr>p_state := ZOMBIE\<rparr>)"
    by (simp add: t'_def exit_table_def u_def v_def Let_def)
  have v: "p_pid (v i) = p_pid (u i)" "p_chan (v i) = p_chan (u i)"
    "p_parent (v i) = (if i \<in> set [0..<NPROC] \<and> p_parent (u i) = Some cur then Some init else p_parent (u i))"
    "p_state (v i) = p_state (u i) \<or> asleep_on u i (Proc_chan init) \<and> p_state (v i) = RUNNABLE"
    "j \<in> set [0..<NPROC] \<Longrightarrow> p_parent (u j) = Some cur \<Longrightarrow> p_state (u j) = ZOMBIE \<Longrightarrow> \<not> asleep_on v i (Proc_chan init)" for i j
    using abandon_fold [OF assms(1), of "[0..<NPROC]" u] unfolding v_def Let_def by blast+
  show "p_pid (t' i) = p_pid (t i)" "p_chan (t' i) = p_chan (t i)" using v(1,2) by (simp_all add: t' u_def)
  show "p_parent (t' i) = (if i < NPROC \<and> p_parent (t i) = Some cur then Some init else p_parent (t i))"
    using v(3) [of i] v(3) [of cur] by (auto simp: t' u_def)
  show "p_state (t' cur) = ZOMBIE" by (simp add: t')
  show "i \<noteq> cur \<Longrightarrow> p_state (t' i) = p_state (t i) \<or> p_state (t i) = SLEEPING \<and> p_state (t' i) = RUNNABLE"
    using v(4) [of i] by (auto simp: t' u_def wakeup1_state asleep_on_def split: if_splits)
  have w: "asleep_on t' i c \<Longrightarrow> asleep_on u i c" for c
    using v(2,4) [of i] by (auto simp: t' asleep_on_def split: if_splits)
  show "\<not> asleep_on t' i (proc_chan (p_parent (t cur)))"
    using w [of "proc_chan (p_parent (t cur))"] by (auto simp: u_def)
  show "j < NPROC \<Longrightarrow> p_parent (t j) = Some cur \<Longrightarrow> p_state (t j) = ZOMBIE \<Longrightarrow> \<not> asleep_on t' i (Proc_chan init)"
    using v(5) [of j i] by (auto simp: t' u_def asleep_on_def split: if_splits)
qed

lemma exit_asleep: "init \<noteq> cur \<Longrightarrow> asleep_on (exit_table cur (Some init) t) i c \<Longrightarrow> asleep_on t i c \<and> i \<noteq> cur"
  using exit_table_fields(2,5) [where t = t and i = i and init = init and cur = cur]
    exit_table_fields(4) [where t = t and init = init and cur = cur] by (cases "i = cur") (auto simp: asleep_on_def)

subsection \<open>Identifiers\<close>

lemma pids_ok_mono:
  assumes "pids_ok t n" "n \<le> n'" "\<And>i. live t' i \<Longrightarrow> live t i" "\<And>i. live t' i \<Longrightarrow> p_pid (t' i) = p_pid (t i)"
  shows "pids_ok t' n'"
  using assms unfolding pids_ok_def by (smt (verit))

lemma take_slotD:
  "take_slot t n = Some (j, t') \<Longrightarrow>
   j < NPROC \<and> p_state (t j) = UNUSED \<and> t' = upd_proc t j (\<lambda>p. p\<lparr>p_state := EMBRYO, p_pid := n\<rparr>)"
  by (auto simp: take_slot_def find_unused_def find_Some_iff)

lemma take_slot_pids:
  assumes "pids_ok t n" "take_slot t n = Some (j, t')"
  shows "pids_ok t' (n + 1)"
proof -
  note j = take_slotD [OF assms(2)]
  have "live t' i \<longleftrightarrow> i = j \<or> live t i" for i using j by (auto simp: live_def)
  moreover have "p_pid (t' i) = (if i = j then n else p_pid (t i))" for i using j by simp
  moreover have "\<not> live t j" using j by (simp add: live_def)
  ultimately show ?thesis using assms(1) unfolding pids_ok_def by (smt (verit))
qed

lemma wait_scanD:
  "wait_scan i t = (Some j, kids) \<Longrightarrow> j < NPROC \<and> p_parent (t j) = Some i \<and> p_state (t j) = ZOMBIE"
  "wait_scan i t = (None, kids) \<Longrightarrow> k < NPROC \<Longrightarrow> p_parent (t k) = Some i \<Longrightarrow> p_state (t k) \<noteq> ZOMBIE"
  by (auto simp: wait_scan_def child_of_def find_Some_iff find_None_iff)

lemma kill_fields:
  "p_pid (snd (kill pid t) i) = p_pid (t i)" "p_parent (snd (kill pid t) i) = p_parent (t i)"
  "p_chan (snd (kill pid t) i) = p_chan (t i)"
  "p_state (snd (kill pid t) i) = p_state (t i) \<or> p_state (t i) = SLEEPING \<and> p_state (snd (kill pid t) i) = RUNNABLE"
  by (auto simp: kill_def split: option.split)

lemma kill_live [simp]: "live (snd (kill pid t)) i = live t i" "active (snd (kill pid t)) i = active t i"
  using kill_fields(4) [of pid t i] by (auto simp: live_def active_def)

lemma kill_state [simp]: "p_state (snd (kill pid t) i) = UNUSED \<longleftrightarrow> p_state (t i) = UNUSED"
  "p_state (snd (kill pid t) i) = ZOMBIE \<longleftrightarrow> p_state (t i) = ZOMBIE"
  using kill_fields(4) [of pid t i] by auto

lemma step_pids:
  assumes "proc_step init (t, n) (t', n')" "pids_ok t n"
  shows "pids_ok t' n'"
  using assms(1)
proof cases
  case (exit i)
  have "live t' j \<Longrightarrow> live t j" for j
    using exit_table_fields(5) [where t = t and i = j and init = init and cur = i] exit by (cases "j = i") (auto simp: live_def)
  then show ?thesis
    using assms(2) exit exit_table_fields(1) [where t = t and init = init and cur = i] by (auto intro: pids_ok_mono)
qed (use assms(2) in \<open>auto simp: take_slot_pids sleep_table_def reap_def kill_fields live_def elim!: pids_ok_mono split: if_splits\<close>)

subsection \<open>Parents\<close>

lemma parents_okD:
  assumes "parents_ok init t"
  shows "active t init" "i < NPROC \<Longrightarrow> p_parent (t i) = Some j \<Longrightarrow> active t j \<and> p_state (t i) \<noteq> UNUSED"
    "i < NPROC \<Longrightarrow> i \<noteq> init \<Longrightarrow> p_state (t i) \<in> {SLEEPING, RUNNABLE, RUNNING, ZOMBIE} \<Longrightarrow> p_parent (t i) \<noteq> None"
    "p_parent (t init) = None" "p_parent (t i) \<noteq> Some i"
  using assms unfolding parents_ok_def by blast+

text \<open>A step that only moves processes between the states of \<open>active\<close> keeps the parents.\<close>

lemma parents_ok_same:
  assumes "parents_ok init t" "\<And>i. p_parent (t' i) = p_parent (t i)"
    "\<And>i. p_state (t' i) = p_state (t i) \<or> (i < NPROC \<longrightarrow> active t i \<and> active t' i)"
  shows "parents_ok init t'"
proof -
  have "active t' i \<longleftrightarrow> active t i" for i using assms(3) [of i] by (auto simp: active_def)
  moreover have "i < NPROC \<Longrightarrow> p_state (t' i) = UNUSED \<longleftrightarrow> p_state (t i) = UNUSED" for i
    using assms(3) [of i] by (auto simp: active_def)
  moreover have "i < NPROC \<Longrightarrow> p_state (t' i) \<in> {SLEEPING, RUNNABLE, RUNNING, ZOMBIE} \<longleftrightarrow>
      p_state (t i) \<in> {SLEEPING, RUNNABLE, RUNNING, ZOMBIE}" for i
    using assms(3) [of i] by (auto simp: active_def)
  ultimately show ?thesis using assms(1,2) unfolding parents_ok_def by simp
qed

lemma step_parents:
  assumes "proc_step init (t, n) (t', n')" "parents_ok init t"
  shows "parents_ok init t'"
  using assms(1)
proof cases
  case (alloc j)
  note j = take_slotD [OF alloc(2)]
  note p = parents_okD [OF assms(2)]
  have none: "p_parent (t j) = None" using p(2) [of j] j by fastforce
  have act: "active t' i \<longleftrightarrow> active t i" for i using j by (auto simp: active_def)
  show ?thesis unfolding parents_ok_def act using p j none by auto
next
  case (give_up j)
  note p = parents_okD [OF assms(2)]
  have act: "active t' i \<longleftrightarrow> active t i" for i using give_up by (auto simp: active_def)
  show ?thesis unfolding parents_ok_def act using p give_up by auto
next
  case (adopt i j)
  note p = parents_okD [OF assms(2)]
  have act: "active t' k \<longleftrightarrow> active t k" for k using adopt by (auto simp: active_def)
  have "active t i" "init \<noteq> j" using adopt p(1) by (auto simp: active_def)
  then show ?thesis unfolding parents_ok_def act using p adopt by auto
next
  case (publish j)
  note p = parents_okD [OF assms(2)]
  have act: "active t k \<Longrightarrow> active t' k" for k using publish by (auto simp: active_def)
  show ?thesis unfolding parents_ok_def using p publish act by auto
next
  case (wait_reap i j kids)
  note p = parents_okD [OF assms(2)] and j = wait_scanD(1) [OF wait_reap(5)]
  have act: "active t' k \<longleftrightarrow> active t k" for k using wait_reap j by (auto simp: active_def reap_def)
  have "\<not> active t j" using j by (simp add: active_def)
  then show ?thesis unfolding parents_ok_def act using p wait_reap j by (auto simp: reap_def)
next
  case (exit i)
  note p = parents_okD [OF assms(2)]
    and e = exit_table_fields [where t = t and init = init and cur = i]
  have act: "active t' k \<longleftrightarrow> active t k \<and> k \<noteq> i" for k
    using e(4) e(5) [of k] exit by (cases "k = i") (auto simp: active_def)
  have used: "p_state (t' k) = UNUSED \<longleftrightarrow> p_state (t k) = UNUSED" for k
    using e(4) e(5) [of k] exit by (cases "k = i") auto
  have par: "p_parent (t' k) = (if k < NPROC \<and> p_parent (t k) = Some i then Some init else p_parent (t k))" for k
    using e(3) [of k] exit by simp
  show ?thesis
    unfolding parents_ok_def
  proof (intro conjI allI impI)
    show "active t' init" using p(1) exit(5) by (simp add: act)
    show "p_parent (t' init) = None" using p(4) by (simp add: par)
    show "p_parent (t' k) \<noteq> Some k" for k using p(4) p(5) [of k] by (auto simp: par)
    fix k j
    assume k: "k < NPROC" "p_parent (t' k) = Some j"
    then show "active t' j" using p(1) p(2) [of k j] exit(5) by (auto simp: act par split: if_splits)
    show "p_state (t' k) \<noteq> UNUSED" using k p(2) [of k] by (auto simp: used par split: if_splits)
  next
    fix k
    assume k: "k < NPROC" "k \<noteq> init" "p_state (t' k) \<in> {SLEEPING, RUNNABLE, RUNNING, ZOMBIE}"
    then have "p_state (t k) \<in> {SLEEPING, RUNNABLE, RUNNING, ZOMBIE}" using e(5) [of k] exit by (cases "k = i") auto
    then show "p_parent (t' k) \<noteq> None" using p(3) [OF k(1,2)] by (simp add: par)
  qed
next
  case (kill pid)
  show ?thesis
  proof (rule parents_ok_same [OF assms(2)])
    show "p_parent (t' i) = p_parent (t i)" for i by (simp add: kill kill_fields)
    show "p_state (t' i) = p_state (t i) \<or> (i < NPROC \<longrightarrow> active t i \<and> active t' i)" for i
      using kill_fields(4) [of pid t i] by (auto simp: kill active_def)
  qed
qed (use assms(2) in \<open>auto simp: sleep_table_def active_def wakeup1_state asleep_on_def elim!: parents_ok_same split: if_splits\<close>)

subsection \<open>Waiting\<close>

lemma waits_okD:
  assumes "waits_ok t"
  shows "asleep_on t i (Proc_chan k) \<Longrightarrow> i = k"
    "asleep_on t i (Proc_chan i) \<Longrightarrow> j < NPROC \<Longrightarrow> p_parent (t j) = Some i \<Longrightarrow> p_state (t j) \<noteq> ZOMBIE"
  using assms unfolding waits_ok_def by blast+

text \<open>A step that puts nobody to sleep on a process, and makes nobody a zombie's parent, keeps \<open>waits_ok\<close>.\<close>

lemma waits_ok_mono:
  assumes "waits_ok t" "\<And>i k. asleep_on t' i (Proc_chan k) \<Longrightarrow> asleep_on t i (Proc_chan k)"
    "\<And>i j. asleep_on t' i (Proc_chan i) \<Longrightarrow> j < NPROC \<Longrightarrow> p_parent (t' j) = Some i \<Longrightarrow> p_state (t' j) = ZOMBIE \<Longrightarrow>
       p_parent (t j) = Some i \<and> p_state (t j) = ZOMBIE"
  shows "waits_ok t'"
  using assms unfolding waits_ok_def by blast

lemma step_waits:
  assumes "proc_step init (t, n) (t', n')" "waits_ok t" "parents_ok init t"
  shows "waits_ok t'"
  using assms(1)
proof cases
  case (alloc j)
  note j = take_slotD [OF alloc(2)]
  show ?thesis by (rule waits_ok_mono [OF assms(2)]) (use j in \<open>auto simp: asleep_on_def split: if_splits\<close>)
next
  case (wait_sleep i)
  note w = waits_okD [OF assms(2)] and z = wait_scanD(2) [OF wait_sleep(5)]
  have a: "asleep_on t' k (Proc_chan l) \<Longrightarrow> k = i \<and> l = i \<or> k \<noteq> i \<and> asleep_on t k (Proc_chan l)" for k l
    by (auto simp: wait_sleep sleep_table_def asleep_on_def split: if_splits)
  have par: "p_parent (t' k) = p_parent (t k)" "p_state (t' k) = ZOMBIE \<Longrightarrow> p_state (t k) = ZOMBIE" for k
    by (auto simp: wait_sleep sleep_table_def split: if_splits)
  show ?thesis unfolding waits_ok_def using a par w z by metis
next
  case (wakeup ch)
  show ?thesis by (rule waits_ok_mono [OF assms(2)]) (auto simp: wakeup)
next
  case (kill pid)
  have "asleep_on t' i c \<Longrightarrow> asleep_on t i c" for i c
    using kill_fields(3,4) [of pid t i] by (auto simp: kill asleep_on_def)
  then show ?thesis by (auto intro!: waits_ok_mono [OF assms(2)] simp: kill kill_fields)
next
  case (exit i)
  note e = exit_table_fields [where t = t and init = init and cur = i, folded exit(1)]
  have ne: "init \<noteq> i" using exit(5) by simp
  have sl: "asleep_on t' k c \<Longrightarrow> asleep_on t k c \<and> k \<noteq> i" for k c using exit_asleep [OF ne, of t k c] by (simp add: exit(1))
  have "p_parent (t j) = Some k \<and> p_state (t j) = ZOMBIE"
    if k: "asleep_on t' k (Proc_chan k)" "j < NPROC" "p_parent (t' j) = Some k" "p_state (t' j) = ZOMBIE" for k j
  proof -
    have par: "p_parent (t j) = Some i \<and> k = init \<or> p_parent (t j) = Some k"
      using e(3) [OF ne, of j] k(2,3) by (auto split: if_splits)
    have "j \<noteq> i"
    proof
      assume j: "j = i"
      then show False using par parents_okD(5) [OF assms(3), of i] e(6) [OF ne, of k] k(1) by (auto simp: proc_chan_def)
    qed
    then have z: "p_state (t j) = ZOMBIE" using e(5) [OF ne, of j] k(4) by auto
    then show ?thesis using par e(7) [OF ne k(2) _ z, of k] k(1) by auto
  qed
  then show ?thesis using sl by (intro waits_ok_mono [OF assms(2)]) blast+
qed (use assms(2) in \<open>auto simp: sleep_table_def reap_def asleep_on_def elim!: waits_ok_mono split: if_splits\<close>)

section \<open>Properties\<close>

lemma boot_ok: "init < NPROC \<Longrightarrow> pids_ok (boot_table init) 2 \<and> parents_ok init (boot_table init) \<and> waits_ok (boot_table init)"
  by (auto simp: pids_ok_def parents_ok_def waits_ok_def live_def active_def asleep_on_def boot_table_def zero_proc_def split: if_splits)

lemma reach_ok:
  assumes "proc_reach init s"
  shows "pids_ok (fst s) (snd s) \<and> parents_ok init (fst s) \<and> waits_ok (fst s)"
  using assms
proof induction
  case boot
  then show ?case using boot_ok by simp
next
  case (step s s')
  obtain t n t' n' where s: "s = (t, n)" "s' = (t', n')" by fastforce
  then show ?case using step step_pids step_parents step_waits by fastforce
qed

text \<open>C2. The process table stays well formed under every interleaving of fork, exit, wait, sleep, wakeup, kill and
  scheduling on any number of processors: processes that exist have different, positive identifiers; a process other
  than the first that has started and has not been waited for has a parent, and that parent exists and has not exited;
  and no process sleeps in \<open>wait\<close> while a child of its has already exited, so no exit is missed.\<close>

theorem proc_table_invariant:
  assumes "proc_reach init (t, n)"
  shows "(\<forall>i j. live t i \<longrightarrow> live t j \<longrightarrow> p_pid (t i) = p_pid (t j) \<longrightarrow> i = j) \<and>
    (\<forall>i. live t i \<longrightarrow> 0 < p_pid (t i)) \<and> active t init \<and>
    (\<forall>i<NPROC. i \<noteq> init \<longrightarrow> p_state (t i) \<in> {SLEEPING, RUNNABLE, RUNNING, ZOMBIE} \<longrightarrow>
       (\<exists>j. p_parent (t i) = Some j \<and> j \<noteq> i \<and> active t j)) \<and>
    (\<forall>i j. asleep_on t i (Proc_chan i) \<longrightarrow> j < NPROC \<longrightarrow> p_parent (t j) = Some i \<longrightarrow> p_state (t j) \<noteq> ZOMBIE)"
proof -
  from reach_ok [OF assms] have ok: "pids_ok t n" "parents_ok init t" "waits_ok t" by simp_all
  note p = parents_okD [OF ok(2)]
  have "\<exists>j. p_parent (t i) = Some j \<and> j \<noteq> i \<and> active t j"
    if "i < NPROC" "i \<noteq> init" "p_state (t i) \<in> {SLEEPING, RUNNABLE, RUNNING, ZOMBIE}" for i
    using p(3) [OF that] p(2) [OF that(1)] p(5) [of i] by fastforce
  then show ?thesis using ok(1) p(1) waits_okD(2) [OF ok(3)] unfolding pids_ok_def by blast
qed

text \<open>The first process forks a child in slot 1.\<close>

definition forked :: ptab where
  "forked = (let t = upd_proc (boot_table 0) 0 (\<lambda>p. p\<lparr>p_state := RUNNING, p_chan := No_chan\<rparr>);
                 t = upd_proc t 1 (\<lambda>p. p\<lparr>p_state := EMBRYO, p_pid := 2\<rparr>);
                 t = upd_proc t 1 (\<lambda>p. p\<lparr>p_parent := Some 0\<rparr>)
             in upd_proc t 1 (\<lambda>p. p\<lparr>p_state := RUNNABLE\<rparr>))"

lemma forked_reach: "proc_reach 0 (forked, 3)"
proof -
  let ?t1 = "upd_proc (boot_table 0) 0 (\<lambda>p. p\<lparr>p_state := RUNNING, p_chan := No_chan\<rparr>)"
  let ?t2 = "upd_proc ?t1 1 (\<lambda>p. p\<lparr>p_state := EMBRYO, p_pid := 2\<rparr>)"
  let ?t3 = "upd_proc ?t2 1 (\<lambda>p. p\<lparr>p_parent := Some 0\<rparr>)"
  have slot: "find_unused ?t1 = Some 1"
    unfolding find_unused_def find_Some_iff by (rule exI [of _ 1]) (auto simp: boot_table_def zero_proc_def less_Suc_eq)
  have "proc_reach 0 (boot_table 0, 2)" by (rule proc_reach.boot) simp
  then have "proc_reach 0 (?t1, 2)"
    by (rule proc_reach.step) (rule proc_step.schedule; simp add: boot_table_def)
  moreover have "take_slot ?t1 2 = Some (1, ?t2)"
    by (simp add: take_slot_def slot)
  ultimately have "proc_reach 0 (?t2, 3)" using proc_step.alloc [of ?t1 2 1 ?t2 0] by (auto intro: proc_reach.step)
  then have "proc_reach 0 (?t3, 3)"
    by (rule proc_reach.step) (rule proc_step.adopt; simp add: boot_table_def zero_proc_def)
  then show ?thesis
    unfolding forked_def Let_def by (rule proc_reach.step) (rule proc_step.publish; simp)
qed

theorem proc_table_invariant_witness:
  "p_state (forked 1) = RUNNABLE \<and> (\<exists>j. p_parent (forked 1) = Some j \<and> active forked j) \<and> p_pid (forked 0) \<noteq> p_pid (forked 1)"
proof -
  have s: "p_state (forked 1) = RUNNABLE" "p_state (forked 0) = RUNNING" by (simp_all add: forked_def)
  have l: "live forked 0" "live forked 1" using s by (simp_all add: live_def)
  note inv = proc_table_invariant [OF forked_reach]
  have "p_pid (forked 0) \<noteq> p_pid (forked 1)" using inv l by (metis zero_neq_one)
  moreover have "\<exists>j. p_parent (forked 1) = Some j \<and> j \<noteq> 1 \<and> active forked j"
    using conjunct1 [OF conjunct2 [OF conjunct2 [OF conjunct2 [OF inv]]], rule_format, of 1] s(1) by simp
  ultimately show ?thesis using s(1) by blast
qed

subsection \<open>Scheduling is fair\<close>

text \<open>
  The processes one processor runs when it takes them from the tables \<open>ts\<close>, one table per turn:
  between two turns the processes may change the table in any way.
\<close>

primrec turns :: "ptab list \<Rightarrow> nat \<Rightarrow> nat list" where
  "turns [] pos = []"
| "turns (t # ts) pos =
     (case next_proc t pos of None \<Rightarrow> turns ts 0 | Some i \<Rightarrow> i # turns ts (i + 1))"

definition distance :: "nat \<Rightarrow> nat \<Rightarrow> nat" where
  "distance pos i = (if pos \<le> i then i - pos else NPROC - pos + i)"

lemma find_upt:
  "List.find P [a..<b] = Some i \<longleftrightarrow> a \<le> i \<and> i < b \<and> P i \<and> (\<forall>j. a \<le> j \<and> j < i \<longrightarrow> \<not> P j)"
proof
  assume "List.find P [a..<b] = Some i"
  then obtain k where k: "k < b - a" "P (a + k)" "i = a + k" "\<forall>j<k. \<not> P (a + j)" by (auto simp: find_Some_iff)
  have "\<not> P j" if "a \<le> j" "j < i" for j using k(4) [rule_format, of "j - a"] that k(3) by simp
  then show "a \<le> i \<and> i < b \<and> P i \<and> (\<forall>j. a \<le> j \<and> j < i \<longrightarrow> \<not> P j)" using k by auto
next
  assume a: "a \<le> i \<and> i < b \<and> P i \<and> (\<forall>j. a \<le> j \<and> j < i \<longrightarrow> \<not> P j)"
  then show "List.find P [a..<b] = Some i" by (auto simp: find_Some_iff intro!: exI [of _ "i - a"])
qed

lemma find_upt_None: "List.find P [a..<b] = None \<longleftrightarrow> (\<forall>i. a \<le> i \<and> i < b \<longrightarrow> \<not> P i)"
  by (auto simp: find_None_iff)

lemma next_proc_closer:
  assumes "i < NPROC" "p_state (t i) = RUNNABLE" "pos \<le> NPROC"
  shows "\<exists>j. next_proc t pos = Some j \<and> j < NPROC \<and> p_state (t j) = RUNNABLE \<and> (j = i \<or> distance (j + 1) i < distance pos i)"
proof (cases "List.find (\<lambda>i. p_state (t i) = RUNNABLE) [pos..<NPROC]")
  case None
  then have pos: "i < pos" using assms unfolding find_upt_None by (meson not_le)
  obtain j where j: "List.find (\<lambda>i. p_state (t i) = RUNNABLE) [0..<NPROC] = Some j"
    using assms by (cases "List.find (\<lambda>i. p_state (t i) = RUNNABLE) [0..<NPROC]") (auto simp only: find_upt_None)
  then have j': "j < NPROC" "p_state (t j) = RUNNABLE" "j \<le> i" using assms unfolding find_upt by (auto simp: not_less [symmetric])
  then have "next_proc t pos = Some j" using None j by (simp only: next_proc_def option.case)
  then show ?thesis using j' pos assms by (auto simp: distance_def)
next
  case (Some j)
  then have j: "pos \<le> j" "j < NPROC" "p_state (t j) = RUNNABLE" "pos \<le> i \<Longrightarrow> j \<le> i"
    using assms unfolding find_upt by (auto simp: not_less [symmetric])
  moreover have "next_proc t pos = Some j" using Some by (simp only: next_proc_def option.case)
  ultimately show ?thesis using assms by (auto simp: distance_def)
qed

lemma turns_reach:
  assumes "i < NPROC" "\<forall>t\<in>set ts. p_state (t i) = RUNNABLE" "pos \<le> NPROC" "distance pos i < length ts"
  shows "i \<in> set (take (distance pos i + 1) (turns ts pos))"
  using assms
proof (induction ts arbitrary: pos)
  case (Cons t ts)
  obtain j where j: "next_proc t pos = Some j" "j < NPROC" "j = i \<or> distance (j + 1) i < distance pos i"
    using next_proc_closer [of i t pos] Cons.prems by auto
  show ?case
  proof (cases "j = i")
    case True
    then show ?thesis using j(1) by simp
  next
    case False
    then have less: "distance (j + 1) i < distance pos i" using j by simp
    have "i \<in> set (take (distance (j + 1) i + 1) (turns ts (j + 1)))"
      using Cons.prems j(2) less by (intro Cons.IH) auto
    moreover have "set (take (distance (j + 1) i + 1) (turns ts (j + 1))) \<subseteq> set (take (distance pos i) (turns ts (j + 1)))"
      using less by (intro set_take_subset_set_take) simp
    ultimately show ?thesis using j(1) by auto
  qed
qed simp

text \<open>C12. The scheduler starves nobody: whatever the processes do to the table between its turns, a process that stays
  runnable gets the processor within 64 turns, the size of the table.\<close>

theorem scheduler_fair:
  assumes "i < NPROC" "pos \<le> NPROC" "\<forall>t\<in>set ts. p_state (t i) = RUNNABLE" "length ts \<ge> NPROC"
  shows "i \<in> set (take NPROC (turns ts pos))"
proof -
  have d: "distance pos i + 1 \<le> NPROC" using assms(1,2) by (auto simp: distance_def)
  then have "i \<in> set (take (distance pos i + 1) (turns ts pos))" using assms by (intro turns_reach) auto
  then show ?thesis by (rule subsetD [OF set_take_subset_set_take [OF d]])
qed

theorem scheduler_fair_witness:
  "5 \<in> set (take NPROC (turns (replicate 64 (\<lambda>i. if i \<in> {2, 5} then zero_proc\<lparr>p_state := RUNNABLE\<rparr> else zero_proc)) 6))"
  by (rule scheduler_fair) simp_all

subsection \<open>Killing\<close>

text \<open>C34. \<open>kill(0)\<close> succeeds although no process has that identifier, and dooms the next process created, when the
  first slot with identifier 0 is the first free one: \<open>kill\<close> finds that slot and sets its \<open>killed\<close> flag, which nothing clears when \<open>fork\<close> takes the slot.\<close>

theorem kill_zero_dooms_next_fork:
  assumes "List.find (\<lambda>i. p_pid (t i) = 0) [0..<NPROC] = find_unused t" "find_unused t = Some j"
  shows "\<exists>t1 t2. kill 0 t = (0, t1) \<and> take_slot t1 n = Some (j, t2) \<and> p_state (t2 j) = EMBRYO \<and> p_killed (t2 j)"
proof -
  define t1 where "t1 = snd (kill 0 t)"
  have k: "kill 0 t = (0, t1)" using assms by (simp add: kill_def t1_def)
  have "p_state (t1 i) = UNUSED \<longleftrightarrow> p_state (t i) = UNUSED" for i by (simp add: t1_def)
  then have "find_unused t1 = Some j" using assms(2) by (simp add: find_unused_def)
  moreover have "p_killed (t1 j)" using assms by (simp add: t1_def kill_def)
  ultimately show ?thesis using k by (auto simp: take_slot_def)
qed

theorem kill_zero_dooms_next_fork_witness:
  "\<exists>t1 t2. kill 0 (boot_table 0) = (0, t1) \<and> take_slot t1 2 = Some (1, t2) \<and> p_killed (t2 1)"
proof -
  have a: "List.find (\<lambda>i. p_pid (boot_table 0 i) = 0) [0..<NPROC] = Some 1" "find_unused (boot_table 0) = Some 1"
    unfolding find_unused_def find_upt by (auto simp: boot_table_def zero_proc_def)
  then show ?thesis using kill_zero_dooms_next_fork [of "boot_table 0" 1 2] by auto
qed

end
