(* ===== verification/Printf.thy ===== *)
theory Printf
  imports CString
begin

text \<open>
  Formatted printing: \<open>printf\<close> of the user library (\<open>printf.c\<close>) and \<open>printint\<close> and \<open>cprintf\<close> of the kernel
  (\<open>console.c\<close>).  The format and the string arguments are NUL-terminated strings in memory, and the arguments are the
  words on the stack above the format, as the code reads them.  The result is the list of bytes that are put out one by
  one; it is \<open>None\<close> when a string has no end or a number has no meaning.
\<close>

unbundle bit_operations_syntax

section \<open>Definitions\<close>

definition upper_digits :: "u8 list" where
  "upper_digits = ascii ''0123456789ABCDEF''"

definition lower_digits :: "u8 list" where
  "lower_digits = ascii ''0123456789abcdef''"

text \<open>The loop that fills \<open>buf[16]\<close> with the digits, lowest first.\<close>

function digit_loop :: "u8 list \<Rightarrow> u32 \<Rightarrow> u32 \<Rightarrow> u8 list \<Rightarrow> u8 list res" where
  "digit_loop digits x b buf =
     (if b = 0 then Undef ''division''
      else if \<not> length buf < 16 then Undef ''index''
      else bindr (idx digits (unat (x mod b))) (\<lambda>c.
           if x div b \<noteq> 0 then digit_loop digits (x div b) b (buf @ [c]) else Ok (buf @ [c])))"
  by pat_completeness auto
termination by (relation "measure (\<lambda>(_, _, _, buf). 16 - length buf)") auto

declare digit_loop.simps [simp del]

text \<open>\<open>buf[i++] = '-'\<close>, and the loop that puts the bytes out from the last to the first.\<close>

definition signed_text :: "bool \<Rightarrow> u8 list \<Rightarrow> u8 list res" where
  "signed_text neg buf =
     (if neg then if length buf < 16 then Ok (rev (buf @ [0x2D])) else Undef ''index'' else Ok (rev buf))"

text \<open>\<open>-xx\<close> on \<open>int\<close>, which overflows for the least one.\<close>

definition negated :: "u32 \<Rightarrow> u32 res" where
  "negated xx = (if sint xx = - 2147483648 then Undef ''overflow'' else Ok (- xx))"

definition printint :: "u32 \<Rightarrow> u32 \<Rightarrow> bool \<Rightarrow> u8 list res" where
  "printint xx b sg =
     (let neg = (sg \<and> sint xx < 0)
      in bindr (if neg then negated xx else Ok xx) (\<lambda>x.
         bindr (digit_loop upper_digits x b []) (signed_text neg)))"

definition console_printint :: "u32 \<Rightarrow> u32 \<Rightarrow> bool \<Rightarrow> u8 list res" where
  "console_printint xx b sg =
     (let sg = (sg \<and> sint xx < 0)
      in bindr (if sg then negated xx else Ok xx) (\<lambda>x.
         bindr (digit_loop lower_digits x b []) (signed_text sg)))"

text \<open>The string at an address.\<close>

definition cstring :: "mem \<Rightarrow> u32 \<Rightarrow> u8 list option" where
  "cstring m p = map_option (load_bytes m p) (strlen m p)"

text \<open>What \<open>%s\<close> prints.\<close>

definition str_arg :: "mem \<Rightarrow> u32 \<Rightarrow> u8 list option" where
  "str_arg m s = (if s = 0 then Some (ascii ''(null)'') else cstring m s)"

definition num_arg :: "u8 list res \<Rightarrow> u8 list option" where
  "num_arg r = (case r of Ok s \<Rightarrow> Some s | _ \<Rightarrow> None)"

text \<open>Output followed by the output of the rest of the format.\<close>

definition then_put :: "u8 list option \<Rightarrow> u8 list option \<Rightarrow> u8 list option" where
  "then_put a b = (case a of None \<Rightarrow> None | Some x \<Rightarrow> map_option ((@) x) b)"

text \<open>One conversion of \<open>printf\<close>: what is put out and where the argument pointer goes.\<close>

definition conversion :: "mem \<Rightarrow> u32 \<Rightarrow> u8 \<Rightarrow> u8 list option \<times> u32" where
  "conversion m ap c =
     (if c = 0x64 then (num_arg (printint (load32 m ap) 10 True), ap + 4)
      else if c = 0x78 \<or> c = 0x70 then (num_arg (printint (load32 m ap) 16 False), ap + 4)
      else if c = 0x73 then (str_arg m (load32 m ap), ap + 4)
      else if c = 0x63 then (Some [ucast (load32 m ap)], ap + 4)
      else if c = 0x25 then (Some [c], ap)
      else (Some [0x25, c], ap))"

text \<open>The loop over the format; \<open>pct\<close> is \<open>state == '%'\<close>.\<close>

primrec printf_loop :: "mem \<Rightarrow> u8 list \<Rightarrow> bool \<Rightarrow> u32 \<Rightarrow> u8 list option" where
  "printf_loop m [] pct ap = Some []"
| "printf_loop m (c # fmt) pct ap =
     (if \<not> pct then
        if c = 0x25 then printf_loop m fmt True ap else then_put (Some [c]) (printf_loop m fmt False ap)
      else then_put (fst (conversion m ap c)) (printf_loop m fmt False (snd (conversion m ap c))))"

definition printf :: "mem \<Rightarrow> u32 \<Rightarrow> u32 \<Rightarrow> u8 list option" where
  "printf m fmt ap = (case cstring m fmt of None \<Rightarrow> None | Some f \<Rightarrow> printf_loop m f False ap)"

text \<open>The kernel's conversions and its loop, which takes the character after \<open>%\<close> in the same turn.\<close>

definition console_conversion :: "mem \<Rightarrow> u32 \<Rightarrow> u8 \<Rightarrow> u8 list option \<times> u32" where
  "console_conversion m argp c =
     (if c = 0x64 then (num_arg (console_printint (load32 m argp) 10 True), argp + 4)
      else if c = 0x78 \<or> c = 0x70 then (num_arg (console_printint (load32 m argp) 16 False), argp + 4)
      else if c = 0x73 then (str_arg m (load32 m argp), argp + 4)
      else if c = 0x25 then (Some [0x25], argp)
      else (Some [0x25, c], argp))"

fun cprintf_loop :: "mem \<Rightarrow> u8 list \<Rightarrow> u32 \<Rightarrow> u8 list option" where
  "cprintf_loop m [] argp = Some []"
| "cprintf_loop m [c] argp = (if c \<noteq> 0x25 then Some [c] else Some [])"
| "cprintf_loop m (c # d # fmt) argp =
     (if c \<noteq> 0x25 then then_put (Some [c]) (cprintf_loop m (d # fmt) argp)
      else then_put (fst (console_conversion m argp d)) (cprintf_loop m fmt (snd (console_conversion m argp d))))"

text \<open>The lock is held around the loop when \<open>cons.locking\<close> is set; a null format panics.\<close>

definition cprintf :: "mem \<Rightarrow> u32 \<Rightarrow> u32 \<Rightarrow> u8 list option res" where
  "cprintf m fmt argp =
     (if fmt = 0 then Panic ''null fmt''
      else Ok (case cstring m fmt of None \<Rightarrow> None | Some f \<Rightarrow> cprintf_loop m f argp))"

section \<open>Numbers\<close>

text \<open>The value of a digit string, highest digit first.\<close>

definition digit_value :: "u8 \<Rightarrow> nat" where
  "digit_value c = (if c \<le> 0x39 then unat c - 48 else if c \<le> 0x46 then unat c - 55 else unat c - 87)"

definition text_value :: "nat \<Rightarrow> u8 list \<Rightarrow> nat" where
  "text_value b s = foldl (\<lambda>v c. v * b + digit_value c) 0 s"

definition is_digits :: "u8 list \<Rightarrow> nat \<Rightarrow> bool" where
  "is_digits digits b \<longleftrightarrow> 2 \<le> b \<and> b \<le> length digits \<and> (\<forall>k<b. digit_value (digits ! k) = k)"

lemma is_digitsI:
  assumes "map digit_value digits = [0..<length digits]" and "2 \<le> b" and "b \<le> length digits"
  shows "is_digits digits b"
proof -
  have "digit_value (digits ! k) = k" if "k < b" for k
    using arg_cong [OF assms(1), of "\<lambda>xs. xs ! k"] that assms(3) by simp
  then show ?thesis using assms by (simp add: is_digits_def)
qed

lemma digits_nonzero:
  assumes "is_digits digits b" and "0 < k" and "k < b"
  shows "digits ! k \<noteq> digits ! 0"
proof
  assume "digits ! k = digits ! 0"
  then have "digit_value (digits ! k) = digit_value (digits ! 0)" by simp
  then show False using assms by (simp add: is_digits_def)
qed

lemma is_upper_digits: "b \<in> {10, 16} \<Longrightarrow> is_digits upper_digits b"
  by (rule is_digitsI) (auto simp: upper_digits_def ascii_def digit_value_def)

lemma is_lower_digits: "b \<in> {10, 16} \<Longrightarrow> is_digits lower_digits b"
  by (rule is_digitsI) (auto simp: lower_digits_def ascii_def digit_value_def)

lemma text_value_snoc: "text_value b (s @ [c]) = text_value b s * b + digit_value c"
  by (simp add: text_value_def)

text \<open>The loop ends within the buffer when the number has at most \<open>16 - length buf\<close> digits.\<close>

lemma digit_loop_value:
  assumes "is_digits digits (unat b)" and "length buf + k \<le> 16" and "unat x < unat b ^ k" and "0 < k"
  shows "\<exists>ds. digit_loop digits x b buf = Ok (buf @ ds) \<and> ds \<noteq> [] \<and> length ds \<le> k \<and> text_value (unat b) (rev ds) = unat x
    \<and> (\<forall>c\<in>set ds. c \<in> set (take (unat b) digits)) \<and> (unat x \<ge> unat b \<longrightarrow> last ds \<noteq> digits ! 0)"
  using assms
proof (induction k arbitrary: x buf)
  case (Suc k)
  let ?c = "digits ! (unat x mod unat b)"
  have b: "b \<noteq> 0" "2 \<le> unat b" "unat b \<le> length digits" using Suc.prems(1) by (auto simp: is_digits_def)
  have i: "idx digits (unat (x mod b)) = Ok ?c" using b by (simp add: unat_mod_distrib less_le_trans [OF mod_less_divisor])
  have v: "digit_value ?c = unat x mod unat b" using Suc.prems(1) b by (simp add: is_digits_def)
  have m: "?c \<in> set (take (unat b) digits)" using b by (auto simp: in_set_conv_nth intro!: exI [of _ "unat x mod unat b"])
  show ?case
  proof (cases "x div b = 0")
    case True
    then have "unat x < unat b" using b by (simp flip: unat_eq_0 add: unat_div_distrib div_eq_0_iff)
    then show ?thesis using b i v m True Suc.prems
      by (intro exI [of _ "[?c]"]) (subst digit_loop.simps, auto simp: text_value_def)
  next
    case False
    have q: "unat (x div b) < unat b ^ k" using Suc.prems(3) b
      by (simp add: unat_div_distrib div_less_iff_less_mult mult.commute)
    have "x div b \<noteq> 0" using False .
    then have "0 < unat (x div b)" by (simp add: unat_gt_0)
    then have "0 < k" using q by (cases k) auto
    then obtain ds where ds: "digit_loop digits (x div b) b (buf @ [?c]) = Ok ((buf @ [?c]) @ ds)" "ds \<noteq> []" "length ds \<le> k"
        "text_value (unat b) (rev ds) = unat (x div b)" "\<forall>c\<in>set ds. c \<in> set (take (unat b) digits)"
        "unat (x div b) \<ge> unat b \<longrightarrow> last ds \<noteq> digits ! 0"
      using Suc.IH [of "buf @ [?c]" "x div b"] Suc.prems q by auto
    have "last ds \<noteq> digits ! 0"
    proof (cases "unat (x div b) \<ge> unat b")
      case False
      then have small: "unat (x div b) < unat b" "x div b div b = 0" "0 < unat (x div b)"
        using \<open>0 < unat (x div b)\<close> by (auto simp flip: unat_eq_0 simp: unat_div_distrib)
      moreover have "digit_loop digits (x div b) b (buf @ [?c]) = Ok ((buf @ [?c]) @ [digits ! unat (x div b)])"
        using small b Suc.prems \<open>0 < k\<close> by (subst digit_loop.simps) (simp add: unat_mod_distrib)
      ultimately have "ds = [digits ! unat (x div b)]" using ds(1) by simp
      then show ?thesis using digits_nonzero [OF Suc.prems(1) small(3,1)] by simp
    qed (use ds in simp)
    then show ?thesis using b i v m ds False Suc.prems
      by (intro exI [of _ "?c # ds"]) (subst digit_loop.simps, auto simp: text_value_snoc unat_div_distrib)
  qed
qed simp

text \<open>The magnitude that is printed.\<close>

lemma sint_u32: "sint (x::u32) = uint x - (if bit x 31 then 4294967296 else 0)"
proof -
  have "take_bit 32 (uint x) = uint x" using uint_lt2p [of x] by (simp add: take_bit_int_eq_self)
  then show ?thesis by (simp add: sint_uint signed_take_bit_eq_take_bit_minus bit_uint_iff)
qed

lemma magnitude: "unat (if sint (xx::u32) < 0 then - xx else xx) = nat \<bar>sint xx\<bar>"
proof -
  have u: "uint xx < 4294967296" using uint_lt2p [of xx] by simp
  show ?thesis
  proof (cases "bit xx 31")
    case True
    then have s: "sint xx = uint xx - 4294967296" by (simp add: sint_u32)
    then have "uint xx > 0" using sint_greater_eq [of xx] by simp
    then have "uint (- xx) = 4294967296 - uint xx"
      using u by (simp add: uint_word_ariths zmod_zminus1_eq_if)
    moreover have "sint xx < 0" using s u by simp
    ultimately show ?thesis using s by (simp only: if_True unat_eq_nat_uint)
  next
    case False
    then have s: "sint xx = uint xx" by (simp add: sint_u32)
    then have "\<not> sint xx < 0" "\<bar>sint xx\<bar> = uint xx" by simp_all
    then show ?thesis by (simp only: if_False unat_eq_nat_uint)
  qed
qed

text \<open>Both printing routines write a decimal number the same way.\<close>

lemma take_lower_digits: "take 10 lower_digits = take 10 upper_digits"
  by (simp add: lower_digits_def upper_digits_def ascii_def)

lemma digit_loop_cong:
  "b \<noteq> 0 \<Longrightarrow> take (unat b) d1 = take (unat b) d2 \<Longrightarrow> unat b \<le> length d1 \<Longrightarrow> unat b \<le> length d2 \<Longrightarrow>
   digit_loop d1 x b buf = digit_loop d2 x b buf"
proof (induction d1 x b buf rule: digit_loop.induct)
  case (1 digits x b buf)
  have k: "unat (x mod b) < unat b" using 1(2) by (simp add: unat_mod_distrib unat_gt_0)
  have i: "idx digits (unat (x mod b)) = Ok (d2 ! unat (x mod b))"
    using k 1(4,5) nth_take [OF k, of digits] nth_take [OF k, of d2] unfolding 1(3) by simp
  show ?case using 1 i k
    by (subst (1 2) digit_loop.simps) simp
qed

lemma printint_text:
  assumes "b = 10 \<or> b = 16" and "neg = (sg \<and> sint xx < 0)" and "sg \<longrightarrow> sint xx \<noteq> - 2147483648"
  shows "\<exists>ds. printint xx b sg = Ok ((if neg then [0x2D] else []) @ ds)
    \<and> text_value (unat b) ds = (if sg then nat \<bar>sint xx\<bar> else unat xx)
    \<and> ds \<noteq> [] \<and> length ds \<le> 10 \<and> set ds \<subseteq> set (take (unat b) upper_digits) \<and> (length ds > 1 \<longrightarrow> hd ds \<noteq> 0x30)"
proof -
  let ?x = "if neg then - xx else xx"
  have d: "is_digits upper_digits (unat b)" using is_upper_digits assms(1) by auto
  have "unat ?x < unat b ^ 10" using assms(1) unat_u32_less [of ?x] by (auto simp del: unat_u32_less)
  then obtain ds where ds: "digit_loop upper_digits ?x b [] = Ok ds" "ds \<noteq> []" "length ds \<le> 10"
      "text_value (unat b) (rev ds) = unat ?x" "\<forall>c\<in>set ds. c \<in> set (take (unat b) upper_digits)"
      "unat ?x \<ge> unat b \<longrightarrow> last ds \<noteq> upper_digits ! 0"
    using digit_loop_value [OF d, of "[]" 10 ?x] by auto
  have "unat ?x \<ge> unat b" if "length ds > 1"
  proof (rule ccontr)
    assume "\<not> unat ?x \<ge> unat b"
    then have "?x div b = 0" by (simp flip: unat_eq_0 add: unat_div_distrib)
    then have "digit_loop upper_digits ?x b [] = Ok [upper_digits ! unat (?x mod b)]"
      using ds(1) by (subst (asm) digit_loop.simps, subst digit_loop.simps) (auto split: if_splits)
    then show False using ds(1) that by simp
  qed
  moreover have "unat ?x = (if sg then nat \<bar>sint xx\<bar> else unat xx)" using magnitude [of xx] assms(2) by (auto split: if_splits)
  moreover have "upper_digits ! 0 = 0x30" by (simp add: upper_digits_def ascii_def)
  moreover have "printint xx b sg = Ok ((if neg then [0x2D] else []) @ rev ds)"
    using ds(1,3) assms(2,3) by (cases neg) (auto simp: printint_def negated_def Let_def signed_text_def)
  ultimately show ?thesis using ds(2-)
    by (intro exI [of _ "rev ds"]) (simp add: hd_rev subset_iff)
qed

lemma console_printint_same: "console_printint xx 10 sg = printint xx 10 sg"
proof -
  have "digit_loop lower_digits x 10 buf = digit_loop upper_digits x 10 buf" for x buf
    by (rule digit_loop_cong) (auto simp: take_lower_digits lower_digits_def upper_digits_def ascii_def)
  then show ?thesis by (simp add: console_printint_def printint_def)
qed

section \<open>Reading a number back\<close>

lemma digit_10: "c \<in> set (take 10 upper_digits) \<Longrightarrow> 48 \<le> c \<and> c \<le> 57 \<and> digit_value c = unat c - 48 \<and> 48 \<le> unat c \<and> unat c \<le> 57"
  by (auto simp: upper_digits_def ascii_def digit_value_def)

lemma foldl_digits_mono: "w \<le> foldl (\<lambda>v c. v * 10 + digit_value c) w xs"
proof (induction xs arbitrary: w)
  case (Cons x xs)
  have "w \<le> w * 10 + digit_value x" by simp
  then show ?case using Cons [of "w * 10 + digit_value x"] by simp
qed simp

lemma atoi_loop_text:
  assumes "set ds \<subseteq> set (take 10 upper_digits)" and "0 \<le> v" and "r = foldl (\<lambda>v c. v * 10 + digit_value c) (nat v) ds"
  shows "(r \<le> 2147483599 \<longrightarrow> atoi_loop (ds @ [0]) v = Ok (int r)) \<and>
    (2147483600 \<le> r \<and> ds \<noteq> [] \<longrightarrow> atoi_loop (ds @ [0]) v = Undef ''overflow'')"
  using assms
proof (induction ds arbitrary: v)
  case (Cons c ds)
  have c: "48 \<le> c" "c \<le> 57" "digit_value c = unat c - 48" "48 \<le> unat c" "unat c \<le> 57" using digit_10 [of c] Cons.prems by auto
  define v' where "v' = v * 10 + uint c - 48"
  obtain k where k: "uint c = int k" "unat c = k" by (metis uint_nat)
  have v': "0 \<le> v'" "nat v * 10 + digit_value c = nat v'" using c(3-5) Cons.prems(2) unfolding v'_def k by linarith+
  have r: "r = foldl (\<lambda>v c. v * 10 + digit_value c) (nat v') ds" using Cons.prems(3) v' by simp
  have le: "nat v' \<le> r" using foldl_digits_mono [of "nat v'" ds] r by simp
  have step: "atoi_loop ((c # ds) @ [0]) v = (if v' > 2147483599 then Undef ''overflow'' else atoi_loop (ds @ [0]) v')"
    using c by (simp add: v'_def)
  show ?case
  proof (cases "v' > 2147483599")
    case True
    then show ?thesis using step le by simp
  next
    case False
    moreover have "ds \<noteq> []" if "2147483600 \<le> r" using that r False by auto
    ultimately show ?thesis using Cons.IH [OF _ v'(1) r] Cons.prems(1) unfolding step by simp
  qed
qed simp

text \<open>C19. A number printed in decimal, by \<open>printf\<close> or by \<open>cprintf\<close>, has at most 11 characters, so that the buffer of 16 is
  never overrun.  \<open>atoi\<close> reads a printed number from 0 to 2147483599 back, and runs into signed overflow on every larger
  one.  A negative number is printed as a minus sign and the digits of its magnitude, of which \<open>atoi\<close>, which knows no
  sign, reads 0; negating the least one, -2147483648, overflows in both printing routines.\<close>

theorem printint_atoi:
  "if sint xx = - 2147483648 then printint xx 10 True = Undef ''overflow'' \<and> console_printint xx 10 True = Undef ''overflow''
   else \<exists>s. printint xx 10 True = Ok s \<and> console_printint xx 10 True = Ok s \<and> length s \<le> 11 \<and>
     (0 \<le> sint xx \<and> sint xx \<le> 2147483599 \<longrightarrow> atoi (s @ [0]) = Ok (sint xx)) \<and>
     (2147483600 \<le> sint xx \<longrightarrow> atoi (s @ [0]) = Undef ''overflow'') \<and>
     (sint xx < 0 \<longrightarrow> (\<exists>ds. s = 0x2D # ds \<and> text_value 10 ds = nat (- sint xx)) \<and> atoi (s @ [0]) = Ok 0)"
proof (cases "sint xx = - 2147483648")
  case True
  then show ?thesis by (simp add: console_printint_same printint_def negated_def)
next
  case False
  obtain ds where ds: "printint xx 10 True = Ok ((if sint xx < 0 then [0x2D] else []) @ ds)"
      "text_value 10 ds = nat \<bar>sint xx\<bar>" "ds \<noteq> []" "length ds \<le> 10" "set ds \<subseteq> set (take 10 upper_digits)"
    using printint_text [of 10 "sint xx < 0" True xx] False by auto
  have v: "foldl (\<lambda>v c. v * 10 + digit_value c) (nat 0) ds = nat \<bar>sint xx\<bar>" using ds(2) by (simp add: text_value_def)
  have "\<exists>s. printint xx 10 True = Ok s \<and> console_printint xx 10 True = Ok s \<and> length s \<le> 11 \<and>
     (0 \<le> sint xx \<and> sint xx \<le> 2147483599 \<longrightarrow> atoi (s @ [0]) = Ok (sint xx)) \<and>
     (2147483600 \<le> sint xx \<longrightarrow> atoi (s @ [0]) = Undef ''overflow'') \<and>
     (sint xx < 0 \<longrightarrow> (\<exists>ds. s = 0x2D # ds \<and> text_value 10 ds = nat (- sint xx)) \<and> atoi (s @ [0]) = Ok 0)"
    using ds atoi_loop_text [OF ds(5) order_refl v [symmetric]]
    by (intro exI [of _ "(if sint xx < 0 then [0x2D] else []) @ ds"]) (auto simp: console_printint_same atoi_def)
  then show ?thesis using False by simp
qed

theorem printint_atoi_witness:
  "printint 1204 10 True = Ok (ascii ''1204'') \<and> atoi (ascii ''1204'' @ [0]) = Ok 1204"
proof -
  have p: "printint 1204 10 True = Ok (ascii ''1204'')"
    by (simp add: printint_def signed_text_def digit_loop.simps upper_digits_def ascii_def sint_u32)
  have "sint (1204::u32) = 1204" by (simp add: sint_u32)
  then show ?thesis using printint_atoi [of 1204] p by (auto split: if_splits)
qed

end
