(* ===== verification/Uproc.thy ===== *)
theory Uproc
  imports Printf Grep
begin

text \<open>
  User programs.  A program is a tree: it has exited, or it makes a system call and goes on with the answer of the
  kernel, so that both sides of a \<open>fork\<close> are subtrees of the same node.  A loop takes the number of turns it may make,
  and \<open>More\<close> is where it would go on.  Here are the library routines of \<open>ulib.c\<close> that make system calls, and printing.
\<close>

section \<open>Programs and system calls\<close>

text \<open>The calls of \<open>user.h\<close> with their arguments, the memory a pointer argument points to as its contents.\<close>

datatype ucall =
    UFork | UWait | UPipe
  | URead int nat | UWrite int "u8 list" | UClose int | UKill int
  | UExec "u8 list" "u8 list list" | UOpen "u8 list" u32 | UMknod "u8 list" nat nat
  | UUnlink "u8 list" | UFstat int | ULink "u8 list" "u8 list" | UMkdir "u8 list" | UChdir "u8 list"
  | UDup int | USleep int | UArp "u8 list" "u8 list" nat

text \<open>Answers: a number, what \<open>read\<close> stored, the two ends of a pipe, and type, inode number and size of a file.\<close>

datatype ans = Val int | Data "u8 list" | Ends int int | Info u32 u32 u32

primrec data :: "ans \<Rightarrow> u8 list" where
  "data (Val n) = []"
| "data (Data d) = d"
| "data (Ends r w) = []"
| "data (Info t i s) = []"

primrec val :: "ans \<Rightarrow> int" where
  "val (Val n) = n"
| "val (Data d) = int (length d)"
| "val (Ends r w) = 0"
| "val (Info t i s) = 0"

text \<open>\<open>Fault\<close> is where the program has run into behaviour that C leaves undefined.\<close>

datatype uproc = Exit | More | Fault | Sys ucall "ans \<Rightarrow> uproc"

section \<open>Library routines\<close>

text \<open>\<open>putc\<close> for every byte of a text.\<close>

primrec puts :: "int \<Rightarrow> u8 list \<Rightarrow> uproc \<Rightarrow> uproc" where
  "puts fd [] k = k"
| "puts fd (c # s) k = Sys (UWrite fd [c]) (\<lambda>_. puts fd s k)"

text \<open>What \<open>%d\<close> prints; for the least number, where \<open>printint\<close> has no meaning, nothing.\<close>

definition decimal :: "u32 \<Rightarrow> u8 list" where
  "decimal n = (case printint n 10 True of Ok s \<Rightarrow> s | _ \<Rightarrow> [])"

text \<open>\<open>gets\<close>: \<open>left\<close> is \<open>max - 1 - i\<close>.\<close>

primrec gets :: "nat \<Rightarrow> u8 list \<Rightarrow> (u8 list \<Rightarrow> uproc) \<Rightarrow> uproc" where
  "gets 0 buf k = k buf"
| "gets (Suc left) buf k =
     Sys (URead 0 1) (\<lambda>a. case a of Data (c # _) \<Rightarrow> if c = 0x0A \<or> c = 0x0D then k (buf @ [c]) else gets left (buf @ [c]) k
                        | _ \<Rightarrow> k buf)"

text \<open>\<open>stat\<close>: the answer of \<open>fstat\<close>, or -1 when the file cannot be opened.\<close>

definition stat_file :: "u8 list \<Rightarrow> (ans \<Rightarrow> uproc) \<Rightarrow> uproc" where
  "stat_file n k =
     Sys (UOpen n 0) (\<lambda>fd. if val fd < 0 then k (Val (-1))
       else Sys (UFstat (val fd)) (\<lambda>r. Sys (UClose (val fd)) (\<lambda>_. k r)))"

text \<open>The copying routines on memory.\<close>

partial_function (option) user_strcpy :: "mem \<Rightarrow> u32 \<Rightarrow> u32 \<Rightarrow> mem option" where
  "user_strcpy m s t = (if m t \<noteq> 0 then user_strcpy (m(s := m t)) (s + 1) (t + 1) else Some (m(s := m t)))"

definition user_strlen :: "mem \<Rightarrow> u32 \<Rightarrow> nat option" where
  "user_strlen m s = strlen_loop m s 0"

definition user_memset :: "mem \<Rightarrow> u32 \<Rightarrow> u32 \<Rightarrow> u32 \<Rightarrow> mem" where
  "user_memset m dst c n = stosb m dst c (unat n)"

definition user_memmove :: "mem \<Rightarrow> u32 \<Rightarrow> u32 \<Rightarrow> int \<Rightarrow> mem" where
  "user_memmove m dst src n = move_up m dst src (nat n)"

section \<open>Running a program\<close>

text \<open>A run against a kernel that answers from its own state: the state at the end, and whether the program has exited.\<close>

primrec run :: "('w \<Rightarrow> ucall \<Rightarrow> ans \<times> 'w) \<Rightarrow> uproc \<Rightarrow> 'w \<Rightarrow> 'w \<times> uproc" where
  "run kern Exit = (\<lambda>w. (w, Exit))"
| "run kern More = (\<lambda>w. (w, More))"
| "run kern Fault = (\<lambda>w. (w, Fault))"
| "run kern (Sys c k) = (\<lambda>w. run kern (k (fst (kern w c))) (snd (kern w c)))"

text \<open>A kernel as one program that reads one file sees it: each \<open>read\<close> gives the next piece, whatever length is
  asked for, a descriptor that is opened is 3, every \<open>write\<close> succeeds, and what is written is kept with its descriptor.\<close>

type_synonym filter_state = "u8 list list \<times> (int \<times> u8) list"

fun filter_kernel :: "filter_state \<Rightarrow> ucall \<Rightarrow> ans \<times> filter_state" where
  "filter_kernel ([], out) (URead fd n) = (Data [], ([], out))"
| "filter_kernel (r # rs, out) (URead fd n) = (Data r, (rs, out))"
| "filter_kernel (rs, out) (UWrite fd s) = (Val (int (length s)), (rs, out @ map (Pair fd) s))"
| "filter_kernel w (UOpen f m) = (Val 3, w)"
| "filter_kernel w c = (Val 0, w)"

lemma run_puts [simp]: "run filter_kernel (puts fd s k) (rs, out) = run filter_kernel k (rs, out @ map (Pair fd) s)"
  by (induction s arbitrary: out) simp_all

end
