(* ===== verification/Programs.thy ===== *)
theory Programs
  imports Uproc
begin

text \<open>
  The small user programs: \<open>cat\<close>, \<open>wc\<close>, \<open>ls\<close>, \<open>echo\<close>, \<open>kill\<close>, \<open>ln\<close>, \<open>mkdir\<close>, \<open>rm\<close>, \<open>init\<close>, \<open>zombie\<close>,
  \<open>forktest\<close>, \<open>stressfs\<close> and \<open>arptest\<close>, each a program tree; \<open>argv\<close> is the list of the arguments.
\<close>

abbreviation nl :: "u8 list" where "nl \<equiv> [0x0A]"

section \<open>cat\<close>

primrec cat :: "nat \<Rightarrow> int \<Rightarrow> uproc \<Rightarrow> uproc" where
  "cat 0 fd k = More"
| "cat (Suc n) fd k =
     Sys (URead fd 512) (\<lambda>a.
       if val a > 0 then
         Sys (UWrite 1 (data a)) (\<lambda>r. if val r \<noteq> val a then puts 1 (ascii ''cat: write error'' @ nl) Exit else cat n fd k)
       else if val a < 0 then puts 1 (ascii ''cat: read error'' @ nl) Exit
       else k)"

primrec cat_files :: "nat \<Rightarrow> u8 list list \<Rightarrow> uproc" where
  "cat_files n [] = Exit"
| "cat_files n (f # fs) =
     Sys (UOpen f 0) (\<lambda>fd. if val fd < 0 then puts 1 (ascii ''cat: cannot open '' @ f @ nl) Exit
       else cat n (val fd) (Sys (UClose (val fd)) (\<lambda>_. cat_files n fs)))"

definition cat_main :: "nat \<Rightarrow> u8 list list \<Rightarrow> uproc" where
  "cat_main n argv = (if length argv \<le> 1 then cat n 0 Exit else cat_files n (tl argv))"

section \<open>wc\<close>

record counts =
  lines :: u32
  words :: u32
  chars :: u32
  inword :: bool

definition separators :: "u8 list" where "separators = [0x20, 0x0D, 0x09, 0x0A, 0x0B]"

definition count_byte :: "u8 \<Rightarrow> counts \<Rightarrow> counts" where
  "count_byte x s =
     (let s = s\<lparr>chars := chars s + 1\<rparr>; s = (if x = 0x0A then s\<lparr>lines := lines s + 1\<rparr> else s) in
      if strchr separators x \<noteq> None then s\<lparr>inword := False\<rparr>
      else if \<not> inword s then s\<lparr>words := words s + 1, inword := True\<rparr> else s)"

definition wc_line :: "counts \<Rightarrow> u8 list \<Rightarrow> u8 list" where
  "wc_line s name = decimal (lines s) @ [0x20] @ decimal (words s) @ [0x20] @ decimal (chars s) @ [0x20] @ name @ nl"

primrec wc_loop :: "nat \<Rightarrow> int \<Rightarrow> u8 list \<Rightarrow> counts \<Rightarrow> uproc \<Rightarrow> uproc" where
  "wc_loop 0 fd name s k = More"
| "wc_loop (Suc n) fd name s k =
     Sys (URead fd 512) (\<lambda>a.
       if val a > 0 then wc_loop n fd name (fold count_byte (data a) s) k
       else if val a < 0 then puts 1 (ascii ''wc: read error'' @ nl) Exit
       else puts 1 (wc_line s name) k)"

definition wc :: "nat \<Rightarrow> int \<Rightarrow> u8 list \<Rightarrow> uproc \<Rightarrow> uproc" where
  "wc n fd name k = wc_loop n fd name \<lparr>lines = 0, words = 0, chars = 0, inword = False\<rparr> k"

primrec wc_files :: "nat \<Rightarrow> u8 list list \<Rightarrow> uproc" where
  "wc_files n [] = Exit"
| "wc_files n (f # fs) =
     Sys (UOpen f 0) (\<lambda>fd. if val fd < 0 then puts 1 (ascii ''wc: cannot open '' @ f @ nl) Exit
       else wc n (val fd) f (Sys (UClose (val fd)) (\<lambda>_. wc_files n fs)))"

definition wc_main :: "nat \<Rightarrow> u8 list list \<Rightarrow> uproc" where
  "wc_main n argv = (if length argv \<le> 1 then wc n 0 [] Exit else wc_files n (tl argv))"

section \<open>ls\<close>

text \<open>The name after the last slash, padded with blanks to DIRSIZ = 14 bytes.\<close>

definition fmtname :: "u8 list \<Rightarrow> u8 list" where
  "fmtname path =
     (let p = rev (takeWhile (\<lambda>c. c \<noteq> 0x2F) (rev path)) in
      if length p \<ge> 14 then p else p @ replicate (14 - length p) 0x20)"

definition ls_line :: "u8 list \<Rightarrow> ans \<Rightarrow> u8 list" where
  "ls_line path st =
     (case st of Info t i sz \<Rightarrow> fmtname path @ [0x20] @ decimal t @ [0x20] @ decimal i @ [0x20] @ decimal sz @ nl | _ \<Rightarrow> [])"

text \<open>The loop over the directory; \<open>dir\<close> is the path with a slash.  An entry is two bytes of inode number and 14 of name.\<close>

primrec ls_dir :: "nat \<Rightarrow> int \<Rightarrow> u8 list \<Rightarrow> uproc \<Rightarrow> uproc" where
  "ls_dir 0 fd dir k = More"
| "ls_dir (Suc n) fd dir k =
     Sys (URead fd 16) (\<lambda>a.
       if val a \<noteq> 16 then k
       else if take 2 (data a) = [0, 0] then ls_dir n fd dir k
       else let buf = dir @ takeWhile (\<lambda>c. c \<noteq> 0) (drop 2 (data a)) in
            stat_file buf (\<lambda>st. if val st < 0 then puts 1 (ascii ''ls: cannot stat '' @ buf @ nl) (ls_dir n fd dir k)
              else puts 1 (ls_line buf st) (ls_dir n fd dir k)))"

definition ls :: "nat \<Rightarrow> u8 list \<Rightarrow> uproc \<Rightarrow> uproc" where
  "ls n path k =
     Sys (UOpen path 0) (\<lambda>fd.
       if val fd < 0 then puts 2 (ascii ''ls: cannot open '' @ path @ nl) k
       else Sys (UFstat (val fd)) (\<lambda>st.
         let done = Sys (UClose (val fd)) (\<lambda>_. k) in
         if val st < 0 then puts 2 (ascii ''ls: cannot stat '' @ path @ nl) done
         else (case st of Info t i sz \<Rightarrow>
                 if t = 2 then puts 1 (ls_line path st) done
                 else if t = 1 then
                   if length path + 1 + 14 + 1 > 512 then puts 1 (ascii ''ls: path too long'' @ nl) done
                   else ls_dir n (val fd) (path @ [0x2F]) done
                 else done
               | _ \<Rightarrow> done)))"

primrec ls_args :: "nat \<Rightarrow> u8 list list \<Rightarrow> uproc" where
  "ls_args n [] = Exit"
| "ls_args n (f # fs) = ls n f (ls_args n fs)"

definition ls_main :: "nat \<Rightarrow> u8 list list \<Rightarrow> uproc" where
  "ls_main n argv = (if length argv < 2 then ls n (ascii ''.'') Exit else ls_args n (tl argv))"

section \<open>echo, kill, ln, mkdir, rm\<close>

fun echo_args :: "u8 list list \<Rightarrow> uproc" where
  "echo_args [] = Exit"
| "echo_args [f] = puts 1 (f @ nl) Exit"
| "echo_args (f # g # fs) = puts 1 (f @ [0x20]) (echo_args (g # fs))"

definition echo_main :: "u8 list list \<Rightarrow> uproc" where
  "echo_main argv = echo_args (tl argv)"

primrec kill_args :: "u8 list list \<Rightarrow> uproc" where
  "kill_args [] = Exit"
| "kill_args (f # fs) = (case atoi (f @ [0]) of Ok pid \<Rightarrow> Sys (UKill pid) (\<lambda>_. kill_args fs) | _ \<Rightarrow> Fault)"

definition kill_main :: "u8 list list \<Rightarrow> uproc" where
  "kill_main argv = (if length argv < 2 then puts 2 (ascii ''usage: kill pid...'' @ nl) Exit else kill_args (tl argv))"

definition ln_main :: "u8 list list \<Rightarrow> uproc" where
  "ln_main argv =
     (if length argv \<noteq> 3 then puts 2 (ascii ''Usage: ln old new'' @ nl) Exit
      else Sys (ULink (argv ! 1) (argv ! 2)) (\<lambda>r. if val r < 0
        then puts 2 (ascii ''link '' @ argv ! 1 @ [0x20] @ argv ! 2 @ ascii '': failed'' @ nl) Exit else Exit))"

primrec mkdir_args :: "u8 list list \<Rightarrow> uproc" where
  "mkdir_args [] = Exit"
| "mkdir_args (f # fs) =
     Sys (UMkdir f) (\<lambda>r. if val r < 0 then puts 2 (ascii ''mkdir: '' @ f @ ascii '' failed to create'' @ nl) Exit else mkdir_args fs)"

definition mkdir_main :: "u8 list list \<Rightarrow> uproc" where
  "mkdir_main argv = (if length argv < 2 then puts 2 (ascii ''Usage: mkdir files...'' @ nl) Exit else mkdir_args (tl argv))"

primrec rm_args :: "u8 list list \<Rightarrow> uproc" where
  "rm_args [] = Exit"
| "rm_args (f # fs) =
     Sys (UUnlink f) (\<lambda>r. if val r < 0 then puts 2 (ascii ''rm: '' @ f @ ascii '' failed to delete'' @ nl) Exit else rm_args fs)"

definition rm_main :: "u8 list list \<Rightarrow> uproc" where
  "rm_main argv = (if length argv < 2 then puts 2 (ascii ''Usage: rm files...'' @ nl) Exit else rm_args (tl argv))"

section \<open>init, zombie, forktest, stressfs, arptest\<close>

definition console_path :: "u8 list" where "console_path = ascii ''console''"

text \<open>Each turn of the loop of \<open>init\<close> and of the loop over \<open>wait\<close> in it uses one of the turns given.\<close>

fun init_loop :: "nat \<Rightarrow> uproc"
and init_wait :: "nat \<Rightarrow> int \<Rightarrow> uproc" where
  "init_loop 0 = More"
| "init_loop (Suc n) =
     puts 1 (ascii ''init: starting sh'' @ nl)
      (Sys UFork (\<lambda>pid.
        if val pid < 0 then puts 1 (ascii ''init: fork failed'' @ nl) Exit
        else if val pid = 0 then Sys (UExec (ascii ''sh'') [ascii ''sh'']) (\<lambda>_. puts 1 (ascii ''init: exec sh failed'' @ nl) Exit)
        else init_wait n (val pid)))"
| "init_wait 0 pid = More"
| "init_wait (Suc n) pid =
     Sys UWait (\<lambda>wpid. if val wpid \<ge> 0 \<and> val wpid \<noteq> pid then puts 1 (ascii ''zombie!'' @ nl) (init_wait n pid) else init_loop n)"

definition init_main :: "nat \<Rightarrow> uproc" where
  "init_main n =
     (let go = Sys (UDup 0) (\<lambda>_. Sys (UDup 0) (\<lambda>_. init_loop n)) in
      Sys (UOpen console_path 2) (\<lambda>fd. if val fd < 0
        then Sys (UMknod console_path 1 1) (\<lambda>_. Sys (UOpen console_path 2) (\<lambda>_. go)) else go))"

definition zombie_main :: uproc where
  "zombie_main = Sys UFork (\<lambda>pid. if val pid > 0 then Sys (USleep 5) (\<lambda>_. Exit) else Exit)"

text \<open>\<open>forktest\<close> has a \<open>printf\<close> of its own that writes the whole string at once.\<close>

definition say :: "int \<Rightarrow> u8 list \<Rightarrow> uproc \<Rightarrow> uproc" where
  "say fd s k = Sys (UWrite fd s) (\<lambda>_. k)"

primrec forktest_wait :: "nat \<Rightarrow> uproc" where
  "forktest_wait 0 =
     Sys UWait (\<lambda>r. if val r \<noteq> -1 then say 1 (ascii ''wait got too many'' @ nl) Exit else say 1 (ascii ''fork test OK'' @ nl) Exit)"
| "forktest_wait (Suc n) =
     Sys UWait (\<lambda>r. if val r < 0 then say 1 (ascii ''wait stopped early'' @ nl) Exit else forktest_wait n)"

text \<open>\<open>todo\<close> is \<open>N - n\<close>.\<close>

primrec forktest_fork :: "nat \<Rightarrow> nat \<Rightarrow> uproc" where
  "forktest_fork 0 n = say 1 (ascii ''fork claimed to work N times!'' @ nl) Exit"
| "forktest_fork (Suc todo) n =
     Sys UFork (\<lambda>pid. if val pid < 0 then forktest_wait n else if val pid = 0 then Exit else forktest_fork todo (Suc n))"

definition forktest_main :: uproc where
  "forktest_main = say 1 (ascii ''fork test'' @ nl) (forktest_fork 1000 0)"

primrec again :: "nat \<Rightarrow> ucall \<Rightarrow> uproc \<Rightarrow> uproc" where
  "again 0 c k = k"
| "again (Suc n) c k = Sys c (\<lambda>_. again n c k)"

text \<open>From the second \<open>printf\<close> on; \<open>i\<close> is the number of forks in which the process was the child.\<close>

definition stressfs_body :: "nat \<Rightarrow> uproc" where
  "stressfs_body i =
     (let path = ascii ''stressfs'' @ [0x30 + of_nat i] in
      puts 1 (ascii ''write '' @ decimal (of_nat i) @ nl)
       (Sys (UOpen path (0x200 OR 0x002)) (\<lambda>fd.
         again 20 (UWrite (val fd) (replicate 512 0x61))
          (Sys (UClose (val fd)) (\<lambda>_.
            puts 1 (ascii ''read'' @ nl)
             (Sys (UOpen path 0) (\<lambda>fd.
               again 20 (URead (val fd) 512)
                (Sys (UClose (val fd)) (\<lambda>_. Sys UWait (\<lambda>_. Exit))))))))))"

primrec stressfs_fork :: "nat \<Rightarrow> nat \<Rightarrow> uproc" where
  "stressfs_fork 0 i = stressfs_body i"
| "stressfs_fork (Suc todo) i = Sys UFork (\<lambda>pid. if val pid > 0 then stressfs_body i else stressfs_fork todo (Suc i))"

definition stressfs_main :: uproc where
  "stressfs_main = puts 1 (ascii ''stressfs starting'' @ nl) (stressfs_fork 4 0)"

definition arptest_main :: uproc where
  "arptest_main =
     Sys (UArp (ascii ''mynet0'') (ascii ''192.168.2.1'') 18) (\<lambda>r.
       if val r < 0 then puts 1 (ascii ''ARP for IP:'' @ ascii ''192.168.2.1'' @ ascii '' Failed.'' @ nl) Exit else Exit)"

section \<open>What cat and wc print\<close>

lemma cat_run:
  assumes "list_all (\<lambda>r. r \<noteq> []) rs" and "length rs < n"
  shows "run filter_kernel (cat n fd k) (rs, out) = run filter_kernel k ([], out @ map (Pair 1) (concat rs))"
  using assms
proof (induction rs arbitrary: n out)
  case Nil
  then show ?case by (cases n) auto
next
  case (Cons r rs)
  then obtain m where n: "n = Suc m" by (cases n) auto
  have "r \<noteq> []" using Cons.prems by simp
  then show ?case using Cons n by simp
qed

text \<open>Where a word begins: at a byte that separates nothing, first in the text or after one that does.\<close>

definition separates :: "u8 \<Rightarrow> bool" where
  "separates x \<longleftrightarrow> x \<in> {0x20, 0x0D, 0x09, 0x0A, 0x0B}"

definition word_starts :: "u8 list \<Rightarrow> nat set" where
  "word_starts s = {i. i < length s \<and> \<not> separates (s ! i) \<and> (i = 0 \<or> separates (s ! (i - 1)))}"

lemma strchr_separators: "strchr separators x \<noteq> None \<longleftrightarrow> separates x"
  by (auto simp: separators_def separates_def)

lemma count_byte_simps:
  "lines (count_byte x s) = lines s + (if x = 0x0A then 1 else 0)"
  "chars (count_byte x s) = chars s + 1"
  "words (count_byte x s) = words s + (if \<not> separates x \<and> \<not> inword s then 1 else 0)"
  "inword (count_byte x s) \<longleftrightarrow> \<not> separates x"
  using strchr_separators [of x] by (auto simp: count_byte_def Let_def)

lemma word_starts_snoc:
  "word_starts (s @ [x]) = (if \<not> separates x \<and> (s = [] \<or> separates (last s)) then insert (length s) (word_starts s) else word_starts s)"
  by (cases s rule: rev_cases) (auto simp: word_starts_def nth_append less_Suc_eq)

lemma finite_word_starts [simp]: "finite (word_starts s)" "length s \<notin> word_starts s"
  by (auto simp: word_starts_def)

definition counted :: "u8 list \<Rightarrow> counts" where
  "counted s = \<lparr>lines = of_nat (count_list s 0x0A), words = of_nat (card (word_starts s)), chars = of_nat (length s),
     inword = (s \<noteq> [] \<and> \<not> separates (last s))\<rparr>"

lemma counted_snoc: "count_byte x (counted s) = counted (s @ [x])"
  by (rule counts.equality) (auto simp: count_byte_simps counted_def word_starts_snoc)

lemma counted_append: "fold count_byte t (counted s) = counted (s @ t)"
  by (induction t arbitrary: s) (simp_all add: counted_snoc)

lemma wc_loop_run:
  assumes "list_all (\<lambda>r. r \<noteq> []) rs" and "length rs < n"
  shows "run filter_kernel (wc_loop n fd name (counted s) k) (rs, out) =
    run filter_kernel k ([], out @ map (Pair 1) (wc_line (counted (s @ concat rs)) name))"
  using assms
proof (induction rs arbitrary: n s)
  case Nil
  then show ?case by (cases n) auto
next
  case (Cons r rs)
  then obtain m where n: "n = Suc m" by (cases n) auto
  have "r \<noteq> []" using Cons.prems by simp
  then show ?case using Cons n by (simp add: counted_append)
qed

lemma word_starts_filter:
  "word_starts s = set (filter (\<lambda>i. \<not> separates (s ! i) \<and> (i = 0 \<or> separates (s ! (i - 1)))) [0..<length s])"
  by (auto simp: word_starts_def)

text \<open>C31. However the input is cut into pieces, \<open>wc\<close> ends and prints its number of newlines, its number of words, where a
  word is a longest run of bytes other than blank, tab, carriage return, newline and vertical tab, and its number of
  bytes; and \<open>cat\<close> ends and has written exactly its input.\<close>

theorem wc_counts:
  assumes "list_all (\<lambda>r. r \<noteq> []) rs" and "length rs < n"
  shows "run filter_kernel (wc_main n [argv0]) (rs, []) =
      (([], map (Pair 1) (decimal (of_nat (count_list (concat rs) 0x0A)) @ [0x20] @ decimal (of_nat (card (word_starts (concat rs)))) @ [0x20] @
         decimal (of_nat (length (concat rs))) @ [0x20] @ nl)), Exit) \<and>
    run filter_kernel (cat_main n [argv0]) (rs, []) = (([], map (Pair 1) (concat rs)), Exit)"
proof -
  have "\<lparr>lines = 0, words = 0, chars = 0, inword = False\<rparr> = counted []" by (simp add: counted_def word_starts_def)
  then show ?thesis
    using wc_loop_run [OF assms, of 0 "[]" "[]" Exit "[]"] cat_run [OF assms, of 0 Exit "[]"]
    by (simp add: wc_main_def wc_def wc_line_def counted_def cat_main_def)
qed

theorem wc_counts_witness:
  "run filter_kernel (wc_main 3 [ascii ''wc'']) ([ascii ''ab c'', ascii ''d e''], []) =
     (([], map (Pair 1) (ascii ''0 3 7 '' @ nl)), Exit)"
proof -
  let ?rs = "[ascii ''ab c'', ascii ''d e'']"
  have "word_starts (concat ?rs) = {0, 3, 6}"
    by (simp add: word_starts_filter separates_def ascii_def) (simp add: eval_nat_numeral)
  moreover have "decimal 0 = ascii ''0''" "decimal 3 = ascii ''3''" "decimal 7 = ascii ''7''"
    by (simp_all add: decimal_def printint_def signed_text_def digit_loop.simps upper_digits_def ascii_def sint_u32)
  moreover have "count_list (concat ?rs) 0x0A = 0" "length (concat ?rs) = 7" by (simp_all add: ascii_def)
  moreover have "list_all (\<lambda>r. r \<noteq> []) ?rs" "length ?rs < 3" by (simp_all add: ascii_def)
  ultimately show ?thesis using wc_counts [of ?rs 3 "ascii ''wc''"] by (simp add: ascii_def)
qed

end
