(* ===== verification/ShellParse.thy ===== *)
theory ShellParse
  imports Grep
begin

text \<open>
  The command parser of the shell (\<open>sh.c\<close>).  The input is the bytes of the line before its NUL, and a pointer into it
  is an offset, so that the token boundaries \<open>q\<close> and \<open>eq\<close> of the code are part of the parsed command and
  \<open>nulterminate\<close> can write the NULs in place.  A syntax error ends the process with a message, the result \<open>Panic\<close>.
  The four mutually recursive routines take fuel, and \<open>None\<close> is running out of it; the fuel \<open>parsecmd\<close> gives them is
  shown to be enough for every input.
\<close>

unbundle bit_operations_syntax

section \<open>Commands\<close>

text \<open>\<open>struct cmd\<close> with its five types.  An argument and a file name are a pair of offsets, start and end.\<close>

datatype cmd =
    EXEC "(nat \<times> nat) list"
  | REDIR cmd nat nat u32 nat
  | PIPE cmd cmd
  | LIST cmd cmd
  | BACK cmd

definition MAXARGS :: nat where "MAXARGS = 10"

definition execcmd :: cmd where "execcmd = EXEC []"
definition redircmd :: "cmd \<Rightarrow> nat \<Rightarrow> nat \<Rightarrow> u32 \<Rightarrow> nat \<Rightarrow> cmd" where "redircmd = REDIR"
definition pipecmd :: "cmd \<Rightarrow> cmd \<Rightarrow> cmd" where "pipecmd = PIPE"
definition listcmd :: "cmd \<Rightarrow> cmd \<Rightarrow> cmd" where "listcmd = LIST"
definition backcmd :: "cmd \<Rightarrow> cmd" where "backcmd = BACK"

lemmas constructors = execcmd_def redircmd_def pipecmd_def listcmd_def backcmd_def

section \<open>Tokens\<close>

abbreviation amp :: u8 where "amp \<equiv> 0x26"
abbreviation lpar :: u8 where "lpar \<equiv> 0x28"
abbreviation rpar :: u8 where "rpar \<equiv> 0x29"
abbreviation semi :: u8 where "semi \<equiv> 0x3B"
abbreviation lt :: u8 where "lt \<equiv> 0x3C"
abbreviation gt :: u8 where "gt \<equiv> 0x3E"
abbreviation bar :: u8 where "bar \<equiv> 0x7C"
abbreviation plus_tok :: u8 where "plus_tok \<equiv> 0x2B"
abbreviation word_tok :: u8 where "word_tok \<equiv> 0x61"

definition whitespace :: "u8 list" where "whitespace = [0x20, 0x09, 0x0D, 0x0A, 0x0B]"
definition sh_symbols :: "u8 list" where "sh_symbols = [lt, bar, gt, amp, semi, lpar, rpar]"

text \<open>\<open>*s\<close>, where the byte at the end of the line is its NUL.\<close>

definition char_at :: "u8 list \<Rightarrow> nat \<Rightarrow> u8" where
  "char_at buf s = (if s < length buf then buf ! s else 0)"

definition is_white :: "u8 \<Rightarrow> bool" where "is_white c \<longleftrightarrow> strchr whitespace c \<noteq> None"
definition is_symbol :: "u8 \<Rightarrow> bool" where "is_symbol c \<longleftrightarrow> strchr sh_symbols c \<noteq> None"
definition is_word :: "u8 \<Rightarrow> bool" where "is_word c \<longleftrightarrow> \<not> is_white c \<and> \<not> is_symbol c"

text \<open>\<open>while(s < es && ...) s++\<close>\<close>

function skip :: "(u8 \<Rightarrow> bool) \<Rightarrow> u8 list \<Rightarrow> nat \<Rightarrow> nat" where
  "skip p buf s = (if s < length buf \<and> p (char_at buf s) then skip p buf (s + 1) else s)"
  by pat_completeness auto
termination by (relation "measure (\<lambda>(_, buf, s). length buf - s)") auto

declare skip.simps [simp del]

text \<open>The switch: the token and where it ends.\<close>

definition token_end :: "u8 list \<Rightarrow> nat \<Rightarrow> u8 \<times> nat" where
  "token_end buf s =
     (let c = char_at buf s in
      if c = 0 then (0, s)
      else if c = bar \<or> c = lpar \<or> c = rpar \<or> c = semi \<or> c = amp \<or> c = lt then (c, s + 1)
      else if c = gt then (if char_at buf (s + 1) = gt then (plus_tok, s + 2) else (gt, s + 1))
      else (word_tok, skip is_word buf s))"

text \<open>The token, its two ends, and the new \<open>*ps\<close>.\<close>

definition gettoken :: "u8 list \<Rightarrow> nat \<Rightarrow> u8 \<times> nat \<times> nat \<times> nat" where
  "gettoken buf ps =
     (let q = skip is_white buf ps; (ret, eq) = token_end buf q in (ret, q, eq, skip is_white buf eq))"

definition peek :: "u8 list \<Rightarrow> nat \<Rightarrow> u8 list \<Rightarrow> nat \<times> bool" where
  "peek buf ps toks =
     (let s = skip is_white buf ps in (s, char_at buf s \<noteq> 0 \<and> strchr toks (char_at buf s) \<noteq> None))"

text \<open>The token alone, the start and the end of it, and the new pointer.\<close>

abbreviation "tok_of t \<equiv> fst t"
abbreviation "q_of t \<equiv> fst (snd t)"
abbreviation "eq_of t \<equiv> fst (snd (snd t))"
abbreviation "ps_of t \<equiv> snd (snd (snd t))"

lemma skip_step: "s < length buf \<Longrightarrow> p (char_at buf s) \<Longrightarrow> skip p buf s = skip p buf (Suc s)"
  and skip_none: "\<not> (s < length buf \<and> p (char_at buf s)) \<Longrightarrow> skip p buf s = s"
  by (subst skip.simps, simp)+

lemma skip_takeWhile: "skip p buf s = s + length (takeWhile p (drop s buf))"
proof (induction p buf s rule: skip.induct)
  case (1 p buf s)
  show ?case
  proof (cases "s < length buf")
    case True
    then have "drop s buf = char_at buf s # drop (Suc s) buf" by (simp add: Cons_nth_drop_Suc char_at_def)
    then show ?thesis using 1 True by (cases "p (char_at buf s)") (simp_all add: skip_step skip_none)
  qed (simp add: skip_none)
qed

lemma skip_ge: "s \<le> skip p buf s"
  by (simp add: skip_takeWhile)

lemma skip_le: "s \<le> length buf \<Longrightarrow> skip p buf s \<le> length buf"
  using length_takeWhile_le [of p "drop s buf"] by (simp add: skip_takeWhile)

lemma skip_stop: "skip p buf s < length buf \<Longrightarrow> \<not> p (char_at buf (skip p buf s))"
  using nth_length_takeWhile [of p "drop s buf"] by (auto simp: skip_takeWhile char_at_def)

lemma skip_idem [simp]: "skip p buf (skip p buf s) = skip p buf s"
  using skip_stop [of p buf s] by (intro skip_none) auto

lemma skip_all: "s \<le> i \<Longrightarrow> i < skip p buf s \<Longrightarrow> s \<le> length buf \<Longrightarrow> p (char_at buf i)"
proof -
  assume i: "s \<le> i" "i < skip p buf s" and s: "s \<le> length buf"
  then have l: "i - s < length (takeWhile p (drop s buf))" by (simp add: skip_takeWhile)
  then have "takeWhile p (drop s buf) ! (i - s) = buf ! i" using i length_takeWhile_le [of p "drop s buf"]
    by (simp add: takeWhile_nth)
  moreover have "i < length buf" using i skip_le [OF s, of p] by simp
  ultimately show ?thesis using nth_mem [OF l] by (auto simp: char_at_def dest: set_takeWhileD)
qed

lemma skip_progress: "s < length buf \<Longrightarrow> p (char_at buf s) \<Longrightarrow> s < skip p buf s"
  using skip_ge [of "Suc s" p buf] by (simp add: skip_step)

lemma in_symbols: "is_symbol c \<longleftrightarrow> c \<in> {lt, bar, gt, amp, semi, lpar, rpar}"
  by (auto simp: is_symbol_def sh_symbols_def)

lemma in_whitespace: "is_white c \<longleftrightarrow> c \<in> {0x20, 0x09, 0x0D, 0x0A, 0x0B}"
  by (auto simp: is_white_def whitespace_def)


lemma char_at_nonzero [simp]: "0 \<notin> set buf \<Longrightarrow> char_at buf s \<noteq> 0 \<longleftrightarrow> s < length buf"
  by (auto simp: char_at_def) (metis nth_mem)

lemma word_char: "\<not> is_white c \<Longrightarrow> c \<noteq> bar \<Longrightarrow> c \<noteq> lpar \<Longrightarrow> c \<noteq> rpar \<Longrightarrow> c \<noteq> semi \<Longrightarrow> c \<noteq> amp \<Longrightarrow> c \<noteq> lt \<Longrightarrow> c \<noteq> gt \<Longrightarrow> is_word c"
  by (auto simp: is_word_def in_symbols)

text \<open>A token lies inside the line, and anything but the end of the line moves the pointer.\<close>

lemma token_end_bounds:
  assumes "0 \<notin> set buf" and "s \<le> length buf" and "s < length buf \<longrightarrow> \<not> is_white (char_at buf s)"
  shows "s \<le> snd (token_end buf s)" "snd (token_end buf s) \<le> length buf"
    "fst (token_end buf s) = 0 \<longleftrightarrow> s = length buf"
    "fst (token_end buf s) \<noteq> 0 \<Longrightarrow> s < snd (token_end buf s)"
proof -
  let ?c = "char_at buf s"
  have gt: "char_at buf (s + 1) = gt \<Longrightarrow> s + 1 < length buf" by (auto simp: char_at_def split: if_splits)
  have w: "s < length buf \<Longrightarrow> ?c \<noteq> 0" using assms(1) by simp
  have e: "s < length buf \<Longrightarrow> is_word ?c \<Longrightarrow> s < skip is_word buf s" by (rule skip_progress)
  have z: "s = length buf \<Longrightarrow> ?c = 0" by (simp add: char_at_def)
  consider "s = length buf" | "s < length buf" using assms(2) by linarith
  then have "s \<le> snd (token_end buf s) \<and> snd (token_end buf s) \<le> length buf \<and>
    (fst (token_end buf s) = 0 \<longleftrightarrow> s = length buf) \<and> (fst (token_end buf s) \<noteq> 0 \<longrightarrow> s < snd (token_end buf s))"
  proof cases
    case 1
    then show ?thesis using z by (simp add: token_end_def)
  next
    case 2
    then show ?thesis using w gt e assms(3) word_char [of ?c] skip_le [of s buf is_word]
      by (auto simp: token_end_def Let_def)
  qed
  then show "s \<le> snd (token_end buf s)" "snd (token_end buf s) \<le> length buf"
    "fst (token_end buf s) = 0 \<longleftrightarrow> s = length buf"
    "fst (token_end buf s) \<noteq> 0 \<Longrightarrow> s < snd (token_end buf s)" by auto
qed

lemma gettoken_bounds:
  assumes "0 \<notin> set buf" and "ps \<le> length buf" and "gettoken buf ps = (tok, q, eq, ps')"
  shows "ps \<le> q" "q \<le> eq" "eq \<le> ps'" "ps' \<le> length buf" "tok \<noteq> 0 \<Longrightarrow> q < eq" "tok = 0 \<longleftrightarrow> q = length buf"
proof -
  define s where "s = skip is_white buf ps"
  have s: "ps \<le> s" "s \<le> length buf" "s < length buf \<longrightarrow> \<not> is_white (char_at buf s)"
    using skip_ge [of ps is_white buf] skip_le [OF assms(2), of is_white] skip_stop [of is_white buf ps] by (auto simp: s_def)
  have g: "q = s" "tok = fst (token_end buf s)" "eq = snd (token_end buf s)" "ps' = skip is_white buf eq"
    using assms(3) by (auto simp: gettoken_def s_def Let_def split: prod.splits)
  show "ps \<le> q" "q \<le> eq" "eq \<le> ps'" "ps' \<le> length buf" "tok \<noteq> 0 \<Longrightarrow> q < eq" "tok = 0 \<longleftrightarrow> q = length buf"
    using token_end_bounds [OF assms(1) s(2,3)] s g skip_ge [of eq is_white buf] skip_le [of eq buf is_white] by auto
qed

lemma peek_bounds:
  assumes "ps \<le> length buf" and "peek buf ps toks = (ps', b)"
  shows "ps \<le> ps'" "ps' \<le> length buf" "b \<Longrightarrow> ps' < length buf" "ps' < length buf \<Longrightarrow> \<not> is_white (char_at buf ps')"
  using assms skip_ge [of ps is_white buf] skip_le [OF assms(1), of is_white] skip_stop [of is_white buf ps]
  by (auto simp: peek_def Let_def char_at_def split: if_splits)


section \<open>The parser\<close>

definition SH_RDONLY :: u32 where "SH_RDONLY = 0x000"
definition SH_WRONLY :: u32 where "SH_WRONLY = 0x001"
definition SH_CREATE :: u32 where "SH_CREATE = 0x200"

text \<open>The switch of \<open>parseredirs\<close>.\<close>

definition add_redir :: "u8 \<Rightarrow> cmd \<Rightarrow> nat \<Rightarrow> nat \<Rightarrow> cmd" where
  "add_redir tok c q eq =
     (if tok = lt then redircmd c q eq SH_RDONLY 0
      else if tok = gt then redircmd c q eq (SH_WRONLY OR SH_CREATE) 1
      else if tok = plus_tok then redircmd c q eq (SH_WRONLY OR SH_CREATE) 1
      else c)"

text \<open>The loop is entered only at \<open><\<close> or \<open>>\<close>, which is why it ends.\<close>

lemma token_end_mono: "s \<le> snd (token_end buf s)"
  using skip_ge [of s is_word buf] by (simp add: token_end_def Let_def)

lemma gettoken_mono: "ps \<le> ps_of (gettoken buf ps)"
  using skip_ge [of ps is_white buf] token_end_mono [of "skip is_white buf ps" buf]
    skip_ge [of "snd (token_end buf (skip is_white buf ps))" is_white buf]
  by (auto simp: gettoken_def Let_def split: prod.split)

lemma peek_strict:
  assumes "peek buf ps toks = (ps1, True)" and "set toks \<subseteq> set sh_symbols"
  shows "ps \<le> ps1" "ps1 < length buf" "ps1 < ps_of (gettoken buf ps1)"
proof -
  have ps1: "ps1 = skip is_white buf ps" and s: "char_at buf ps1 \<noteq> 0"
    using assms(1) by (auto simp: peek_def Let_def)
  obtain k where "strchr toks (char_at buf ps1) = Some k" using assms(1) ps1 by (auto simp: peek_def Let_def)
  then have "char_at buf ps1 \<in> set sh_symbols" using strchr_SomeD [of toks "char_at buf ps1" k] assms(2) nth_mem by fastforce
  then have "ps1 < snd (token_end buf ps1)" by (auto simp: sh_symbols_def token_end_def Let_def)
  then show "ps \<le> ps1" "ps1 < length buf" "ps1 < ps_of (gettoken buf ps1)"
    using s skip_ge [of ps is_white buf] skip_ge [of "snd (token_end buf ps1)" is_white buf]
    by (auto simp: gettoken_def Let_def ps1 char_at_def split: prod.split if_splits)
qed

function parseredirs :: "u8 list \<Rightarrow> cmd \<Rightarrow> nat \<Rightarrow> (cmd \<times> nat) res" where
  "parseredirs buf c ps =
     (let (ps1, more) = peek buf ps [lt, gt] in
      if \<not> more then Ok (c, ps1)
      else let t1 = gettoken buf ps1; t2 = gettoken buf (ps_of t1) in
           if tok_of t2 \<noteq> word_tok then Panic ''missing file for redirection''
           else parseredirs buf (add_redir (tok_of t1) c (q_of t2) (eq_of t2)) (ps_of t2))"
  by pat_completeness auto
termination
proof (relation "measure (\<lambda>(buf, _, ps). length buf - ps)")
  fix buf :: "u8 list" and c :: cmd and ps x ps1 more t1 t2
  assume a: "x = peek buf ps [lt, gt]" "(ps1, more) = x" "\<not> \<not> more" "t1 = gettoken buf ps1" "t2 = gettoken buf (ps_of t1)"
  then have "ps \<le> ps1" "ps1 < length buf" "ps1 < ps_of t1"
    using peek_strict [of buf ps "[lt, gt]" ps1] a(1-3) by (simp_all add: sh_symbols_def)
  then show "((buf, add_redir (tok_of t1) c (q_of t2) (eq_of t2), ps_of t2), buf, c, ps) \<in> measure (\<lambda>(buf, _, ps). length buf - ps)"
    using gettoken_mono [of "ps_of t1" buf] a(5) by simp
qed simp

declare parseredirs.simps [simp del]

text \<open>\<open>cmd\<close> in \<open>parseexec\<close> still points at the innermost node while \<open>ret\<close> collects the redirections around it.\<close>

primrec store_args :: "(nat \<times> nat) list \<Rightarrow> cmd \<Rightarrow> cmd" where
  "store_args args (EXEC _) = EXEC args"
| "store_args args (REDIR c file efile mode fd) = REDIR (store_args args c) file efile mode fd"
| "store_args args (PIPE l r) = PIPE l r"
| "store_args args (LIST l r) = LIST l r"
| "store_args args (BACK c) = BACK c"

function parse_args :: "u8 list \<Rightarrow> cmd \<Rightarrow> (nat \<times> nat) list \<Rightarrow> nat \<Rightarrow> (cmd \<times> (nat \<times> nat) list \<times> nat) res" where
  "parse_args buf ret args ps =
     (let (ps1, stop) = peek buf ps [bar, rpar, amp, semi] in
      if stop then Ok (ret, args, ps1)
      else let t = gettoken buf ps1 in
           if tok_of t = 0 then Ok (ret, args, ps_of t)
           else if tok_of t \<noteq> word_tok then Panic ''syntax''
           else if length (args @ [(q_of t, eq_of t)]) \<ge> MAXARGS then Panic ''too many args''
           else bindr (parseredirs buf ret (ps_of t)) (\<lambda>(ret, ps2). parse_args buf ret (args @ [(q_of t, eq_of t)]) ps2))"
  by pat_completeness auto
termination by (relation "measure (\<lambda>(_, _, args, _). MAXARGS - length args)") auto

declare parse_args.simps [simp del]

function parse_back :: "u8 list \<Rightarrow> cmd \<Rightarrow> nat \<Rightarrow> cmd \<times> nat" where
  "parse_back buf c ps =
     (let (ps1, more) = peek buf ps [amp] in
      if more then parse_back buf (backcmd c) (ps_of (gettoken buf ps1)) else (c, ps1))"
  by pat_completeness auto
termination
proof (relation "measure (\<lambda>(buf, _, ps). length buf - ps)")
  fix buf :: "u8 list" and c :: cmd and ps x ps1 more
  assume a: "x = peek buf ps [amp]" "(ps1, more) = x" more
  then have "ps \<le> ps1" "ps1 < length buf" "ps1 < ps_of (gettoken buf ps1)"
    using peek_strict [of buf ps "[amp]" ps1] a by (simp_all add: sh_symbols_def)
  then show "((buf, backcmd c, ps_of (gettoken buf ps1)), buf, c, ps) \<in> measure (\<lambda>(buf, _, ps). length buf - ps)" by simp
qed simp

declare parse_back.simps [simp del]

text \<open>Results with fuel.\<close>

type_synonym parse = "(cmd \<times> nat) res option"

definition bindp :: "'a res option \<Rightarrow> ('a \<Rightarrow> 'b res option) \<Rightarrow> 'b res option" where
  "bindp m f = (case m of None \<Rightarrow> None | Some r \<Rightarrow> (case r of Ok x \<Rightarrow> f x | Panic e \<Rightarrow> Some (Panic e)
     | Blocks b \<Rightarrow> Some (Blocks b) | Undef u \<Rightarrow> Some (Undef u)))"

lemma bindp_simps [simp]:
  "bindp None f = None" "bindp (Some (Ok x)) f = f x" "bindp (Some (Panic e)) f = Some (Panic e)"
  "bindp (Some (Blocks b)) f = Some (Blocks b)" "bindp (Some (Undef u)) f = Some (Undef u)"
  by (simp_all add: bindp_def)

definition parse_simple :: "u8 list \<Rightarrow> nat \<Rightarrow> (cmd \<times> nat) res" where
  "parse_simple buf ps =
     bindr (parseredirs buf execcmd ps) (\<lambda>(ret, ps). bindr (parse_args buf ret [] ps)
       (\<lambda>(ret, args, ps). Ok (store_args args ret, ps)))"

fun parseline :: "nat \<Rightarrow> u8 list \<Rightarrow> nat \<Rightarrow> parse"
and parsepipe :: "nat \<Rightarrow> u8 list \<Rightarrow> nat \<Rightarrow> parse"
and parseexec :: "nat \<Rightarrow> u8 list \<Rightarrow> nat \<Rightarrow> parse"
and parseblock :: "nat \<Rightarrow> u8 list \<Rightarrow> nat \<Rightarrow> parse" where
  "parseline 0 buf ps = None"
| "parseline (Suc n) buf ps =
     bindp (parsepipe n buf ps) (\<lambda>(c, ps).
       let (c, ps) = parse_back buf c ps; (ps, more) = peek buf ps [semi] in
       if more then bindp (parseline n buf (ps_of (gettoken buf ps))) (\<lambda>(d, ps). Some (Ok (listcmd c d, ps)))
       else Some (Ok (c, ps)))"
| "parsepipe 0 buf ps = None"
| "parsepipe (Suc n) buf ps =
     bindp (parseexec n buf ps) (\<lambda>(c, ps).
       let (ps, more) = peek buf ps [bar] in
       if more then bindp (parsepipe n buf (ps_of (gettoken buf ps))) (\<lambda>(d, ps). Some (Ok (pipecmd c d, ps)))
       else Some (Ok (c, ps)))"
| "parseexec 0 buf ps = None"
| "parseexec (Suc n) buf ps =
     (let (ps, block) = peek buf ps [lpar] in
      if block then parseblock n buf ps else Some (parse_simple buf ps))"
| "parseblock 0 buf ps = None"
| "parseblock (Suc n) buf ps =
     (let (ps, open) = peek buf ps [lpar] in
      if \<not> open then Some (Panic ''parseblock'')
      else bindp (parseline n buf (ps_of (gettoken buf ps))) (\<lambda>(c, ps).
        let (ps, close) = peek buf ps [rpar] in
        if \<not> close then Some (Panic ''syntax - missing )'')
        else Some (parseredirs buf c (ps_of (gettoken buf ps)))))"

text \<open>The NULs \<open>nulterminate\<close> writes into the array.\<close>

primrec nulterminate :: "cmd \<Rightarrow> u8 list \<Rightarrow> u8 list" where
  "nulterminate (EXEC args) a = fold (\<lambda>(q, eq) a. a[eq := 0]) args a"
| "nulterminate (REDIR c file efile mode fd) a = (nulterminate c a)[efile := 0]"
| "nulterminate (PIPE l r) a = nulterminate r (nulterminate l a)"
| "nulterminate (LIST l r) a = nulterminate r (nulterminate l a)"
| "nulterminate (BACK c) a = nulterminate c a"

text \<open>The command and the array, with its NUL, after \<open>parsecmd\<close>.\<close>

definition parsecmd :: "u8 list \<Rightarrow> (cmd \<times> u8 list) res option" where
  "parsecmd buf =
     bindp (parseline (4 * length buf + 4) buf 0) (\<lambda>(c, s).
       let (s, _) = peek buf s [] in
       if s \<noteq> length buf then Some (Panic ''syntax'')
       else Some (Ok (c, nulterminate c (buf @ [0]))))"

text \<open>What \<open>parsecmd\<close> prints before it reports the error when something is left of the line.\<close>

definition leftovers :: "u8 list \<Rightarrow> u8 list" where
  "leftovers buf =
     (case parseline (4 * length buf + 4) buf 0 of
        Some (Ok (c, s)) \<Rightarrow> let (s, _) = peek buf s [] in
          if s \<noteq> length buf then ascii ''leftovers: '' @ drop s buf @ [0x0A] else []
      | _ \<Rightarrow> [])"

section \<open>What every parse gives\<close>

text \<open>A token: a longest run of word characters.\<close>

definition good_token :: "u8 list \<Rightarrow> nat \<times> nat \<Rightarrow> bool" where
  "good_token buf t \<longleftrightarrow> fst t < snd t \<and> snd t \<le> length buf \<and> (\<forall>i\<in>{fst t..<snd t}. is_word (char_at buf i)) \<and>
     (snd t < length buf \<longrightarrow> \<not> is_word (char_at buf (snd t)))"

primrec tokens :: "cmd \<Rightarrow> (nat \<times> nat) list" where
  "tokens (EXEC args) = args"
| "tokens (REDIR c file efile mode fd) = tokens c @ [(file, efile)]"
| "tokens (PIPE l r) = tokens l @ tokens r"
| "tokens (LIST l r) = tokens l @ tokens r"
| "tokens (BACK c) = tokens c"

primrec few_args :: "cmd \<Rightarrow> bool" where
  "few_args (EXEC args) \<longleftrightarrow> length args < MAXARGS"
| "few_args (REDIR c file efile mode fd) \<longleftrightarrow> few_args c"
| "few_args (PIPE l r) \<longleftrightarrow> few_args l \<and> few_args r"
| "few_args (LIST l r) \<longleftrightarrow> few_args l \<and> few_args r"
| "few_args (BACK c) \<longleftrightarrow> few_args c"

definition wf_cmd :: "u8 list \<Rightarrow> cmd \<Rightarrow> bool" where
  "wf_cmd buf c \<longleftrightarrow> list_all (good_token buf) (tokens c) \<and> few_args c"

lemma wf_cmd_simps [simp]:
  "wf_cmd buf (EXEC args) \<longleftrightarrow> list_all (good_token buf) args \<and> length args < MAXARGS"
  "wf_cmd buf (REDIR c file efile mode fd) \<longleftrightarrow> wf_cmd buf c \<and> good_token buf (file, efile)"
  "wf_cmd buf (PIPE l r) \<longleftrightarrow> wf_cmd buf l \<and> wf_cmd buf r"
  "wf_cmd buf (LIST l r) \<longleftrightarrow> wf_cmd buf l \<and> wf_cmd buf r"
  "wf_cmd buf (BACK c) \<longleftrightarrow> wf_cmd buf c"
  by (auto simp: wf_cmd_def)

lemma gettoken_word:
  assumes "0 \<notin> set buf" and "ps \<le> length buf" and "gettoken buf ps = (word_tok, q, eq, ps')"
  shows "good_token buf (q, eq)"
proof -
  have q: "q = skip is_white buf ps" and t: "token_end buf q = (word_tok, eq)"
    using assms(3) by (auto simp: gettoken_def Let_def split: prod.splits)
  have eq: "eq = skip is_word buf q" using t by (auto simp: token_end_def Let_def split: if_splits)
  have le: "q \<le> length buf" using skip_le [OF assms(2)] q by simp
  show ?thesis
    using gettoken_bounds [OF assms] skip_all [of q _ is_word buf] skip_stop [of is_word buf q] le
    by (auto simp: good_token_def eq)
qed

text \<open>What holds of the result of each routine started at \<open>ps\<close>.\<close>

definition sound :: "u8 list \<Rightarrow> nat \<Rightarrow> (cmd \<times> nat) res \<Rightarrow> bool" where
  "sound buf ps r = (case r of Ok x \<Rightarrow> ps \<le> snd x \<and> snd x \<le> length buf \<and> wf_cmd buf (fst x)
     | Panic e \<Rightarrow> True | Blocks b \<Rightarrow> False | Undef u \<Rightarrow> False)"

lemma sound_simps [simp]:
  "sound buf ps (Ok (c, ps')) \<longleftrightarrow> ps \<le> ps' \<and> ps' \<le> length buf \<and> wf_cmd buf c"
  "sound buf ps (Panic e)" "\<not> sound buf ps (Blocks b)" "\<not> sound buf ps (Undef u)"
  by (auto simp: sound_def)

lemma sound_cases:
  assumes "sound buf ps r"
  obtains e where "r = Panic e"
  | c ps' where "r = Ok (c, ps')" "ps \<le> ps'" "ps' \<le> length buf" "wf_cmd buf c"
  using assms by (cases r) auto

lemma sound_mono: "sound buf ps r \<Longrightarrow> ps0 \<le> ps \<Longrightarrow> sound buf ps0 r"
  by (erule sound_cases) auto

lemma parseredirs_sound:
  "0 \<notin> set buf \<Longrightarrow> ps \<le> length buf \<Longrightarrow> wf_cmd buf c \<Longrightarrow> sound buf ps (parseredirs buf c ps)"
proof (induction buf c ps rule: parseredirs.induct)
  case (1 buf c ps)
  obtain ps1 more where p: "peek buf ps [lt, gt] = (ps1, more)" by fastforce
  note pb = peek_bounds [OF 1(3) p]
  obtain tok1 q1 e1 ps2 where g1: "gettoken buf ps1 = (tok1, q1, e1, ps2)" by (metis prod_cases4)
  note b1 = gettoken_bounds [OF 1(2) pb(2) g1]
  obtain tok2 q2 e2 ps3 where g2: "gettoken buf ps2 = (tok2, q2, e2, ps3)" by (metis prod_cases4)
  note b2 = gettoken_bounds [OF 1(2) b1(4) g2]
  show ?case
  proof (cases "more \<and> tok2 = word_tok")
    case True
    then have w: "good_token buf (q2, e2)" using gettoken_word [OF 1(2) b1(4)] g2 by simp
    have "wf_cmd buf (add_redir tok1 c q2 e2)"
      using w 1(4) by (auto simp: add_redir_def redircmd_def)
    then have "sound buf ps3 (parseredirs buf (add_redir tok1 c q2 e2) ps3)"
      using 1(1) [OF refl p [symmetric]] True g1 g2 1(2) b2(4) by simp
    then have "sound buf ps (parseredirs buf (add_redir tok1 c q2 e2) ps3)"
      by (rule sound_mono) (use pb(1) b1(1-3) b2(1-3) in simp)
    then show ?thesis using p g1 g2 True by (subst parseredirs.simps) simp
  next
    case False
    then show ?thesis using p g1 g2 pb 1(4) by (subst parseredirs.simps) (auto simp: Let_def)
  qed
qed

lemma parse_args_sound:
  "0 \<notin> set buf \<Longrightarrow> ps \<le> length buf \<Longrightarrow> wf_cmd buf c \<Longrightarrow> list_all (good_token buf) args \<Longrightarrow>
   (\<exists>e. parse_args buf c args ps = Panic e) \<or>
   (\<exists>c' args' ps'. parse_args buf c args ps = Ok (c', args', ps') \<and> ps \<le> ps' \<and> ps' \<le> length buf \<and>
      wf_cmd buf c' \<and> list_all (good_token buf) args' \<and> (length args < MAXARGS \<longrightarrow> length args' < MAXARGS))"
proof (induction buf c args ps rule: parse_args.induct)
  case (1 buf c args ps)
  obtain ps1 stop where p: "peek buf ps [bar, rpar, amp, semi] = (ps1, stop)" by fastforce
  note pb = peek_bounds [OF 1(3) p]
  obtain tok q e ps2 where g: "gettoken buf ps1 = (tok, q, e, ps2)" by (metis prod_cases4)
  note b = gettoken_bounds [OF 1(2) pb(2) g]
  show ?case
  proof (cases "\<not> stop \<and> tok = word_tok \<and> Suc (length args) < MAXARGS")
    case True
    then have w: "good_token buf (q, e)" using gettoken_word [OF 1(2) pb(2)] g by simp
    have u: "parse_args buf c args ps = bindr (parseredirs buf c ps2) (\<lambda>(ret, ps2). parse_args buf ret (args @ [(q, e)]) ps2)"
      using p g True by (subst parse_args.simps) simp
    from parseredirs_sound [OF 1(2) b(4) 1(4)] show ?thesis
    proof (cases rule: sound_cases)
      case (2 c' ps')
      have "(\<exists>e'. parse_args buf c' (args @ [(q, e)]) ps' = Panic e') \<or>
        (\<exists>c'' args' ps''. parse_args buf c' (args @ [(q, e)]) ps' = Ok (c'', args', ps'') \<and> ps' \<le> ps'' \<and> ps'' \<le> length buf \<and>
          wf_cmd buf c'' \<and> list_all (good_token buf) args' \<and> (length (args @ [(q, e)]) < MAXARGS \<longrightarrow> length args' < MAXARGS))"
        using 1(1) [OF refl p [symmetric], of "gettoken buf ps1" "(c', ps')"] True g 2 w 1 by simp
      then show ?thesis using u 2 pb b True by fastforce
    qed (simp add: u)
  next
    case False
    then show ?thesis using p g pb b 1 by (subst (1 2) parse_args.simps) (auto simp: Let_def)
  qed
qed

lemma wf_store_args: "wf_cmd buf c \<Longrightarrow> list_all (good_token buf) args \<Longrightarrow> length args < MAXARGS \<Longrightarrow> wf_cmd buf (store_args args c)"
  by (induction c) auto

lemma parse_simple_sound:
  assumes "0 \<notin> set buf" and "ps \<le> length buf"
  shows "sound buf ps (parse_simple buf ps)"
proof -
  have "sound buf ps (parseredirs buf execcmd ps)" by (rule parseredirs_sound [OF assms]) (simp add: execcmd_def MAXARGS_def)
  then show ?thesis
  proof (cases rule: sound_cases)
    case (2 c ps')
    then show ?thesis using parse_args_sound [OF assms(1) 2(3,4), of "[]"]
      by (fastforce simp: parse_simple_def MAXARGS_def intro: wf_store_args)
  qed (simp add: parse_simple_def)
qed

lemma parse_back_sound:
  "0 \<notin> set buf \<Longrightarrow> ps \<le> length buf \<Longrightarrow> wf_cmd buf c \<Longrightarrow> sound buf ps (Ok (parse_back buf c ps))"
proof (induction buf c ps rule: parse_back.induct)
  case (1 buf c ps)
  obtain ps1 more where p: "peek buf ps [amp] = (ps1, more)" by fastforce
  note pb = peek_bounds [OF 1(3) p]
  obtain tok q e ps2 where g: "gettoken buf ps1 = (tok, q, e, ps2)" by (metis prod_cases4)
  note b = gettoken_bounds [OF 1(2) pb(2) g]
  show ?case
  proof (cases more)
    case True
    have "sound buf ps2 (Ok (parse_back buf (backcmd c) ps2))"
      using 1(1) [OF refl p [symmetric] True] 1(2,4) g b(4) by (simp add: backcmd_def)
    then have "sound buf ps (Ok (parse_back buf (backcmd c) ps2))" by (rule sound_mono) (use pb(1) b(1-3) in simp)
    then show ?thesis using True p g by (subst parse_back.simps) simp
  next
    case False
    then show ?thesis using p pb 1(4) by (subst parse_back.simps) simp
  qed
qed

definition sound_parse :: "u8 list \<Rightarrow> nat \<Rightarrow> parse \<Rightarrow> bool" where
  "sound_parse buf ps r \<longleftrightarrow> (\<exists>x. r = Some x \<and> sound buf ps x)"

lemma sound_parse_simps [simp]: "sound_parse buf ps (Some x) = sound buf ps x" "\<not> sound_parse buf ps None"
  by (auto simp: sound_parse_def)

lemma sound_parse_bind:
  assumes "sound_parse buf ps m"
    and "\<And>c ps'. ps \<le> ps' \<Longrightarrow> ps' \<le> length buf \<Longrightarrow> wf_cmd buf c \<Longrightarrow> sound_parse buf ps (f (c, ps'))"
  shows "sound_parse buf ps (bindp m f)"
proof -
  obtain x where x: "m = Some x" "sound buf ps x" using assms(1) by (auto simp: sound_parse_def)
  from x(2) show ?thesis by (cases rule: sound_cases) (auto simp: x(1) assms(2))
qed

lemma sound_parse_mono: "sound_parse buf ps r \<Longrightarrow> ps0 \<le> ps \<Longrightarrow> sound_parse buf ps0 r"
  by (auto simp: sound_parse_def intro: sound_mono)

text \<open>A symbol that \<open>peek\<close> has seen and \<open>gettoken\<close> then takes.\<close>

lemma take_symbol:
  assumes "0 \<notin> set buf" and "ps \<le> length buf" and "peek buf ps toks = (ps1, True)" and "set toks \<subseteq> set sh_symbols"
  shows "ps < ps_of (gettoken buf ps1)" "ps_of (gettoken buf ps1) \<le> length buf"
proof -
  obtain tok q e ps2 where g: "gettoken buf ps1 = (tok, q, e, ps2)" by (metis prod_cases4)
  show "ps < ps_of (gettoken buf ps1)" "ps_of (gettoken buf ps1) \<le> length buf"
    using peek_strict [OF assms(3,4)] gettoken_bounds(4) [OF assms(1) peek_bounds(2) [OF assms(2,3)] g] g by auto
qed

lemma symbol_sets: "set [semi] \<subseteq> set sh_symbols" "set [bar] \<subseteq> set sh_symbols" "set [lpar] \<subseteq> set sh_symbols" "set [rpar] \<subseteq> set sh_symbols"
  by (auto simp: sh_symbols_def)

text \<open>Enough fuel: four calls for every byte that is left.\<close>

lemma parse_sound:
  assumes "0 \<notin> set buf"
  shows "ps \<le> length buf \<Longrightarrow> 4 * (length buf - ps) + 4 \<le> n \<Longrightarrow> sound_parse buf ps (parseline n buf ps)"
    and "ps \<le> length buf \<Longrightarrow> 4 * (length buf - ps) + 3 \<le> n \<Longrightarrow> sound_parse buf ps (parsepipe n buf ps)"
    and "ps \<le> length buf \<Longrightarrow> 4 * (length buf - ps) + 2 \<le> n \<Longrightarrow> sound_parse buf ps (parseexec n buf ps)"
    and "ps < length buf \<Longrightarrow> 4 * (length buf - ps) + 1 \<le> n \<Longrightarrow> sound_parse buf ps (parseblock n buf ps)"
  using assms
proof (induction n buf ps and n buf ps and n buf ps and n buf ps rule: parseline_parsepipe_parseexec_parseblock.induct)
  case (2 n buf ps)
  have step: "sound_parse buf ps (let (c, ps) = parse_back buf c ps'; (ps, more) = peek buf ps [semi] in
       if more then bindp (parseline n buf (ps_of (gettoken buf ps))) (\<lambda>(d, ps). Some (Ok (listcmd c d, ps)))
       else Some (Ok (c, ps)))" if a: "ps \<le> ps'" "ps' \<le> length buf" "wf_cmd buf c" for c ps'
  proof -
    obtain c1 ps1 where pb: "parse_back buf c ps' = (c1, ps1)" by fastforce
    have s1: "ps' \<le> ps1" "ps1 \<le> length buf" "wf_cmd buf c1"
      using parse_back_sound [OF 2(5) a(2,3)] pb by auto
    obtain ps2 more where pk: "peek buf ps1 [semi] = (ps2, more)" by fastforce
    show ?thesis
    proof (cases more)
      case True
      then have t: "ps1 < ps_of (gettoken buf ps2)" "ps_of (gettoken buf ps2) \<le> length buf"
        using take_symbol [OF 2(5) s1(2) _ symbol_sets(1)] pk by auto
      have "sound_parse buf (ps_of (gettoken buf ps2)) (parseline n buf (ps_of (gettoken buf ps2)))"
        using 2(2) [OF refl pb [symmetric] refl pk [symmetric] True] t s1 a 2(4,5) by simp
      then have "sound_parse buf ps (parseline n buf (ps_of (gettoken buf ps2)))"
        by (rule sound_parse_mono) (use t s1 a in simp)
      then have "sound_parse buf ps (bindp (parseline n buf (ps_of (gettoken buf ps2))) (\<lambda>(d, ps). Some (Ok (listcmd c1 d, ps))))"
        by (rule sound_parse_bind) (use s1 in \<open>simp add: listcmd_def\<close>)
      then show ?thesis using pb pk True by simp
    qed (use pb pk s1 a peek_bounds [OF s1(2) pk] in simp)
  qed
  have "sound_parse buf ps (parsepipe n buf ps)" using 2 by simp
  then show ?case unfolding parseline.simps by (rule sound_parse_bind) (use step in simp)
next
  case (4 n buf ps)
  have step: "sound_parse buf ps (let (ps, more) = peek buf ps' [bar] in
       if more then bindp (parsepipe n buf (ps_of (gettoken buf ps))) (\<lambda>(d, ps). Some (Ok (pipecmd c d, ps)))
       else Some (Ok (c, ps)))" if a: "ps \<le> ps'" "ps' \<le> length buf" "wf_cmd buf c" for c ps'
  proof -
    obtain ps2 more where pk: "peek buf ps' [bar] = (ps2, more)" by fastforce
    show ?thesis
    proof (cases more)
      case True
      then have t: "ps' < ps_of (gettoken buf ps2)" "ps_of (gettoken buf ps2) \<le> length buf"
        using take_symbol [OF 4(5) a(2) _ symbol_sets(2)] pk by auto
      have "sound_parse buf (ps_of (gettoken buf ps2)) (parsepipe n buf (ps_of (gettoken buf ps2)))"
        using 4(2) [OF refl pk [symmetric] True] t a 4(4,5) by simp
      then have "sound_parse buf ps (parsepipe n buf (ps_of (gettoken buf ps2)))"
        by (rule sound_parse_mono) (use t a in simp)
      then have "sound_parse buf ps (bindp (parsepipe n buf (ps_of (gettoken buf ps2))) (\<lambda>(d, ps). Some (Ok (pipecmd c d, ps))))"
        by (rule sound_parse_bind) (use a in \<open>simp add: pipecmd_def\<close>)
      then show ?thesis using pk True by simp
    qed (use pk a peek_bounds [OF a(2) pk] in simp)
  qed
  have "sound_parse buf ps (parseexec n buf ps)" using 4 by simp
  then show ?case unfolding parsepipe.simps by (rule sound_parse_bind) (use step in simp)
next
  case (6 n buf ps)
  obtain ps1 block where pk: "peek buf ps [lpar] = (ps1, block)" by fastforce
  note pb = peek_bounds [OF 6(2) pk]
  show ?case
  proof (cases block)
    case True
    then have "sound_parse buf ps1 (parseblock n buf ps1)"
      using 6(1) [OF refl pk [symmetric] True] pb 6(3,4) by simp
    then have "sound_parse buf ps (parseblock n buf ps1)" by (rule sound_parse_mono) (rule pb(1))
    then show ?thesis using pk True by simp
  qed (use pk parse_simple_sound [OF 6(4) pb(2)] sound_mono [OF _ pb(1)] in simp)
next
  case (8 n buf ps)
  obtain ps1 op where pk: "peek buf ps [lpar] = (ps1, op)" by fastforce
  have le: "ps \<le> length buf" using 8(2) by simp
  have step: "sound_parse buf ps (let (ps, close) = peek buf ps' [rpar] in
        if \<not> close then Some (Panic ''syntax - missing )'')
        else Some (parseredirs buf c (ps_of (gettoken buf ps))))"
    if a: "ps \<le> ps'" "ps' \<le> length buf" "wf_cmd buf c" for c ps'
  proof -
    obtain ps2 close where pk: "peek buf ps' [rpar] = (ps2, close)" by fastforce
    show ?thesis
    proof (cases close)
      case True
      then have t: "ps' < ps_of (gettoken buf ps2)" "ps_of (gettoken buf ps2) \<le> length buf"
        using take_symbol [OF 8(4) a(2) _ symbol_sets(4)] pk by auto
      then show ?thesis using pk True a sound_mono [OF parseredirs_sound [OF 8(4) t(2) a(3)], of ps] by simp
    qed (use pk in simp)
  qed
  show ?case
  proof (cases op)
    case True
    then have t: "ps < ps_of (gettoken buf ps1)" "ps_of (gettoken buf ps1) \<le> length buf"
      using take_symbol [OF 8(4) le _ symbol_sets(3)] pk by auto
    have "sound_parse buf (ps_of (gettoken buf ps1)) (parseline n buf (ps_of (gettoken buf ps1)))"
      using 8(1) [OF refl pk [symmetric]] True t 8(3,4) by simp
    then have "sound_parse buf ps (parseline n buf (ps_of (gettoken buf ps1)))" by (rule sound_parse_mono) (use t in simp)
    then have "sound_parse buf ps (bindp (parseline n buf (ps_of (gettoken buf ps1))) (\<lambda>(c, ps).
        let (ps, close) = peek buf ps [rpar] in
        if \<not> close then Some (Panic ''syntax - missing )'')
        else Some (parseredirs buf c (ps_of (gettoken buf ps)))))"
      by (rule sound_parse_bind) (use step in simp)
    then show ?thesis using pk True by simp
  qed (use pk in simp)
qed simp_all

section \<open>The strings of a parsed command\<close>

definition string_at :: "u8 list \<Rightarrow> nat \<Rightarrow> u8 list" where
  "string_at a q = takeWhile (\<lambda>x. x \<noteq> 0) (drop q a)"

definition substring :: "u8 list \<Rightarrow> nat \<times> nat \<Rightarrow> u8 list" where
  "substring buf t = take (snd t - fst t) (drop (fst t) buf)"

lemma nulterminate_tokens: "nulterminate c a = fold (\<lambda>t a. a[snd t := 0]) (tokens c) a"
  by (induction c arbitrary: a) (simp_all add: case_prod_beta')

lemma fold_nul: "length (fold (\<lambda>t a. a[snd t := 0]) ts a) = length a"
  "i < length a \<Longrightarrow> fold (\<lambda>t a. a[snd t := 0]) ts a ! i = (if i \<in> snd ` set ts then 0 else a ! i)"
  by (induction ts arbitrary: a) (auto simp: nth_list_update)

lemma string_at_eq:
  assumes "k \<le> length a" "q \<le> k" "k < length a" "a ! k = 0" "\<And>i. q \<le> i \<Longrightarrow> i < k \<Longrightarrow> a ! i = b ! i \<and> b ! i \<noteq> 0" "k \<le> length b"
  shows "string_at a q = take (k - q) (drop q b)"
proof -
  have e: "take (k - q) (drop q a) = take (k - q) (drop q b)"
    using assms by (intro nth_equalityI) auto
  have "drop (k - q) (drop q a) = a ! k # drop (Suc k) a" using assms(2,3) by (simp add: Cons_nth_drop_Suc)
  then have d: "drop q a = take (k - q) (drop q a) @ a ! k # drop (Suc k) a" by (metis append_take_drop_id)
  have "\<forall>x\<in>set (take (k - q) (drop q a)). x \<noteq> 0"
    unfolding e using assms by (auto simp: in_set_conv_nth)
  then have "takeWhile (\<lambda>x. x \<noteq> 0) (take (k - q) (drop q a) @ a ! k # drop (Suc k) a) = take (k - q) (drop q a)"
    using assms(4) by (subst takeWhile_append2) auto
  then have "string_at a q = take (k - q) (drop q a)" unfolding string_at_def using d by simp
  then show ?thesis using e by simp
qed

lemma nulterminate_string:
  assumes "0 \<notin> set buf" and "list_all (good_token buf) ts" and "t \<in> set ts"
  shows "string_at (fold (\<lambda>t a. a[snd t := 0]) ts (buf @ [0])) (fst t) = substring buf t"
proof -
  have t: "fst t < snd t" "snd t \<le> length buf" "\<forall>i\<in>{fst t..<snd t}. is_word (char_at buf i)"
    using assms(2,3) by (auto simp: good_token_def list_all_iff)
  have out: "i \<notin> snd ` set ts" if "fst t \<le> i" "i < snd t" for i
  proof
    assume "i \<in> snd ` set ts"
    then obtain u where "u \<in> set ts" "snd u = i" by auto
    then have "i < length buf \<longrightarrow> \<not> is_word (char_at buf i)" using assms(2) by (auto simp: good_token_def list_all_iff)
    then show False using t that by auto
  qed
  have nz: "buf ! i \<noteq> 0" if "i < length buf" for i using assms(1) that by (metis nth_mem)
  show ?thesis unfolding substring_def
    by (rule string_at_eq) (use t out nz assms(3) in \<open>auto simp: fold_nul nth_append\<close>)
qed

text \<open>C15. The parser ends on every line: it either ends the process with a message, or gives a command whose arguments and
  file names are longest runs of word characters inside the line, each command with fewer than MAXARGS of them, and after
  \<open>nulterminate\<close> the pointer to each is a NUL-terminated string of exactly those characters.\<close>

theorem parsecmd_strings:
  assumes "0 \<notin> set buf"
  shows "(\<exists>e. parsecmd buf = Some (Panic e)) \<or>
    (\<exists>c a. parsecmd buf = Some (Ok (c, a)) \<and> length a = length buf + 1 \<and> few_args c \<and>
       (\<forall>t\<in>set (tokens c). good_token buf t \<and> string_at a (fst t) = substring buf t))"
proof -
  have "sound_parse buf 0 (parseline (4 * length buf + 4) buf 0)" using parse_sound(1) [OF assms, of 0] by simp
  then obtain r where r: "parseline (4 * length buf + 4) buf 0 = Some r" "sound buf 0 r" by (auto simp: sound_parse_def)
  from r(2) show ?thesis
  proof (cases rule: sound_cases)
    case (2 c ps)
    obtain s b where p: "peek buf ps [] = (s, b)" by fastforce
    have "string_at (nulterminate c (buf @ [0])) (fst t) = substring buf t" if "t \<in> set (tokens c)" for t
      using nulterminate_string [OF assms _ that] 2(4) by (simp add: nulterminate_tokens wf_cmd_def)
    then show ?thesis using r(1) 2 p by (auto simp: parsecmd_def nulterminate_tokens fold_nul list_all_iff wf_cmd_def)
  qed (simp add: parsecmd_def r(1))
qed

theorem parsecmd_strings_witness:
  "\<exists>c a. parsecmd (ascii ''ls<f'') = Some (Ok (c, a)) \<and> c = REDIR (EXEC [(0, 2)]) 3 4 SH_RDONLY 0 \<and>
     (\<forall>t\<in>set (tokens c). string_at a (fst t) = substring (ascii ''ls<f'') t)"
proof -
  have "0 \<notin> set (ascii ''ls<f'')" by (simp add: ascii_def)
  note claim = parsecmd_strings [OF this]
  have "parsecmd (ascii ''ls<f'') = Some (Ok (REDIR (EXEC [(0, 2)]) 3 4 SH_RDONLY 0, [0x6C, 0x73, 0, 0x66, 0]))"
    by code_simp
  then show ?thesis using claim by auto
qed
end
