(* ===== verification/ShellPrint.thy ===== *)
theory ShellPrint
  imports ShellParse
begin

text \<open>
  What the shell parser means: commands with their words as strings, a printer that writes such a command with no more
  parentheses than the precedence of \<open>;\<close>, \<open>&\<close> and \<open>|\<close> asks for, and that the parser reads every printed command back.
\<close>

section \<open>Commands with strings\<close>

datatype acmd =
    AExec "u8 list list"
  | ARedir acmd "u8 list" u32 nat
  | APipe acmd acmd
  | AList acmd acmd
  | ABack acmd

primrec view :: "(nat \<times> nat \<Rightarrow> u8 list) \<Rightarrow> cmd \<Rightarrow> acmd" where
  "view str (EXEC args) = AExec (map str args)"
| "view str (REDIR c q eq mode fd) = ARedir (view str c) (str (q, eq)) mode fd"
| "view str (PIPE l r) = APipe (view str l) (view str r)"
| "view str (LIST l r) = AList (view str l) (view str r)"
| "view str (BACK c) = ABack (view str c)"

definition wf_word :: "u8 list \<Rightarrow> bool" where
  "wf_word w \<longleftrightarrow> w \<noteq> [] \<and> list_all (\<lambda>x. is_word x \<and> x \<noteq> 0) w"

definition wf_redir :: "u8 list \<times> u32 \<times> nat \<Rightarrow> bool" where
  "wf_redir x \<longleftrightarrow> wf_word (fst x) \<and> (snd x = (SH_RDONLY, 0) \<or> snd x = (SH_WRONLY OR SH_CREATE, 1))"

primrec wf_acmd :: "acmd \<Rightarrow> bool" where
  "wf_acmd (AExec ws) \<longleftrightarrow> list_all wf_word ws \<and> length ws < MAXARGS"
| "wf_acmd (ARedir c f mode fd) \<longleftrightarrow> wf_acmd c \<and> wf_redir (f, mode, fd)"
| "wf_acmd (APipe l r) \<longleftrightarrow> wf_acmd l \<and> wf_acmd r"
| "wf_acmd (AList l r) \<longleftrightarrow> wf_acmd l \<and> wf_acmd r"
| "wf_acmd (ABack c) \<longleftrightarrow> wf_acmd c"

section \<open>The printer\<close>

text \<open>How tightly a command binds: a list not at all, then \<open>&\<close>, then a pipe, then a simple command.\<close>

primrec prec :: "acmd \<Rightarrow> nat" where
  "prec (AExec ws) = 3"
| "prec (ARedir c f mode fd) = 3"
| "prec (APipe l r) = 2"
| "prec (AList l r) = 0"
| "prec (ABack c) = 1"

definition guard :: "nat \<Rightarrow> acmd \<Rightarrow> u8 list \<Rightarrow> u8 list" where
  "guard k c t = (if k \<le> prec c then t else lpar # t @ [rpar])"

definition words_text :: "u8 list list \<Rightarrow> u8 list" where
  "words_text ws = concat (map ((#) 0x20) ws)"

definition redir_text :: "u8 list \<times> u32 \<times> nat \<Rightarrow> u8 list" where
  "redir_text x = (if snd (snd x) = 0 then lt else gt) # fst x"

primrec print :: "acmd \<Rightarrow> u8 list" where
  "print (AExec ws) = words_text ws"
| "print (ARedir c f mode fd) = guard 3 c (print c) @ redir_text (f, mode, fd)"
| "print (APipe l r) = guard 3 l (print l) @ bar # guard 2 r (print r)"
| "print (AList l r) = guard 1 l (print l) @ semi # print r"
| "print (ABack c) = guard 1 c (print c) @ [amp]"

abbreviation "print_at k c \<equiv> guard k c (print c)"

section \<open>Tokens at a place in the text\<close>

abbreviation trim :: "u8 list \<Rightarrow> u8 list" where "trim \<equiv> dropWhile is_white"

definition at :: "u8 list \<Rightarrow> nat \<Rightarrow> u8 list \<Rightarrow> bool" where
  "at buf p r \<longleftrightarrow> p \<le> length buf \<and> trim (drop p buf) = trim r"

lemma drop_skip: "drop (skip is_white buf p) buf = trim (drop p buf)"
  by (simp add: skip_takeWhile dropWhile_eq_drop add.commute)

lemma at_skip: "at buf p r \<Longrightarrow> at buf (skip is_white buf p) r"
  using skip_le [of p buf is_white] by (simp add: at_def drop_skip)

lemma strchr_iff: "0 \<notin> set toks \<Longrightarrow> strchr toks c \<noteq> None \<longleftrightarrow> c \<in> set toks"
  by (induction toks) auto

lemma char_at_drop: "char_at buf s = (case drop s buf of [] \<Rightarrow> 0 | c # _ \<Rightarrow> c)"
  by (cases "s < length buf") (auto simp: char_at_def simp flip: Cons_nth_drop_Suc)

lemma drop_Suc_eq: "drop s buf = c # r \<Longrightarrow> drop (Suc s) buf = r"
  by (metis drop_Suc list.sel(3) tl_drop)

lemma drop_Cons_less: "drop s buf = c # r \<Longrightarrow> s < length buf"
  by (metis drop_all linorder_not_less list.distinct(1))

definition starts :: "u8 list \<Rightarrow> u8 list \<Rightarrow> bool" where
  "starts r toks \<longleftrightarrow> (case trim r of [] \<Rightarrow> False | c # _ \<Rightarrow> c \<in> set toks)"

lemma peek_at:
  assumes "0 \<notin> set buf" and "at buf p r" and "0 \<notin> set toks"
  shows "\<exists>p'. peek buf p toks = (p', starts r toks) \<and> at buf p' r"
proof -
  let ?s = "skip is_white buf p"
  have d: "drop ?s buf = trim r" using assms(2) by (simp add: drop_skip at_def)
  have "char_at buf ?s \<noteq> 0 \<and> strchr toks (char_at buf ?s) \<noteq> None \<longleftrightarrow> starts r toks"
  proof (cases "trim r")
    case Nil
    then show ?thesis using d by (simp only: char_at_drop starts_def list.case) simp
  next
    case (Cons c t)
    then have "c = char_at buf ?s" "?s < length buf" using d drop_Cons_less by (auto simp: char_at_drop)
    then show ?thesis using Cons assms(1) strchr_iff [OF assms(3), of c] by (simp add: starts_def)
  qed
  then show ?thesis using at_skip [OF assms(2)] by (auto simp: peek_def Let_def)
qed

lemma trim_nonwhite: "\<not> is_white c \<Longrightarrow> trim (c # r) = c # r"
  by simp

lemma gettoken_at:
  assumes "at buf p t" and "trim t = w @ r" and "token_end buf (skip is_white buf p) = (tok, skip is_white buf p + length w)"
  shows "\<exists>q eq p'. gettoken buf p = (tok, q, eq, p') \<and> at buf p' r \<and> substring buf (q, eq) = w"
proof -
  let ?s = "skip is_white buf p"
  have d: "drop ?s buf = w @ r" using assms(1,2) by (simp add: drop_skip at_def)
  then have "drop (?s + length w) buf = r" by (metis add.commute append_eq_conv_conj drop_drop)
  moreover have "?s + length w \<le> length buf"
  proof -
    have "length buf - ?s = length (w @ r)" using arg_cong [OF d, of length] by simp
    then show ?thesis using skip_le [of p buf is_white] assms(1) by (simp add: at_def)
  qed
  ultimately have "at buf (skip is_white buf (?s + length w)) r" by (intro at_skip) (simp add: at_def)
  moreover have "substring buf (?s, ?s + length w) = w" by (simp add: substring_def d)
  ultimately show ?thesis using assms(3) by (auto simp: gettoken_def Let_def)
qed

lemma gettoken_symbol:
  assumes "at buf p (c # r)" and "c \<in> {bar, lpar, rpar, semi, amp, lt}"
  shows "tok_of (gettoken buf p) = c \<and> at buf (ps_of (gettoken buf p)) r"
proof -
  have t: "trim (c # r) = [c] @ r" using assms(2) by (auto simp: in_whitespace)
  have "char_at buf (skip is_white buf p) = c" using assms(1) t by (simp add: char_at_drop drop_skip at_def)
  then have "token_end buf (skip is_white buf p) = (c, skip is_white buf p + length [c])"
    using assms(2) by (auto simp: token_end_def)
  from gettoken_at [OF assms(1) t this] show ?thesis by auto
qed

lemma gettoken_gt:
  assumes "at buf p (gt # r)" and "r \<noteq> []" and "hd r \<noteq> gt"
  shows "tok_of (gettoken buf p) = gt \<and> at buf (ps_of (gettoken buf p)) r"
proof -
  have t: "trim (gt # r) = [gt] @ r" by (auto simp: in_whitespace)
  have d: "drop (skip is_white buf p) buf = gt # r" using assms(1) t by (simp add: drop_skip at_def)
  then have "drop (Suc (skip is_white buf p)) buf = r" by (rule drop_Suc_eq)
  then have "char_at buf (skip is_white buf p) = gt" "char_at buf (skip is_white buf p + 1) \<noteq> gt"
    using d assms(2,3) by (auto simp: char_at_drop split: list.split)
  then have "token_end buf (skip is_white buf p) = (gt, skip is_white buf p + length [gt])"
    by (auto simp: token_end_def)
  from gettoken_at [OF assms(1) t this] show ?thesis by auto
qed

lemma not_word_symbol: "is_symbol c \<Longrightarrow> \<not> is_word c" and not_word_white: "is_white c \<Longrightarrow> \<not> is_word c"
  by (auto simp: is_word_def)

lemma gettoken_wf_word:
  assumes "at buf p t" and "trim t = w @ r" and "wf_word w" and "r = [] \<or> \<not> is_word (hd r)"
  shows "\<exists>q eq p'. gettoken buf p = (word_tok, q, eq, p') \<and> at buf p' r \<and> substring buf (q, eq) = w"
proof (rule gettoken_at [OF assms(1,2)])
  let ?s = "skip is_white buf p"
  have d: "drop ?s buf = w @ r" using assms(1,2) by (simp add: drop_skip at_def)
  obtain c w' where w: "w = c # w'" "is_word c" "c \<noteq> 0" using assms(3) by (cases w) (auto simp: wf_word_def)
  have "takeWhile is_word (w @ r) = w"
    using assms(3,4) by (cases r) (auto simp: takeWhile_append wf_word_def list_all_iff)
  then have "skip is_word buf ?s = ?s + length w" by (simp add: skip_takeWhile [of is_word] d)
  moreover have "char_at buf ?s = c" using d w by (simp add: char_at_drop)
  ultimately show "token_end buf ?s = (word_tok, ?s + length w)"
    using w by (auto simp: token_end_def is_word_def in_symbols)
qed

section \<open>Simple commands\<close>

definition redirs_text :: "(u8 list \<times> u32 \<times> nat) list \<Rightarrow> u8 list" where
  "redirs_text rs = concat (map redir_text rs)"

definition wrap :: "acmd \<Rightarrow> (u8 list \<times> u32 \<times> nat) list \<Rightarrow> acmd" where
  "wrap c rs = foldl (\<lambda>c x. ARedir c (fst x) (fst (snd x)) (snd (snd x))) c rs"

definition wrap_cmd :: "cmd \<Rightarrow> ((nat \<times> nat) \<times> u32 \<times> nat) list \<Rightarrow> cmd" where
  "wrap_cmd c ts = foldl (\<lambda>c x. REDIR c (fst (fst x)) (snd (fst x)) (fst (snd x)) (snd (snd x))) c ts"

lemma view_wrap: "view str (wrap_cmd c ts) = wrap (view str c) (map (apfst str) ts)"
  by (induction ts arbitrary: c) (auto simp: wrap_cmd_def wrap_def)

lemma store_args_wrap: "store_args args (wrap_cmd c ts) = wrap_cmd (store_args args c) ts"
  by (induction ts arbitrary: c) (auto simp: wrap_cmd_def)

text \<open>What may follow a simple command.\<close>

definition ends :: "u8 list \<Rightarrow> u8 list \<Rightarrow> bool" where
  "ends toks r \<longleftrightarrow> r = [] \<or> hd r \<in> set toks"

abbreviation "ends_exec \<equiv> ends [bar, rpar, amp, semi]"
abbreviation "ends_pipe \<equiv> ends [rpar, amp, semi]"
abbreviation "ends_line \<equiv> ends [rpar]"

lemma ends_trim: "ends toks r \<Longrightarrow> set toks \<subseteq> set sh_symbols \<Longrightarrow> trim r = r"
  by (cases r) (auto simp: ends_def sh_symbols_def in_whitespace)

lemma ends_starts:
  "ends toks r \<Longrightarrow> set toks \<subseteq> set sh_symbols \<Longrightarrow> starts r us \<longleftrightarrow> r \<noteq> [] \<and> hd r \<in> set us"
  using ends_trim [of toks r] by (cases r) (auto simp: starts_def)

lemma ends_not_word: "ends toks r \<Longrightarrow> set toks \<subseteq> set sh_symbols \<Longrightarrow> r = [] \<or> \<not> is_word (hd r)"
  by (auto simp: ends_def is_word_def in_symbols sh_symbols_def)

lemma end_sets:
  "set [bar, rpar, amp, semi] \<subseteq> set sh_symbols" "set [rpar, amp, semi] \<subseteq> set sh_symbols" "set [rpar] \<subseteq> set sh_symbols"
  by (auto simp: sh_symbols_def)

lemma redirs_text_simps [simp]: "redirs_text [] = []" "redirs_text (x # rs) = redir_text x @ redirs_text rs"
  by (simp_all add: redirs_text_def)

lemma redirs_not_word:
  assumes "ends_exec r"
  shows "redirs_text rs @ r = [] \<or> \<not> is_word (hd (redirs_text rs @ r))"
  using ends_not_word [OF assms end_sets(1)] by (cases rs) (auto simp: redir_text_def is_word_def in_symbols)

lemma parseredirs_none:
  assumes "0 \<notin> set buf" and "at buf p r" and "\<not> starts r [lt, gt]"
  shows "\<exists>p'. parseredirs buf c p = Ok (c, p') \<and> at buf p' r"
proof -
  obtain p' where "peek buf p [lt, gt] = (p', False)" "at buf p' r" using peek_at [OF assms(1,2), of "[lt, gt]"] assms(3) by auto
  then show ?thesis by (subst parseredirs.simps) simp
qed

lemma parseredirs_at:
  assumes "0 \<notin> set buf" and "list_all wf_redir rs" and "at buf p (redirs_text rs @ r)" and "ends_exec r"
  shows "\<exists>ts p'. parseredirs buf c p = Ok (wrap_cmd c ts, p') \<and> map (apfst (substring buf)) ts = rs \<and> at buf p' r"
  using assms(2,3)
proof (induction rs arbitrary: c p)
  case Nil
  have "\<not> starts r [lt, gt]" using ends_starts [OF assms(4) end_sets(1)] assms(4) by (auto simp: ends_def)
  then obtain p' where "parseredirs buf c p = Ok (c, p')" "at buf p' r"
    using parseredirs_none [OF assms(1), of p r c] Nil by auto
  then show ?case by (intro exI [of _ "[]"]) (auto simp: wrap_cmd_def)
next
  case (Cons x rs)
  obtain f m fd where x: "x = (f, m, fd)" by (cases x) auto
  have wf: "wf_word f" "(m, fd) = (SH_RDONLY, 0) \<or> (m, fd) = (SH_WRONLY OR SH_CREATE, 1)"
    using Cons.prems(1) x by (auto simp: wf_redir_def)
  let ?s = "if fd = 0 then lt else gt" and ?r = "redirs_text rs @ r"
  have here: "at buf p (?s # f @ ?r)" using Cons.prems(2) x by (simp add: redir_text_def)
  have "starts (?s # f @ ?r) [lt, gt]" by (simp add: starts_def in_whitespace)
  then obtain p1 where p1: "peek buf p [lt, gt] = (p1, True)" "at buf p1 (?s # f @ ?r)"
    using peek_at [OF assms(1) here, of "[lt, gt]"] by auto
  have f: "f \<noteq> []" "is_word (hd f)" using wf(1) by (auto simp: wf_word_def list_all_iff)
  have t1: "tok_of (gettoken buf p1) = ?s \<and> at buf (ps_of (gettoken buf p1)) (f @ ?r)"
  proof (cases "fd = 0")
    case True
    then show ?thesis using gettoken_symbol [of buf p1 lt "f @ ?r"] p1 by simp
  next
    case False
    have "hd (f @ ?r) \<noteq> gt" using f by (auto simp: is_word_def in_symbols)
    then show ?thesis using gettoken_gt [of buf p1 "f @ ?r"] p1 f False by simp
  qed
  have tr: "trim (f @ ?r) = f @ ?r" using f by (cases f) (auto simp: is_word_def)
  obtain q eq p2 where t2: "gettoken buf (ps_of (gettoken buf p1)) = (word_tok, q, eq, p2)" "at buf p2 ?r" "substring buf (q, eq) = f"
    using gettoken_wf_word [OF conjunct2 [OF t1] tr wf(1) redirs_not_word [OF assms(4)]] by auto
  have a: "add_redir ?s c q eq = REDIR c q eq m fd" using wf(2) by (auto simp: add_redir_def redircmd_def)
  have u: "parseredirs buf c p = parseredirs buf (REDIR c q eq m fd) p2"
    using p1(1) t1 t2(1) a by (subst parseredirs.simps) (simp add: Let_def)
  obtain ts p' where ts: "parseredirs buf (REDIR c q eq m fd) p2 = Ok (wrap_cmd (REDIR c q eq m fd) ts, p')"
      "map (apfst (substring buf)) ts = rs" "at buf p' r"
    using Cons.IH [of p2 "REDIR c q eq m fd"] Cons.prems t2(2) by auto
  show ?case using u ts t2(3) x
    by (intro exI [of _ "((q, eq), m, fd) # ts"] exI [of _ p']) (auto simp: wrap_cmd_def)
qed

lemma words_text_simps [simp]: "words_text [] = []" "words_text (w # ws) = 0x20 # w @ words_text ws"
  by (simp_all add: words_text_def)

lemma parse_args_stop:
  assumes "0 \<notin> set buf" and "at buf p r" and "ends_exec r"
  shows "\<exists>p'. parse_args buf c args p = Ok (c, args, p') \<and> at buf p' r"
proof -
  obtain p1 where p1: "peek buf p [bar, rpar, amp, semi] = (p1, r \<noteq> [])" "at buf p1 r"
    using peek_at [OF assms(1,2), of "[bar, rpar, amp, semi]"] ends_starts [OF assms(3) end_sets(1)] assms(3)
    by (auto simp: ends_def)
  show ?thesis
  proof (cases "r = []")
    case False
    then show ?thesis using p1 by (subst parse_args.simps) simp
  next
    case True
    then have "drop (skip is_white buf p1) buf = []" using p1(2) by (simp add: drop_skip at_def)
    then have "token_end buf (skip is_white buf p1) = (0, skip is_white buf p1 + length ([] :: u8 list))"
      by (simp add: token_end_def char_at_drop)
    then obtain q eq p' where "gettoken buf p1 = (0, q, eq, p')" "at buf p' r"
      using gettoken_at [OF p1(2), of "[]" r 0] True by auto
    then show ?thesis using p1 True by (subst parse_args.simps) simp
  qed
qed

lemma wf_word_trim: "wf_word w \<Longrightarrow> trim (0x20 # w @ r) = w @ r"
  by (cases w) (auto simp: wf_word_def is_word_def in_whitespace)

lemma wf_word_starts: "wf_word w \<Longrightarrow> set us \<subseteq> set sh_symbols \<Longrightarrow> \<not> starts (0x20 # w @ r) us"
  using wf_word_trim [of w r] by (cases w) (auto simp: starts_def wf_word_def is_word_def in_symbols sh_symbols_def)

lemma parse_args_at:
  assumes "0 \<notin> set buf" and "list_all wf_redir rs" and "ends_exec r"
  shows "ws \<noteq> [] \<Longrightarrow> list_all wf_word ws \<Longrightarrow> at buf p (words_text ws @ redirs_text rs @ r) \<Longrightarrow> length args + length ws < MAXARGS \<Longrightarrow>
    \<exists>ts as p'. parse_args buf c args p = Ok (wrap_cmd c ts, args @ as, p') \<and> map (substring buf) as = ws \<and>
      map (apfst (substring buf)) ts = rs \<and> at buf p' r"
proof (induction ws arbitrary: c args p)
  case (Cons w ws)
  let ?r = "words_text ws @ redirs_text rs @ r" and ?stop = "[bar, rpar, amp, semi]"
  have w: "wf_word w" "list_all wf_word ws" using Cons.prems by auto
  have here: "at buf p (0x20 # w @ ?r)" using Cons.prems(3) by simp
  obtain p1 where p1: "peek buf p ?stop = (p1, False)" "at buf p1 (0x20 # w @ ?r)"
    using peek_at [OF assms(1) here, of ?stop] wf_word_starts [OF w(1) end_sets(1)] by auto
  have nw: "?r = [] \<or> \<not> is_word (hd ?r)"
    using redirs_not_word [OF assms(3)] by (cases ws) (auto simp: is_word_def in_whitespace)
  obtain q eq p2 where t: "gettoken buf p1 = (word_tok, q, eq, p2)" "at buf p2 ?r" "substring buf (q, eq) = w"
    using gettoken_wf_word [OF p1(2) wf_word_trim [OF w(1)] w(1) nw] by auto
  have u: "parse_args buf c args p = bindr (parseredirs buf c p2) (\<lambda>(ret, ps2). parse_args buf ret (args @ [(q, eq)]) ps2)"
    using p1(1) t(1) Cons.prems(4) by (subst parse_args.simps) (simp add: Let_def)
  show ?case
  proof (cases "ws = []")
    case True
    obtain ts p3 where ts: "parseredirs buf c p2 = Ok (wrap_cmd c ts, p3)" "map (apfst (substring buf)) ts = rs" "at buf p3 r"
      using parseredirs_at [OF assms(1,2) _ assms(3), of p2 c] t(2) True by auto
    obtain p' where "parse_args buf (wrap_cmd c ts) (args @ [(q, eq)]) p3 = Ok (wrap_cmd c ts, args @ [(q, eq)], p')" "at buf p' r"
      using parse_args_stop [OF assms(1) ts(3) assms(3)] by blast
    then show ?thesis using u ts t(3) True by (intro exI [of _ ts] exI [of _ "[(q, eq)]"] exI [of _ p']) simp
  next
    case False
    then have "\<not> starts ?r [lt, gt]" using w(2) wf_word_starts [of "hd ws" "[lt, gt]"] by (cases ws) (auto simp: sh_symbols_def)
    then obtain p3 where p3: "parseredirs buf c p2 = Ok (c, p3)" "at buf p3 ?r"
      using parseredirs_none [OF assms(1) t(2)] by blast
    obtain ts as p' where r: "parse_args buf c (args @ [(q, eq)]) p3 = Ok (wrap_cmd c ts, (args @ [(q, eq)]) @ as, p')"
        "map (substring buf) as = ws" "map (apfst (substring buf)) ts = rs" "at buf p' r"
      using Cons.IH [OF False w(2) p3(2), of "args @ [(q, eq)]" c] Cons.prems(4) by auto
    then show ?thesis using u p3 t(3) by (intro exI [of _ ts] exI [of _ "(q, eq) # as"] exI [of _ p']) simp
  qed
qed simp

lemma parse_simple_at:
  assumes "0 \<notin> set buf" and "list_all wf_redir rs" and "ends_exec r" and "list_all wf_word ws" and "length ws < MAXARGS"
    and "at buf p (words_text ws @ redirs_text rs @ r)"
  shows "\<exists>c p'. parse_simple buf p = Ok (c, p') \<and> view (substring buf) c = wrap (AExec ws) rs \<and> at buf p' r"
proof (cases "ws = []")
  case True
  obtain ts p1 where ts: "parseredirs buf execcmd p = Ok (wrap_cmd execcmd ts, p1)" "map (apfst (substring buf)) ts = rs" "at buf p1 r"
    using parseredirs_at [OF assms(1,2) _ assms(3), of p execcmd] assms(6) True by auto
  obtain p' where "parse_args buf (wrap_cmd execcmd ts) [] p1 = Ok (wrap_cmd execcmd ts, [], p')" "at buf p' r"
    using parse_args_stop [OF assms(1) ts(3) assms(3)] by blast
  then show ?thesis using ts True by (auto simp: parse_simple_def store_args_wrap execcmd_def view_wrap)
next
  case False
  then have "\<not> starts (words_text ws @ redirs_text rs @ r) [lt, gt]"
    using assms(4) wf_word_starts [of "hd ws" "[lt, gt]"] by (cases ws) (auto simp: sh_symbols_def)
  then obtain p1 where p1: "parseredirs buf execcmd p = Ok (execcmd, p1)" "at buf p1 (words_text ws @ redirs_text rs @ r)"
    using parseredirs_none [OF assms(1,6)] by blast
  obtain ts as p' where "parse_args buf execcmd [] p1 = Ok (wrap_cmd execcmd ts, as, p')" "map (substring buf) as = ws"
      "map (apfst (substring buf)) ts = rs" "at buf p' r"
    using parse_args_at [OF assms(1-3) False assms(4) p1(2), of "[]" execcmd] assms(5) by auto
  then show ?thesis using p1 by (auto simp: parse_simple_def store_args_wrap execcmd_def view_wrap)
qed

section \<open>The levels of the grammar\<close>

text \<open>The command inside the redirections of a simple command, and the redirections.\<close>

primrec base :: "acmd \<Rightarrow> acmd" where
  "base (AExec ws) = AExec ws"
| "base (ARedir c f mode fd) = base c"
| "base (APipe l r) = APipe l r"
| "base (AList l r) = AList l r"
| "base (ABack c) = ABack c"

primrec redirs :: "acmd \<Rightarrow> (u8 list \<times> u32 \<times> nat) list" where
  "redirs (AExec ws) = []"
| "redirs (ARedir c f mode fd) = redirs c @ [(f, mode, fd)]"
| "redirs (APipe l r) = []"
| "redirs (AList l r) = []"
| "redirs (ABack c) = []"

lemma wrap_base: "wrap (base c) (redirs c) = c"
  by (induction c) (simp_all add: wrap_def)

lemma base_cases: "(\<exists>ws. base c = AExec ws) \<or> prec (base c) < 3"
  by (induction c) auto

lemma print_base: "print_at 3 c = print_at 3 (base c) @ redirs_text (redirs c)"
  by (induction c) (auto simp: guard_def redirs_text_def)

lemma wf_base: "wf_acmd c \<Longrightarrow> wf_acmd (base c) \<and> list_all wf_redir (redirs c)"
  by (induction c) auto

text \<open>What it means that each routine reads back the text of its level.\<close>

definition reads :: "(nat \<Rightarrow> u8 list \<Rightarrow> nat \<Rightarrow> parse) \<Rightarrow> nat \<Rightarrow> u8 list \<Rightarrow> u8 list \<Rightarrow> acmd \<Rightarrow> bool" where
  "reads f k toks t c \<longleftrightarrow> (\<forall>n buf p r. 0 \<notin> set buf \<longrightarrow> at buf p (t @ r) \<longrightarrow> ends toks r \<longrightarrow> 4 * length t + k \<le> n \<longrightarrow>
     (\<exists>c' p'. f n buf p = Some (Ok (c', p')) \<and> view (substring buf) c' = c \<and> at buf p' r))"

lemma readsD:
  "reads f k toks t c \<Longrightarrow> 0 \<notin> set buf \<Longrightarrow> at buf p (t @ r) \<Longrightarrow> ends toks r \<Longrightarrow> 4 * length t + k \<le> n \<Longrightarrow>
   \<exists>c' p'. f n buf p = Some (Ok (c', p')) \<and> view (substring buf) c' = c \<and> at buf p' r"
  by (auto simp: reads_def)

abbreviation "reads_exec c \<equiv> reads parseexec 2 [bar, rpar, amp, semi] (print_at 3 c) c"
abbreviation "reads_pipe c \<equiv> reads parsepipe 3 [rpar, amp, semi] (print_at 2 c) c"
abbreviation "reads_line c \<equiv> reads parseline 4 [rpar] (print c) c"

text \<open>Before the loop over \<open>&\<close> has gone on.\<close>

definition reads_back :: "acmd \<Rightarrow> bool" where
  "reads_back c \<longleftrightarrow> (\<forall>n buf p r. 0 \<notin> set buf \<longrightarrow> at buf p (print_at 1 c @ r) \<longrightarrow> ends_pipe r \<longrightarrow> 4 * length (print_at 1 c) + 3 \<le> n \<longrightarrow>
     (\<exists>c0 p0 c' p'. parsepipe n buf p = Some (Ok (c0, p0)) \<and> parse_back buf c0 p0 = parse_back buf c' p' \<and>
        view (substring buf) c' = c \<and> at buf p' r))"

lemma reads_exec_simple:
  assumes "base c = AExec ws" and "wf_acmd c"
  shows "reads_exec c"
  unfolding reads_def
proof (intro allI impI)
  fix n buf p r
  assume a: "0 \<notin> set buf" "at buf p (print_at 3 c @ r)" "ends_exec r" "4 * length (print_at 3 c) + 2 \<le> n"
  let ?t = "words_text ws @ redirs_text (redirs c) @ r"
  have t: "print_at 3 c @ r = ?t" using print_base [of c] assms(1) by (simp add: guard_def)
  have wf: "list_all wf_redir (redirs c)" "list_all wf_word ws" "length ws < MAXARGS" using wf_base [OF assms(2)] assms(1) by auto
  obtain m where n: "n = Suc m" using a(4) by (cases n) auto
  have "\<not> starts ?t [lpar]"
  proof (cases "ws = []")
    case False
    then show ?thesis using wf(2) wf_word_starts [of "hd ws" "[lpar]"] by (cases ws) (auto simp: sh_symbols_def)
  next
    case True
    then show ?thesis using a(3) ends_starts [OF a(3) end_sets(1), of "[lpar]"]
      by (cases "redirs c") (auto simp: starts_def redir_text_def in_whitespace ends_def)
  qed
  then obtain p1 where p1: "peek buf p [lpar] = (p1, False)" "at buf p1 ?t"
    using peek_at [OF a(1), of p ?t "[lpar]"] a(2) t by auto
  show "\<exists>c' p'. parseexec n buf p = Some (Ok (c', p')) \<and> view (substring buf) c' = c \<and> at buf p' r"
    using parse_simple_at [OF a(1) wf(1) a(3) wf(2,3) p1(2)] p1(1) n wrap_base [of c] assms(1) by auto
qed

text \<open>A symbol that is peeked at and then taken.\<close>

lemma symbol_at:
  assumes "0 \<notin> set buf" and "at buf p (c # r)" and "c \<in> {bar, lpar, rpar, semi, amp, lt}"
  shows "\<exists>p1. peek buf p [c] = (p1, True) \<and> at buf p1 (c # r) \<and> at buf (ps_of (gettoken buf p1)) r"
proof -
  have "starts (c # r) [c]" "0 \<notin> set [c]" using assms(3) by (auto simp: starts_def in_whitespace)
  then obtain p1 where p1: "peek buf p [c] = (p1, True)" "at buf p1 (c # r)"
    using peek_at [OF assms(1,2), of "[c]"] by auto
  then show ?thesis using gettoken_symbol [OF p1(2) assms(3)] by auto
qed

lemma no_symbol_at:
  assumes "0 \<notin> set buf" and "at buf p r" and "ends toks r" and "set toks \<subseteq> set sh_symbols" and "c \<notin> set toks" and "c \<noteq> 0"
  shows "\<exists>p1. peek buf p [c] = (p1, False) \<and> at buf p1 r"
proof -
  have "\<not> starts r [c]" using ends_starts [OF assms(3,4), of "[c]"] assms(3,5) by (auto simp: ends_def)
  then show ?thesis using peek_at [OF assms(1,2), of "[c]"] assms(6) by auto
qed

lemma reads_exec_block:
  assumes "prec (base c) < 3" and "reads_line (base c)" and "wf_acmd c"
  shows "reads_exec c"
  unfolding reads_def
proof (intro allI impI)
  fix n buf p r
  assume a: "0 \<notin> set buf" "at buf p (print_at 3 c @ r)" "ends_exec r" "4 * length (print_at 3 c) + 2 \<le> n"
  let ?b = "print (base c)" and ?rest = "redirs_text (redirs c) @ r"
  have t: "print_at 3 c = lpar # ?b @ rpar # redirs_text (redirs c)"
    using print_base [of c] assms(1) by (simp add: guard_def)
  obtain m where n: "n = Suc (Suc m)" "4 * length ?b + 4 \<le> m" using a(4) t by (cases n; cases "n - 1") auto
  obtain p1 where p1: "peek buf p [lpar] = (p1, True)" "at buf p1 (lpar # ?b @ rpar # ?rest)"
    using symbol_at [OF a(1), of p lpar "?b @ rpar # ?rest"] a(2) t by auto
  obtain p2 where p2: "peek buf p1 [lpar] = (p2, True)" "at buf (ps_of (gettoken buf p2)) (?b @ rpar # ?rest)"
    using symbol_at [OF a(1) p1(2)] by auto
  obtain c1 p3 where p3: "parseline m buf (ps_of (gettoken buf p2)) = Some (Ok (c1, p3))" "view (substring buf) c1 = base c"
      "at buf p3 (rpar # ?rest)"
    using readsD [OF assms(2) a(1) p2(2) _ n(2)] by (auto simp: ends_def)
  obtain p4 where p4: "peek buf p3 [rpar] = (p4, True)" "at buf (ps_of (gettoken buf p4)) ?rest"
    using symbol_at [OF a(1) p3(3)] by auto
  obtain ts p' where ts: "parseredirs buf c1 (ps_of (gettoken buf p4)) = Ok (wrap_cmd c1 ts, p')"
      "map (apfst (substring buf)) ts = redirs c" "at buf p' r"
    using parseredirs_at [OF a(1) conjunct2 [OF wf_base [OF assms(3)]] p4(2) a(3)] by blast
  have "parseexec n buf p = Some (Ok (wrap_cmd c1 ts, p'))"
    using n(1) p1(1) p2(1) p3(1) p4(1) ts(1) by simp
  then show "\<exists>c' p'. parseexec n buf p = Some (Ok (c', p')) \<and> view (substring buf) c' = c \<and> at buf p' r"
    using ts p3(2) wrap_base [of c] by (auto simp: view_wrap)
qed

lemma reads_pipe_exec:
  assumes "prec c \<noteq> 2" and "reads_exec c"
  shows "reads_pipe c"
  unfolding reads_def
proof (intro allI impI)
  fix n buf p r
  assume a: "0 \<notin> set buf" "at buf p (print_at 2 c @ r)" "ends_pipe r" "4 * length (print_at 2 c) + 3 \<le> n"
  have t: "print_at 2 c = print_at 3 c" using assms(1) by (cases c) (auto simp: guard_def)
  obtain m where n: "n = Suc m" "4 * length (print_at 3 c) + 2 \<le> m" using a(4) t by (cases n) auto
  have e: "ends_exec r" using a(3) by (auto simp: ends_def)
  obtain c1 p1 where p1: "parseexec m buf p = Some (Ok (c1, p1))" "view (substring buf) c1 = c" "at buf p1 r"
    using readsD [OF assms(2) a(1) a(2) [unfolded t] e n(2)] by auto
  obtain p2 where "peek buf p1 [bar] = (p2, False)" "at buf p2 r"
    using no_symbol_at [OF a(1) p1(3) a(3) end_sets(2), of bar] by auto
  then show "\<exists>c' p'. parsepipe n buf p = Some (Ok (c', p')) \<and> view (substring buf) c' = c \<and> at buf p' r"
    using n(1) p1 by simp
qed

lemma reads_pipe_pipe:
  assumes "reads_exec l" and "reads_pipe r"
  shows "reads_pipe (APipe l r)"
  unfolding reads_def
proof (intro allI impI)
  fix n buf p s
  let ?t = "print_at 2 (APipe l r)"
  assume a: "0 \<notin> set buf" "at buf p (?t @ s)" "ends_pipe s" "4 * length ?t + 3 \<le> n"
  have t: "?t = print_at 3 l @ bar # print_at 2 r" by (simp add: guard_def)
  obtain m where n: "n = Suc m" "4 * length (print_at 3 l) + 2 \<le> m" "4 * length (print_at 2 r) + 3 \<le> m"
    using a(4) t by (cases n) auto
  obtain c1 p1 where p1: "parseexec m buf p = Some (Ok (c1, p1))" "view (substring buf) c1 = l" "at buf p1 (bar # print_at 2 r @ s)"
    using readsD [OF assms(1) a(1), of p "bar # print_at 2 r @ s" m] a(2) t n(2) by (auto simp: ends_def)
  obtain p2 where p2: "peek buf p1 [bar] = (p2, True)" "at buf (ps_of (gettoken buf p2)) (print_at 2 r @ s)"
    using symbol_at [OF a(1) p1(3)] by auto
  obtain c2 p3 where "parsepipe m buf (ps_of (gettoken buf p2)) = Some (Ok (c2, p3))" "view (substring buf) c2 = r" "at buf p3 s"
    using readsD [OF assms(2) a(1) p2(2) a(3) n(3)] by auto
  then show "\<exists>c' p'. parsepipe n buf p = Some (Ok (c', p')) \<and> view (substring buf) c' = APipe l r \<and> at buf p' s"
    using n(1) p1 p2(1) by (simp add: pipecmd_def)
qed

lemma reads_backD:
  "reads_back c \<Longrightarrow> 0 \<notin> set buf \<Longrightarrow> at buf p (print_at 1 c @ r) \<Longrightarrow> ends_pipe r \<Longrightarrow> 4 * length (print_at 1 c) + 3 \<le> n \<Longrightarrow>
   \<exists>c0 p0 c' p'. parsepipe n buf p = Some (Ok (c0, p0)) \<and> parse_back buf c0 p0 = parse_back buf c' p' \<and>
     view (substring buf) c' = c \<and> at buf p' r"
  by (auto simp: reads_back_def)

lemma reads_back_pipe:
  assumes "prec c \<noteq> 1" and "reads_pipe c"
  shows "reads_back c"
proof -
  have "print_at 1 c = print_at 2 c" using assms(1) by (cases c) (auto simp: guard_def)
  then show ?thesis unfolding reads_back_def using readsD [OF assms(2)] by metis
qed

lemma reads_back_back:
  assumes "reads_back c"
  shows "reads_back (ABack c)"
  unfolding reads_back_def
proof (intro allI impI)
  fix n buf p r
  let ?t = "print_at 1 (ABack c)"
  assume a: "0 \<notin> set buf" "at buf p (?t @ r)" "ends_pipe r" "4 * length ?t + 3 \<le> n"
  have t: "?t = print_at 1 c @ [amp]" by (simp add: guard_def)
  obtain c0 p0 c1 p1 where b: "parsepipe n buf p = Some (Ok (c0, p0))" "parse_back buf c0 p0 = parse_back buf c1 p1"
      "view (substring buf) c1 = c" "at buf p1 (amp # r)"
    using reads_backD [OF assms a(1), of p "amp # r" n] a(2,4) t by (auto simp: ends_def)
  obtain p2 where p2: "peek buf p1 [amp] = (p2, True)" "at buf (ps_of (gettoken buf p2)) r"
    using symbol_at [OF a(1) b(4)] by auto
  have "parse_back buf c1 p1 = parse_back buf (BACK c1) (ps_of (gettoken buf p2))"
    using p2(1) by (subst parse_back.simps) (simp add: backcmd_def)
  then show "\<exists>c0 p0 c' p'. parsepipe n buf p = Some (Ok (c0, p0)) \<and> parse_back buf c0 p0 = parse_back buf c' p' \<and>
        view (substring buf) c' = ABack c \<and> at buf p' r"
    using b p2(2) by (intro exI [of _ c0] exI [of _ p0] exI [of _ "BACK c1"] exI [of _ "ps_of (gettoken buf p2)"]) simp
qed

lemma parse_back_none:
  assumes "0 \<notin> set buf" and "at buf p r" and "ends toks r" and "set toks \<subseteq> set sh_symbols" and "amp \<notin> set toks"
  shows "\<exists>p1. parse_back buf c p = (c, p1) \<and> at buf p1 r"
proof -
  obtain p1 where "peek buf p [amp] = (p1, False)" "at buf p1 r" using no_symbol_at [OF assms] by auto
  then show ?thesis by (subst parse_back.simps) simp
qed

lemma reads_line_back:
  assumes "prec c \<noteq> 0" and "reads_back c"
  shows "reads_line c"
  unfolding reads_def
proof (intro allI impI)
  fix n buf p r
  assume a: "0 \<notin> set buf" "at buf p (print c @ r)" "ends_line r" "4 * length (print c) + 4 \<le> n"
  have t: "print_at 1 c = print c" using assms(1) by (cases c) (auto simp: guard_def)
  obtain m where n: "n = Suc m" "4 * length (print_at 1 c) + 3 \<le> m" using a(4) t by (cases n) auto
  have e: "ends_pipe r" using a(3) by (auto simp: ends_def)
  obtain c0 p0 c1 p1 where b: "parsepipe m buf p = Some (Ok (c0, p0))" "parse_back buf c0 p0 = parse_back buf c1 p1"
      "view (substring buf) c1 = c" "at buf p1 r"
    using reads_backD [OF assms(2) a(1) _ e n(2), of p] a(2) unfolding t by auto
  obtain p2 where p2: "parse_back buf c1 p1 = (c1, p2)" "at buf p2 r"
    using parse_back_none [OF a(1) b(4) a(3) end_sets(3)] by auto
  obtain p3 where "peek buf p2 [semi] = (p3, False)" "at buf p3 r"
    using no_symbol_at [OF a(1) p2(2) a(3) end_sets(3), of semi] by auto
  then show "\<exists>c' p'. parseline n buf p = Some (Ok (c', p')) \<and> view (substring buf) c' = c \<and> at buf p' r"
    using n(1) b p2(1) by simp
qed

lemma reads_line_list:
  assumes "reads_back l" and "reads_line r"
  shows "reads_line (AList l r)"
  unfolding reads_def
proof (intro allI impI)
  fix n buf p s
  let ?t = "print (AList l r)"
  assume a: "0 \<notin> set buf" "at buf p (?t @ s)" "ends_line s" "4 * length ?t + 4 \<le> n"
  obtain m where n: "n = Suc m" "4 * length (print_at 1 l) + 3 \<le> m" "4 * length (print r) + 4 \<le> m" using a(4) by (cases n) auto
  obtain c0 p0 c1 p1 where b: "parsepipe m buf p = Some (Ok (c0, p0))" "parse_back buf c0 p0 = parse_back buf c1 p1"
      "view (substring buf) c1 = l" "at buf p1 (semi # print r @ s)"
    using reads_backD [OF assms(1) a(1), of p "semi # print r @ s" m] a(2) n(2) by (auto simp: ends_def)
  have e: "ends [semi] (semi # print r @ s)" "set [semi] \<subseteq> set sh_symbols" by (auto simp: ends_def sh_symbols_def)
  obtain p2 where p2: "parse_back buf c1 p1 = (c1, p2)" "at buf p2 (semi # print r @ s)"
    using parse_back_none [OF a(1) b(4) e] by auto
  obtain p3 where p3: "peek buf p2 [semi] = (p3, True)" "at buf (ps_of (gettoken buf p3)) (print r @ s)"
    using symbol_at [OF a(1) p2(2)] by auto
  obtain c2 p4 where "parseline m buf (ps_of (gettoken buf p3)) = Some (Ok (c2, p4))" "view (substring buf) c2 = r" "at buf p4 s"
    using readsD [OF assms(2) a(1) p3(2) a(3) n(3)] by auto
  then show "\<exists>c' p'. parseline n buf p = Some (Ok (c', p')) \<and> view (substring buf) c' = AList l r \<and> at buf p' s"
    using n(1) b p2(1) p3(1) by (simp add: listcmd_def)
qed

lemma reads_all:
  "wf_acmd c \<Longrightarrow> reads_exec c \<and> reads_pipe c \<and> reads_back c \<and> reads_line c \<and> (prec (base c) < 3 \<longrightarrow> reads_line (base c))"
proof (induction c)
  case (AExec ws)
  let ?c = "AExec ws"
  have e: "reads_exec ?c" using AExec by (intro reads_exec_simple) auto
  have p: "reads_pipe ?c" by (rule reads_pipe_exec [OF _ e]) simp
  have b: "reads_back ?c" by (rule reads_back_pipe [OF _ p]) simp
  have l: "reads_line ?c" by (rule reads_line_back [OF _ b]) simp
  show ?case using e p b l by simp
next
  case (ARedir c f mode fd)
  let ?c = "ARedir c f mode fd"
  have ih: "prec (base ?c) < 3 \<longrightarrow> reads_line (base ?c)" using ARedir by simp
  have e: "reads_exec ?c"
    using base_cases [of ?c] reads_exec_simple [OF _ ARedir.prems] reads_exec_block [OF _ _ ARedir.prems] ih by blast
  have p: "reads_pipe ?c" by (rule reads_pipe_exec [OF _ e]) simp
  have b: "reads_back ?c" by (rule reads_back_pipe [OF _ p]) simp
  have l: "reads_line ?c" by (rule reads_line_back [OF _ b]) simp
  show ?case using e p b l ih by blast
next
  case (APipe l r)
  let ?c = "APipe l r"
  have "reads_exec l" "reads_pipe r" using APipe by auto
  then have p: "reads_pipe ?c" by (rule reads_pipe_pipe)
  have b: "reads_back ?c" by (rule reads_back_pipe [OF _ p]) simp
  have l: "reads_line ?c" by (rule reads_line_back [OF _ b]) simp
  have e: "reads_exec ?c" by (rule reads_exec_block [OF _ _ APipe.prems]) (use l in simp_all)
  show ?case using e p b l by (simp only: base.simps simp_thms)
next
  case (AList l r)
  let ?c = "AList l r"
  have "reads_back l" "reads_line r" using AList by auto
  then have l: "reads_line ?c" by (rule reads_line_list)
  have e: "reads_exec ?c" by (rule reads_exec_block [OF _ _ AList.prems]) (use l in simp_all)
  have p: "reads_pipe ?c" by (rule reads_pipe_exec [OF _ e]) simp
  have b: "reads_back ?c" by (rule reads_back_pipe [OF _ p]) simp
  show ?case using e p b l by (simp only: base.simps simp_thms)
next
  case (ABack c)
  let ?c = "ABack c"
  have "reads_back c" using ABack by auto
  then have b: "reads_back ?c" by (rule reads_back_back)
  have l: "reads_line ?c" by (rule reads_line_back [OF _ b]) simp
  have e: "reads_exec ?c" by (rule reads_exec_block [OF _ _ ABack.prems]) (use l in simp_all)
  have p: "reads_pipe ?c" by (rule reads_pipe_exec [OF _ e]) simp
  show ?case using e p b l by (simp only: base.simps simp_thms)
qed

lemma print_no_nul: "wf_acmd c \<Longrightarrow> 0 \<notin> set (print c)"
  by (induction c) (auto simp: guard_def words_text_def redir_text_def wf_redir_def wf_word_def list_all_iff)

lemma view_cong: "(\<And>t. t \<in> set (tokens c) \<Longrightarrow> f t = g t) \<Longrightarrow> view f c = view g c"
  by (induction c) auto

text \<open>C9. Every command that the shell can represent, printed with only the parentheses that the precedence of \<open>;\<close>, \<open>&\<close>
  and \<open>|\<close> calls for, is read back as the same command, with exactly its words and file names as the strings the
  parsed command points to.\<close>

theorem parse_print:
  assumes "wf_acmd c"
  shows "\<exists>c' a. parsecmd (print c) = Some (Ok (c', a)) \<and> view (\<lambda>t. string_at a (fst t)) c' = c"
proof -
  let ?buf = "print c"
  have z: "0 \<notin> set ?buf" by (rule print_no_nul [OF assms])
  obtain c' p where l: "parseline (4 * length ?buf + 4) ?buf 0 = Some (Ok (c', p))" "view (substring ?buf) c' = c" "at ?buf p []"
    using readsD [of parseline 4 "[rpar]" ?buf c ?buf 0 "[]" "4 * length ?buf + 4"] reads_all [OF assms] z
    by (auto simp: at_def ends_def)
  have "skip is_white ?buf p = length ?buf"
  proof -
    have "drop (skip is_white ?buf p) ?buf = []" using l(3) unfolding drop_skip at_def by (simp only: dropWhile.simps)
    then show ?thesis using l(3) skip_le [of p ?buf is_white] by (simp add: at_def)
  qed
  then have ok: "parsecmd ?buf = Some (Ok (c', nulterminate c' (?buf @ [0])))"
    using l(1) by (simp add: parsecmd_def peek_def)
  have "sound_parse ?buf 0 (parseline (4 * length ?buf + 4) ?buf 0)" using parse_sound(1) [OF z, of 0] by simp
  then have w: "list_all (good_token ?buf) (tokens c')" using l(1) by (simp add: wf_cmd_def)
  have "view (\<lambda>t. string_at (nulterminate c' (?buf @ [0])) (fst t)) c' = view (substring ?buf) c'"
    by (rule view_cong) (simp add: nulterminate_tokens nulterminate_string [OF z w])
  then show ?thesis using ok l(2) by auto
qed

theorem parse_print_witness:
  "print (AList (ABack (APipe (AExec [ascii ''ls'']) (ARedir (AExec [ascii ''wc'']) (ascii ''f'') (SH_WRONLY OR SH_CREATE) 1)))
        (APipe (ABack (AExec [ascii ''a''])) (AExec []))) = ascii '' ls| wc>f&;( a&)|'' \<and>
   (\<exists>c' a. parsecmd (ascii '' ls| wc>f&;( a&)|'') = Some (Ok (c', a)) \<and>
      view (\<lambda>t. string_at a (fst t)) c' =
        AList (ABack (APipe (AExec [ascii ''ls'']) (ARedir (AExec [ascii ''wc'']) (ascii ''f'') (SH_WRONLY OR SH_CREATE) 1)))
          (APipe (ABack (AExec [ascii ''a''])) (AExec [])))"
proof -
  let ?c = "AList (ABack (APipe (AExec [ascii ''ls'']) (ARedir (AExec [ascii ''wc'']) (ascii ''f'') (SH_WRONLY OR SH_CREATE) 1)))
    (APipe (ABack (AExec [ascii ''a''])) (AExec []))"
  have p: "print ?c = ascii '' ls| wc>f&;( a&)|''"
    by (simp add: guard_def redir_text_def ascii_def)
  have "wf_acmd ?c"
    by (simp add: wf_redir_def wf_word_def is_word_def in_whitespace in_symbols ascii_def MAXARGS_def)
  from parse_print [OF this] show ?thesis unfolding p by simp
qed
end
