(* ===== verification/Shell.thy ===== *)
theory Shell
  imports ShellPrint Uproc
begin

text \<open>
  The shell (\<open>sh.c\<close>): running a parsed command, reading a line and the main loop, as program trees; and that every program
  the shell starts has exactly the descriptors its command asks for.
\<close>

section \<open>Running a command\<close>

text \<open>\<open>panic\<close> and \<open>fork1\<close>.\<close>

definition sh_panic :: "u8 list \<Rightarrow> uproc" where
  "sh_panic s = puts 2 (s @ [0x0A]) Exit"

definition fork1 :: "(int \<Rightarrow> uproc) \<Rightarrow> uproc" where
  "fork1 k = Sys UFork (\<lambda>pid. if val pid = -1 then sh_panic (ascii ''fork'') else k (val pid))"

text \<open>\<open>runcmd\<close> never returns.  The strings of the command are what its pointers point to.\<close>

primrec runcmd :: "acmd \<Rightarrow> uproc" where
  "runcmd (AExec argv) =
     (case argv of [] \<Rightarrow> Exit
      | path # _ \<Rightarrow> Sys (UExec path argv) (\<lambda>_. puts 2 (ascii ''exec '' @ path @ ascii '' failed'' @ [0x0A]) Exit))"
| "runcmd (ARedir c f mode fd) =
     Sys (UClose (int fd)) (\<lambda>_. Sys (UOpen f mode) (\<lambda>r.
       if val r < 0 then puts 2 (ascii ''open '' @ f @ ascii '' failed'' @ [0x0A]) Exit else runcmd c))"
| "runcmd (AList l r) =
     fork1 (\<lambda>pid. if pid = 0 then runcmd l else Sys UWait (\<lambda>_. runcmd r))"
| "runcmd (APipe l r) =
     Sys UPipe (\<lambda>p. case p of
        Ends p0 p1 \<Rightarrow>
          fork1 (\<lambda>pid. if pid = 0 then
              Sys (UClose 1) (\<lambda>_. Sys (UDup p1) (\<lambda>_. Sys (UClose p0) (\<lambda>_. Sys (UClose p1) (\<lambda>_. runcmd l))))
            else fork1 (\<lambda>pid. if pid = 0 then
                Sys (UClose 0) (\<lambda>_. Sys (UDup p0) (\<lambda>_. Sys (UClose p0) (\<lambda>_. Sys (UClose p1) (\<lambda>_. runcmd r))))
              else Sys (UClose p0) (\<lambda>_. Sys (UClose p1) (\<lambda>_. Sys UWait (\<lambda>_. Sys UWait (\<lambda>_. Exit))))))
      | _ \<Rightarrow> sh_panic (ascii ''pipe''))"
| "runcmd (ABack c) = fork1 (\<lambda>pid. if pid = 0 then runcmd c else Exit)"

section \<open>The main loop\<close>

text \<open>\<open>getcmd\<close> with a buffer of 100 bytes, which \<open>memset\<close> clears: what is in it before the first NUL.  The loop ends
  when that is nothing.\<close>

definition getcmd :: "(u8 list \<Rightarrow> uproc) \<Rightarrow> uproc \<Rightarrow> uproc" where
  "getcmd k eof =
     puts 2 (ascii ''$ '') (gets 99 [] (\<lambda>buf. let s = takeWhile (\<lambda>c. c \<noteq> 0) buf in if s = [] then eof else k s))"

text \<open>What the child does with the line: parse it and run the command.\<close>

definition run_line :: "u8 list \<Rightarrow> uproc" where
  "run_line s =
     (case parsecmd s of
        Some (Ok (c, a)) \<Rightarrow> runcmd (view (\<lambda>t. string_at a (fst t)) c)
      | Some (Panic e) \<Rightarrow> puts 2 (leftovers s) (sh_panic (ascii e))
      | _ \<Rightarrow> Fault)"

primrec sh_loop :: "nat \<Rightarrow> uproc" where
  "sh_loop 0 = More"
| "sh_loop (Suc n) =
     getcmd (\<lambda>s.
       if take 3 s = ascii ''cd '' then
         let dir = butlast (drop 3 s) in
         Sys (UChdir dir) (\<lambda>r. if val r < 0 then puts 2 (ascii ''cannot cd '' @ dir @ [0x0A]) (sh_loop n) else sh_loop n)
       else fork1 (\<lambda>pid. if pid = 0 then run_line s else Sys UWait (\<lambda>_. sh_loop n)))
     Exit"

primrec open_console :: "nat \<Rightarrow> uproc \<Rightarrow> uproc" where
  "open_console 0 k = More"
| "open_console (Suc n) k =
     Sys (UOpen (ascii ''console'') 2) (\<lambda>fd. if val fd < 0 then k
       else if val fd \<ge> 3 then Sys (UClose (val fd)) (\<lambda>_. k) else open_console n k)"

definition sh_main :: "nat \<Rightarrow> uproc" where
  "sh_main n = open_console n (sh_loop n)"


section \<open>Descriptors\<close>

text \<open>What a descriptor refers to, and a process as the kernel sees it: its descriptors and the rest of its program.  A
  process that forks is followed on either side.  The kernel may fail any \<open>open\<close>, \<open>pipe\<close>, \<open>fork\<close> and \<open>exec\<close>; a
  descriptor that is handed out is the lowest that is free, below NOFILE = 16.\<close>

datatype fdobj = Terminal | OpenFile "u8 list" u32 | ReadEnd nat | WriteEnd nat

type_synonym fdtab = "int \<Rightarrow> fdobj option"

definition lowest :: "fdtab \<Rightarrow> int option" where
  "lowest t = find (\<lambda>i. t i = None) [0..15]"

inductive pstep :: "fdtab \<times> uproc \<Rightarrow> fdtab \<times> uproc \<Rightarrow> bool" where
  close: "pstep (t, Sys (UClose fd) k) (t(fd := None), k (Val (if t fd = None then -1 else 0)))"
| dup: "t fd = Some ob \<Longrightarrow> lowest t = Some j \<Longrightarrow> pstep (t, Sys (UDup fd) k) (t(j := Some ob), k (Val j))"
| dup_fails: "t fd = None \<or> lowest t = None \<Longrightarrow> pstep (t, Sys (UDup fd) k) (t, k (Val (-1)))"
| open_file: "lowest t = Some j \<Longrightarrow> pstep (t, Sys (UOpen f m) k) (t(j := Some (OpenFile f m)), k (Val j))"
| open_fails: "pstep (t, Sys (UOpen f m) k) (t, k (Val (-1)))"
| pipe: "lowest t = Some i \<Longrightarrow> lowest (t(i := Some (ReadEnd n))) = Some j \<Longrightarrow>
    pstep (t, Sys UPipe k) (t(i := Some (ReadEnd n), j := Some (WriteEnd n)), k (Ends i j))"
| pipe_fails: "pstep (t, Sys UPipe k) (t, k (Val (-1)))"
| forks: "-1 \<le> pid \<Longrightarrow> pstep (t, Sys UFork k) (t, k (Val pid))"
| other: "c \<notin> {UFork, UPipe} \<Longrightarrow> (\<And>fd. c \<noteq> UClose fd) \<Longrightarrow> (\<And>fd. c \<noteq> UDup fd) \<Longrightarrow> (\<And>f m. c \<noteq> UOpen f m) \<Longrightarrow>
    pstep (t, Sys c k) (t, k a)"

inductive_cases closeE: "pstep (t, Sys (UClose fd) k) s"
inductive_cases dupE: "pstep (t, Sys (UDup fd) k) s"
inductive_cases openE: "pstep (t, Sys (UOpen f m) k) s"
inductive_cases pipeE: "pstep (t, Sys UPipe k) s"
inductive_cases forkE: "pstep (t, Sys UFork k) s"
inductive_cases otherE: "pstep (t, Sys c k) s"
inductive_cases stuckE: "pstep (t, Exit) s"

text \<open>That a process comes to start the program \<open>argv\<close> with descriptors \<open>t'\<close>.\<close>

definition starts_prog :: "fdtab \<Rightarrow> uproc \<Rightarrow> fdtab \<Rightarrow> u8 list list \<Rightarrow> bool" where
  "starts_prog t p t' argv \<longleftrightarrow> (\<exists>path k. pstep\<^sup>*\<^sup>* (t, p) (t', Sys (UExec path argv) k))"

lemma starts_Exit [simp]: "\<not> starts_prog t Exit t' argv"
  by (auto simp: starts_prog_def elim: converse_rtranclpE stuckE)

lemma starts_Sys:
  assumes "starts_prog t (Sys c k) t' argv"
  obtains path where "c = UExec path argv" "t' = t"
  | t1 p1 where "pstep (t, Sys c k) (t1, p1)" "starts_prog t1 p1 t' argv"
proof -
  obtain path k' where r: "pstep\<^sup>*\<^sup>* (t, Sys c k) (t', Sys (UExec path argv) k')"
    using assms by (auto simp: starts_prog_def)
  show ?thesis
    using r
  proof (cases rule: converse_rtranclpE)
    case base
    then show ?thesis using that(1) by simp
  next
    case (step s)
    then show ?thesis using that(2) by (cases s) (auto simp: starts_prog_def)
  qed
qed

lemma starts_puts: "starts_prog t (puts fd s k) t' argv \<Longrightarrow> starts_prog t k t' argv"
proof (induction s)
  case (Cons c s)
  from Cons.prems[simplified] show ?case by (rule starts_Sys) (auto elim!: otherE intro: Cons.IH)
qed simp

text \<open>The descriptors a command prescribes for the programs in it.\<close>

inductive wired :: "acmd \<Rightarrow> fdtab \<Rightarrow> fdtab \<Rightarrow> u8 list list \<Rightarrow> bool" where
  exec: "wired (AExec argv) t t argv"
| redir: "wired c (t(int fd := Some (OpenFile f m))) t' argv \<Longrightarrow> wired (ARedir c f m fd) t t' argv"
| pipe_left: "wired l (t(1 := Some (WriteEnd n))) t' argv \<Longrightarrow> wired (APipe l r) t t' argv"
| pipe_right: "wired r (t(0 := Some (ReadEnd n))) t' argv \<Longrightarrow> wired (APipe l r) t t' argv"
| list_left: "wired l t t' argv \<Longrightarrow> wired (AList l r) t t' argv"
| list_right: "wired r t t' argv \<Longrightarrow> wired (AList l r) t t' argv"
| background: "wired c t t' argv \<Longrightarrow> wired (ABack c) t t' argv"

lemma upto_0_15: "[0..15] = [0, 1, 2, 3, 4, 5, 6, 7, 8, 9, 10, 11, 12, 13, 14, 15::int]"
  by (simp add: upto_rec1)

lemma lowest_0: "t 0 = None \<Longrightarrow> lowest t = Some 0"
  and lowest_1: "t 0 \<noteq> None \<Longrightarrow> t 1 = None \<Longrightarrow> lowest t = Some 1"
  by (simp_all add: lowest_def upto_0_15)

lemma lowest_free: "lowest t = Some i \<Longrightarrow> t i = None"
  by (auto simp: lowest_def find_Some_iff)

text \<open>What the two children do with the pipe.\<close>

lemma starts_close:
  "starts_prog t (Sys (UClose fd) (\<lambda>_. p)) t' argv \<Longrightarrow> starts_prog (t(fd := None)) p t' argv"
  by (erule starts_Sys) (auto elim!: closeE)

lemma starts_dup:
  assumes "starts_prog t (Sys (UDup fd) (\<lambda>_. p)) t' argv" and "t fd = Some ob" and "lowest t = Some j"
  shows "starts_prog (t(j := Some ob)) p t' argv"
  using assms by (auto elim!: starts_Sys dupE)

lemma starts_panic: "\<not> starts_prog t (sh_panic s) t' argv"
  unfolding sh_panic_def using starts_puts starts_Exit by blast

lemma starts_fork1:
  assumes "starts_prog t (fork1 (\<lambda>pid. if pid = 0 then a else b)) t' argv"
  shows "starts_prog t a t' argv \<or> starts_prog t b t' argv"
  using assms starts_panic unfolding fork1_def
  by (auto elim!: starts_Sys forkE split: if_splits)

lemma starts_wait: "starts_prog t (Sys UWait (\<lambda>_. p)) t' argv \<Longrightarrow> starts_prog t p t' argv"
  by (erule starts_Sys) (auto elim!: otherE)


lemma starts_redir:
  assumes "starts_prog t (runcmd (ARedir c f m fd)) t' argv" and "fd = 0 \<or> fd = 1 \<and> t 0 \<noteq> None"
  shows "starts_prog (t(int fd := Some (OpenFile f m))) (runcmd c) t' argv"
proof -
  let ?k = "\<lambda>r. if val r < 0 then puts 2 (ascii ''open '' @ f @ ascii '' failed'' @ [0x0A]) Exit else runcmd c"
  have l: "lowest (t(int fd := None)) = Some (int fd)" using assms(2) lowest_0 lowest_1 by auto
  have "starts_prog (t(int fd := None)) (Sys (UOpen f m) ?k) t' argv" using starts_close assms(1) by simp
  then show ?thesis
    using l by (auto elim!: starts_Sys openE dest!: starts_puts split: if_splits)
qed

lemma starts_pipe:
  assumes "starts_prog t (runcmd (APipe l r)) t' argv" and "t 0 \<noteq> None" and "t 1 \<noteq> None"
  shows "\<exists>n. starts_prog (t(1 := Some (WriteEnd n))) (runcmd l) t' argv \<or>
     starts_prog (t(0 := Some (ReadEnd n))) (runcmd r) t' argv"
proof -
  let ?left = "\<lambda>p0 p1. Sys (UClose 1) (\<lambda>_. Sys (UDup p1) (\<lambda>_. Sys (UClose p0) (\<lambda>_. Sys (UClose p1) (\<lambda>_. runcmd l))))"
  let ?right = "\<lambda>p0 p1. Sys (UClose 0) (\<lambda>_. Sys (UDup p0) (\<lambda>_. Sys (UClose p0) (\<lambda>_. Sys (UClose p1) (\<lambda>_. runcmd r))))"
  let ?parent = "\<lambda>p0 p1. Sys (UClose p0) (\<lambda>_. Sys (UClose p1) (\<lambda>_. Sys UWait (\<lambda>_. Sys UWait (\<lambda>_. Exit))))"
  let ?fork = "\<lambda>p0 p1. fork1 (\<lambda>pid. if pid = 0 then ?left p0 p1 else fork1 (\<lambda>pid. if pid = 0 then ?right p0 p1 else ?parent p0 p1))"
  have "\<exists>i j n. lowest t = Some i \<and> lowest (t(i := Some (ReadEnd n))) = Some j \<and>
      starts_prog (t(i := Some (ReadEnd n), j := Some (WriteEnd n))) (?fork i j) t' argv"
    using assms(1) unfolding runcmd.simps
    by (auto elim!: starts_Sys pipeE dest!: starts_puts simp: sh_panic_def) blast
  then obtain i j n where ij: "lowest t = Some i" "lowest (t(i := Some (ReadEnd n))) = Some j"
      and st: "starts_prog (t(i := Some (ReadEnd n), j := Some (WriteEnd n))) (?fork i j) t' argv" by blast
  let ?t = "t(i := Some (ReadEnd n), j := Some (WriteEnd n))"
  have free: "t i = None" "(t(i := Some (ReadEnd n))) j = None" using lowest_free [OF ij(1)] lowest_free [OF ij(2)] by auto
  have ne: "i \<noteq> 0" "i \<noteq> 1" "j \<noteq> 0" "j \<noteq> 1" "i \<noteq> j" "t j = None" using free assms(2,3) by (auto split: if_splits)
  have "starts_prog ?t (?left i j) t' argv \<or> starts_prog ?t (?right i j) t' argv \<or> starts_prog ?t (?parent i j) t' argv"
    using starts_fork1 [OF st] starts_fork1 [of ?t "?right i j" "?parent i j" t' argv] by blast
  moreover have "\<not> starts_prog ?t (?parent i j) t' argv"
    by (auto dest!: starts_close starts_wait)
  moreover have "starts_prog (t(1 := Some (WriteEnd n))) (runcmd l) t' argv" if "starts_prog ?t (?left i j) t' argv"
  proof -
    have "starts_prog (?t(1 := None)) (Sys (UDup j) (\<lambda>_. Sys (UClose i) (\<lambda>_. Sys (UClose j) (\<lambda>_. runcmd l)))) t' argv"
      using starts_close [OF that] .
    then have "starts_prog (?t(1 := None, 1 := Some (WriteEnd n))) (Sys (UClose i) (\<lambda>_. Sys (UClose j) (\<lambda>_. runcmd l))) t' argv"
      by (rule starts_dup) (use ne assms(2) lowest_1 in auto)
    then have "starts_prog (?t(1 := None, 1 := Some (WriteEnd n), i := None, j := None)) (runcmd l) t' argv"
      by (intro starts_close)
    moreover have "?t(1 := None, 1 := Some (WriteEnd n), i := None, j := None) = t(1 := Some (WriteEnd n))"
      using ne free by auto
    ultimately show ?thesis by simp
  qed
  moreover have "starts_prog (t(0 := Some (ReadEnd n))) (runcmd r) t' argv" if "starts_prog ?t (?right i j) t' argv"
  proof -
    have "starts_prog (?t(0 := None)) (Sys (UDup i) (\<lambda>_. Sys (UClose i) (\<lambda>_. Sys (UClose j) (\<lambda>_. runcmd r)))) t' argv"
      using starts_close [OF that] .
    then have "starts_prog (?t(0 := None, 0 := Some (ReadEnd n))) (Sys (UClose i) (\<lambda>_. Sys (UClose j) (\<lambda>_. runcmd r))) t' argv"
      by (rule starts_dup) (use ne lowest_0 in auto)
    then have "starts_prog (?t(0 := None, 0 := Some (ReadEnd n), i := None, j := None)) (runcmd r) t' argv"
      by (intro starts_close)
    moreover have "?t(0 := None, 0 := Some (ReadEnd n), i := None, j := None) = t(0 := Some (ReadEnd n))"
      using ne free by auto
    ultimately show ?thesis by simp
  qed
  ultimately show ?thesis by blast
qed

text \<open>C10. Whatever the kernel answers and whichever side of each fork is followed, a program that the shell starts for a
  command has exactly the descriptors the command prescribes: those of the shell, with descriptor 0 or 1 replaced by the
  file of each redirection around it and by its end of each pipe it is part of; no other end of a pipe is left open.\<close>

theorem runcmd_wired:
  assumes "wf_acmd c" and "t 0 \<noteq> None" and "t 1 \<noteq> None" and "starts_prog t (runcmd c) t' argv"
  shows "wired c t t' argv"
  using assms
proof (induction c arbitrary: t)
  case (AExec ws)
  have "t' = t \<and> argv = ws"
    using AExec.prems(4) by (cases ws) (auto elim!: starts_Sys otherE dest!: starts_puts)
  then show ?case by (auto intro: wired.exec)
next
  case (ARedir c f m fd)
  have fd: "fd = 0 \<or> fd = 1" using ARedir.prems(1) by (auto simp: wf_redir_def)
  then have st: "starts_prog (t(int fd := Some (OpenFile f m))) (runcmd c) t' argv"
    using starts_redir [OF ARedir.prems(4)] ARedir.prems(2) by auto
  have "wired c (t(int fd := Some (OpenFile f m))) t' argv"
    by (rule ARedir.IH [OF _ _ _ st]) (use ARedir.prems fd in auto)
  then show ?case by (rule wired.redir)
next
  case (APipe l r)
  then obtain n where "starts_prog (t(1 := Some (WriteEnd n))) (runcmd l) t' argv \<or>
     starts_prog (t(0 := Some (ReadEnd n))) (runcmd r) t' argv" using starts_pipe by blast
  then show ?case
  proof
    assume st: "starts_prog (t(1 := Some (WriteEnd n))) (runcmd l) t' argv"
    have "wired l (t(1 := Some (WriteEnd n))) t' argv" by (rule APipe.IH(1) [OF _ _ _ st]) (use APipe.prems in auto)
    then show ?thesis by (rule wired.pipe_left)
  next
    assume st: "starts_prog (t(0 := Some (ReadEnd n))) (runcmd r) t' argv"
    have "wired r (t(0 := Some (ReadEnd n))) t' argv" by (rule APipe.IH(2) [OF _ _ _ st]) (use APipe.prems in auto)
    then show ?thesis by (rule wired.pipe_right)
  qed
next
  case (AList l r)
  have "starts_prog t (runcmd l) t' argv \<or> starts_prog t (Sys UWait (\<lambda>_. runcmd r)) t' argv"
    by (rule starts_fork1) (use AList.prems(4) in simp)
  then show ?case using AList.IH AList.prems starts_wait by (auto intro: wired.list_left wired.list_right)
next
  case (ABack c)
  have "starts_prog t (runcmd c) t' argv \<or> starts_prog t Exit t' argv"
    by (rule starts_fork1) (use ABack.prems(4) in simp)
  then show ?case using ABack.IH ABack.prems by (auto intro: wired.background)
qed

definition some_fds :: fdtab where
  "some_fds = (\<lambda>i. if i \<in> {0, 1, 2} then Some Terminal else None)"

lemma some_start:
  "starts_prog some_fds (runcmd (ARedir (AExec [ascii ''wc'']) (ascii ''f'') SH_RDONLY 0))
     (some_fds(0 := Some (OpenFile (ascii ''f'') SH_RDONLY))) [ascii ''wc'']"
proof -
  let ?f = "ascii ''f''" and ?c = "runcmd (AExec [ascii ''wc''])"
  let ?k = "\<lambda>r. if val r < 0 then puts 2 (ascii ''open '' @ ?f @ ascii '' failed'' @ [0x0A]) Exit else ?c"
  let ?t = "some_fds(0 := None)"
  have s1: "pstep (some_fds, Sys (UClose (int 0)) (\<lambda>_. Sys (UOpen ?f SH_RDONLY) ?k)) (?t, Sys (UOpen ?f SH_RDONLY) ?k)"
    using pstep.close [of some_fds "int 0" "\<lambda>_. Sys (UOpen ?f SH_RDONLY) ?k"] by simp
  have s2: "pstep (?t, Sys (UOpen ?f SH_RDONLY) ?k) (?t(0 := Some (OpenFile ?f SH_RDONLY)), ?c)"
    using pstep.open_file [OF lowest_0, of ?t ?f SH_RDONLY ?k] by simp
  have "pstep\<^sup>*\<^sup>* (some_fds, runcmd (ARedir (AExec [ascii ''wc'']) ?f SH_RDONLY 0)) (?t(0 := Some (OpenFile ?f SH_RDONLY)), ?c)"
    unfolding runcmd.simps(2) by (rule converse_rtranclp_into_rtranclp [of pstep, OF s1]) (rule r_into_rtranclp [of pstep, OF s2])
  moreover have "?t(0 := Some (OpenFile ?f SH_RDONLY)) = some_fds(0 := Some (OpenFile ?f SH_RDONLY))" by simp
  ultimately show ?thesis
    unfolding starts_prog_def runcmd.simps(1) list.case by (simp only:) blast
qed

theorem runcmd_wired_witness:
  "wired (ARedir (AExec [ascii ''wc'']) (ascii ''f'') SH_RDONLY 0) some_fds
     (some_fds(0 := Some (OpenFile (ascii ''f'') SH_RDONLY))) [ascii ''wc'']"
  by (rule runcmd_wired [OF _ _ _ some_start])
    (simp_all add: some_fds_def wf_redir_def wf_word_def is_word_def in_whitespace in_symbols ascii_def MAXARGS_def)

end
