(* ===== verification/Spinlock.thy ===== *)
theory Spinlock
  imports Mmu
begin

text \<open>
  Spin locks, \<open>spinlock.c\<close>, and \<open>mycpu\<close> of \<open>proc.c\<close>, first as sequential functions, then as the steps of any number of
  processors that run them at the same time.  A processor that finds the lock taken spins; the function form of
  \<open>acquire\<close> returns \<open>Blocks\<close> there.  Which processor runs is given by its local APIC id, as in the source.
\<close>

section \<open>Definitions\<close>

text \<open>The interrupt flag of the processor and the two counters of \<open>struct cpu\<close> that the locks use.\<close>

record cpu =
  c_if :: bool
  c_ncli :: int
  c_intena :: bool

record spinlock =
  lk_locked :: bool
  lk_cpu :: "nat option"
  lk_pcs :: "u32 list"

definition initlock :: "spinlock \<Rightarrow> spinlock" where
  "initlock lk = lk\<lparr>lk_locked := False, lk_cpu := None\<rparr>"

text \<open>\<open>mycpu\<close>: \<open>ids\<close> are the APIC ids of \<open>cpus[]\<close>, \<open>apicid\<close> that of the processor that runs.\<close>

definition mycpu :: "u8 list \<Rightarrow> u8 \<Rightarrow> bool \<Rightarrow> nat res" where
  "mycpu ids apicid intr =
     (if intr then Panic ''mycpu called with interrupts enabled''
      else case List.find (\<lambda>i. ids ! i = apicid) [0..<length ids] of
             Some i \<Rightarrow> Ok i
           | None \<Rightarrow> Panic ''unknown apicid'')"

definition pushcli :: "cpu \<Rightarrow> cpu" where
  "pushcli c = (let eflags = c_if c; c = c\<lparr>c_if := False\<rparr>;
                    c = (if c_ncli c = 0 then c\<lparr>c_intena := eflags\<rparr> else c)
                in c\<lparr>c_ncli := c_ncli c + 1\<rparr>)"

definition popcli :: "cpu \<Rightarrow> cpu res" where
  "popcli c =
     (if c_if c then Panic ''popcli - interruptible''
      else let c = c\<lparr>c_ncli := c_ncli c - 1\<rparr> in
           if c_ncli c < 0 then Panic ''popcli''
           else if c_ncli c = 0 \<and> c_intena c then Ok (c\<lparr>c_if := True\<rparr>) else Ok c)"

definition holding :: "u8 list \<Rightarrow> u8 \<Rightarrow> cpu \<Rightarrow> spinlock \<Rightarrow> bool res" where
  "holding ids apicid c lk =
     (if lk_locked lk then bindr (mycpu ids apicid (c_if c)) (\<lambda>i. Ok (lk_cpu lk = Some i)) else Ok False)"

text \<open>\<open>getcallerpcs\<close> follows at most ten saved frame pointers above \<open>KERNBASE\<close>.\<close>

primrec callerpcs_loop :: "mem \<Rightarrow> nat \<Rightarrow> u32 \<Rightarrow> u32 list" where
  "callerpcs_loop m 0 ebp = []"
| "callerpcs_loop m (Suc i) ebp =
     (if ebp = 0 \<or> ebp < KERNBASE \<or> ebp = 0xFFFFFFFF then replicate (Suc i) 0
      else load32 m (ebp + 4) # callerpcs_loop m i (load32 m ebp))"

definition getcallerpcs :: "mem \<Rightarrow> u32 \<Rightarrow> u32 list" where
  "getcallerpcs m v = callerpcs_loop m 10 (v - 8)"

text \<open>The parts of \<open>acquire\<close>: up to the loop, the atomic exchange, and what follows it.\<close>

definition acquire_enter :: "u8 list \<Rightarrow> u8 \<Rightarrow> cpu \<Rightarrow> spinlock \<Rightarrow> cpu res" where
  "acquire_enter ids apicid c lk =
     (let c = pushcli c in bindr (holding ids apicid c lk) (\<lambda>h. if h then Panic ''acquire'' else Ok c))"

definition xchg_locked :: "spinlock \<Rightarrow> bool \<times> spinlock" where
  "xchg_locked lk = (lk_locked lk, lk\<lparr>lk_locked := True\<rparr>)"

definition acquire_record :: "mem \<Rightarrow> u32 \<Rightarrow> nat \<Rightarrow> spinlock \<Rightarrow> spinlock" where
  "acquire_record m v i lk = lk\<lparr>lk_cpu := Some i, lk_pcs := getcallerpcs m v\<rparr>"

definition acquire :: "mem \<Rightarrow> u32 \<Rightarrow> u8 list \<Rightarrow> u8 \<Rightarrow> cpu \<Rightarrow> spinlock \<Rightarrow> (cpu \<times> spinlock) res" where
  "acquire m v ids apicid c lk =
     bindr (acquire_enter ids apicid c lk) (\<lambda>c.
     let (old, lk) = xchg_locked lk in
     if old then Blocks ''acquire''
     else bindr (mycpu ids apicid (c_if c)) (\<lambda>i. Ok (c, acquire_record m v i lk)))"

text \<open>The parts of \<open>release\<close>: what the holder clears first, and the store that frees the lock.\<close>

definition release_clear :: "spinlock \<Rightarrow> spinlock" where
  "release_clear lk = lk\<lparr>lk_pcs := (lk_pcs lk)[0 := 0], lk_cpu := None\<rparr>"

definition release_store :: "spinlock \<Rightarrow> spinlock" where
  "release_store lk = lk\<lparr>lk_locked := False\<rparr>"

definition release :: "u8 list \<Rightarrow> u8 \<Rightarrow> cpu \<Rightarrow> spinlock \<Rightarrow> (cpu \<times> spinlock) res" where
  "release ids apicid c lk =
     bindr (holding ids apicid c lk) (\<lambda>h.
     if \<not> h then Panic ''release''
     else bindr (popcli c) (\<lambda>c. Ok (c, release_store (release_clear lk))))"

section \<open>Interrupts\<close>

lemma mycpu_self: "distinct ids \<Longrightarrow> i < length ids \<Longrightarrow> mycpu ids (ids ! i) False = Ok i"
proof -
  assume d: "distinct ids" "i < length ids"
  then have "List.find (\<lambda>j. ids ! j = ids ! i) [0..<length ids] = Some i"
    by (auto simp: find_Some_iff nth_eq_iff_index_eq intro!: exI [of _ i])
  then show ?thesis by (simp add: mycpu_def)
qed

lemma pushcli_simps [simp]:
  "c_if (pushcli c) = False" "c_ncli (pushcli c) = c_ncli c + 1"
  "c_intena (pushcli c) = (if c_ncli c = 0 then c_if c else c_intena c)"
  by (simp_all add: pushcli_def Let_def)

primrec popcli_n :: "nat \<Rightarrow> cpu \<Rightarrow> cpu res" where
  "popcli_n 0 c = Ok c"
| "popcli_n (Suc n) c = bindr (popcli c) (popcli_n n)"

lemma pushcli_n: "0 \<le> c_ncli c \<Longrightarrow> 0 < n \<Longrightarrow> (pushcli ^^ n) c =
    c\<lparr>c_if := False, c_ncli := c_ncli c + int n, c_intena := (if c_ncli c = 0 then c_if c else c_intena c)\<rparr>"
proof (induction n)
  case (Suc n)
  show ?case
  proof (cases n)
    case 0
    then show ?thesis by (simp add: pushcli_def Let_def)
  next
    case (Suc m)
    then show ?thesis using Suc.IH Suc.prems by (simp add: pushcli_def Let_def)
  qed
qed simp

lemma popcli_n_down:
  assumes "\<not> c_if c" "int n \<le> c_ncli c"
  shows "popcli_n n c = Ok (c\<lparr>c_ncli := c_ncli c - int n, c_if := (0 < n \<and> c_ncli c = int n \<and> c_intena c)\<rparr>)"
  using assms
proof (induction n arbitrary: c)
  case (Suc n)
  show ?case
  proof (cases n)
    case 0
    then show ?thesis using Suc.prems by (auto simp: popcli_def Let_def)
  next
    case (Suc k)
    then have "popcli c = Ok (c\<lparr>c_ncli := c_ncli c - 1\<rparr>)" using Suc.prems by (simp add: popcli_def Let_def)
    then show ?thesis using Suc.prems Suc.IH [of "c\<lparr>c_ncli := c_ncli c - 1\<rparr>"] Suc by (simp add: algebra_simps)
  qed
qed simp

text \<open>\<open>pushcli\<close> and \<open>popcli\<close> nest: after \<open>n\<close> calls of \<open>pushcli\<close> interrupts are off, fewer than \<open>n\<close> calls of \<open>popcli\<close> leave
  them off, \<open>n\<close> calls bring back exactly the state before, on or off, and one more panics.\<close>

theorem cli_nesting:
  assumes "c_ncli c = 0" "0 < n"
  shows "\<not> c_if ((pushcli ^^ n) c) \<and>
     (\<forall>k<n. \<exists>d. popcli_n k ((pushcli ^^ n) c) = Ok d \<and> \<not> c_if d) \<and>
     (\<exists>d. popcli_n n ((pushcli ^^ n) c) = Ok d \<and> c_if d = c_if c \<and> c_ncli d = 0 \<and> (\<exists>msg. popcli d = Panic msg))"
proof -
  let ?d = "(pushcli ^^ n) c"
  have d: "?d = c\<lparr>c_if := False, c_ncli := int n, c_intena := c_if c\<rparr>" using pushcli_n [of c n] assms by simp
  have "popcli_n k ?d = Ok (?d\<lparr>c_ncli := int n - int k, c_if := (0 < k \<and> n = k \<and> c_if c)\<rparr>)" if "k \<le> n" for k
    using popcli_n_down [of ?d k] that by (simp add: d)
  then show ?thesis using assms by (auto simp: d popcli_def Let_def)
qed

theorem cli_nesting_witness:
  "\<exists>d. popcli_n 3 ((pushcli ^^ 3) \<lparr>c_if = True, c_ncli = 0, c_intena = False\<rparr>) = Ok d \<and> c_if d"
  using cli_nesting [of "\<lparr>c_if = True, c_ncli = 0, c_intena = False\<rparr>" 3] by auto

section \<open>Several processors\<close>

text \<open>Where a processor is: outside the lock code, in the loop of \<open>acquire\<close>, between the exchange and the record, or between
  the two parts of \<open>release\<close>.\<close>

datatype 'l lockpc = Out | Spin 'l | Got 'l | Dropping 'l

record 'l machine =
  m_cpu :: "nat \<Rightarrow> cpu"
  m_lock :: "'l \<Rightarrow> spinlock"
  m_pc :: "nat \<Rightarrow> 'l lockpc"
  m_held :: "nat \<Rightarrow> 'l list"

definition at_cpu :: "nat \<Rightarrow> cpu \<Rightarrow> 'l lockpc \<Rightarrow> 'l list \<Rightarrow> 'l machine \<Rightarrow> 'l machine" where
  "at_cpu i c pc hs s = s\<lparr>m_cpu := (m_cpu s)(i := c), m_pc := (m_pc s)(i := pc), m_held := (m_held s)(i := hs)\<rparr>"

definition at_lock :: "'l \<Rightarrow> spinlock \<Rightarrow> 'l machine \<Rightarrow> 'l machine" where
  "at_lock l lk s = s\<lparr>m_lock := (m_lock s)(l := lk)\<rparr>"

inductive lock_step :: "u8 list \<Rightarrow> 'l machine \<Rightarrow> 'l machine \<Rightarrow> bool" for ids where
  enter: "i < length ids \<Longrightarrow> m_pc s i = Out \<Longrightarrow> acquire_enter ids (ids ! i) (m_cpu s i) (m_lock s l) = Ok c \<Longrightarrow>
    lock_step ids s (at_cpu i c (Spin l) (m_held s i) s)"
| exchange: "i < length ids \<Longrightarrow> m_pc s i = Spin l \<Longrightarrow> xchg_locked (m_lock s l) = (old, lk) \<Longrightarrow>
    lock_step ids s (at_lock l lk (at_cpu i (m_cpu s i) (if old then Spin l else Got l) (m_held s i) s))"
| record_owner: "i < length ids \<Longrightarrow> m_pc s i = Got l \<Longrightarrow> mycpu ids (ids ! i) (c_if (m_cpu s i)) = Ok j \<Longrightarrow>
    lock_step ids s (at_lock l (acquire_record m v j (m_lock s l)) (at_cpu i (m_cpu s i) Out (l # m_held s i) s))"
| clear: "i < length ids \<Longrightarrow> m_pc s i = Out \<Longrightarrow> holding ids (ids ! i) (m_cpu s i) (m_lock s l) = Ok True \<Longrightarrow>
    lock_step ids s (at_lock l (release_clear (m_lock s l)) (at_cpu i (m_cpu s i) (Dropping l) (m_held s i) s))"
| free_lock: "i < length ids \<Longrightarrow> m_pc s i = Dropping l \<Longrightarrow> popcli (m_cpu s i) = Ok c \<Longrightarrow>
    lock_step ids s (at_lock l (release_store (m_lock s l)) (at_cpu i c Out (remove1 l (m_held s i)) s))"
| set_if: "i < length ids \<Longrightarrow> m_pc s i = Out \<Longrightarrow> c_ncli (m_cpu s i) = 0 \<Longrightarrow>
    lock_step ids s (at_cpu i ((m_cpu s i)\<lparr>c_if := b\<rparr>) Out (m_held s i) s)"

inductive lock_reach :: "u8 list \<Rightarrow> 'l machine \<Rightarrow> 'l machine \<Rightarrow> bool" for ids where
  start: "lock_reach ids s s"
| step: "lock_reach ids s t \<Longrightarrow> lock_step ids t u \<Longrightarrow> lock_reach ids s u"

text \<open>The processor is in the critical section of a lock from its exchange to its store.\<close>

definition owns :: "'l machine \<Rightarrow> nat \<Rightarrow> 'l \<Rightarrow> bool" where
  "owns s i l \<longleftrightarrow> l \<in> set (m_held s i) \<or> m_pc s i = Got l"

definition locks_start :: "'l machine \<Rightarrow> bool" where
  "locks_start s \<longleftrightarrow> (\<forall>l. \<not> lk_locked (m_lock s l) \<and> lk_cpu (m_lock s l) = None) \<and>
     (\<forall>i. m_pc s i = Out \<and> m_held s i = [] \<and> c_ncli (m_cpu s i) = 0)"

definition cpu_ok :: "'l machine \<Rightarrow> nat \<Rightarrow> bool" where
  "cpu_ok s i \<longleftrightarrow> distinct (m_held s i) \<and>
     (case m_pc s i of Out \<Rightarrow> True | Spin l \<Rightarrow> l \<notin> set (m_held s i) | Got l \<Rightarrow> l \<notin> set (m_held s i) | Dropping l \<Rightarrow> l \<in> set (m_held s i)) \<and>
     c_ncli (m_cpu s i) = int (length (m_held s i)) + (case m_pc s i of Spin l \<Rightarrow> 1 | Got l \<Rightarrow> 1 | _ \<Rightarrow> 0) \<and>
     (0 < c_ncli (m_cpu s i) \<longrightarrow> \<not> c_if (m_cpu s i))"

definition lock_ok :: "u8 list \<Rightarrow> 'l machine \<Rightarrow> 'l \<Rightarrow> bool" where
  "lock_ok ids s l \<longleftrightarrow> (\<forall>i j. owns s i l \<longrightarrow> owns s j l \<longrightarrow> i = j) \<and>
     (lk_locked (m_lock s l) \<longleftrightarrow> (\<exists>i. owns s i l)) \<and>
     (\<forall>i. lk_cpu (m_lock s l) = Some i \<longleftrightarrow> l \<in> set (m_held s i) \<and> m_pc s i \<noteq> Dropping l)"

definition machine_ok :: "u8 list \<Rightarrow> 'l machine \<Rightarrow> bool" where
  "machine_ok ids s \<longleftrightarrow> (\<forall>i. cpu_ok s i) \<and> (\<forall>l. lock_ok ids s l)"

lemma machine_simps [simp]:
  "m_cpu (at_cpu i c pc hs s) = (m_cpu s)(i := c)" "m_pc (at_cpu i c pc hs s) = (m_pc s)(i := pc)"
  "m_held (at_cpu i c pc hs s) = (m_held s)(i := hs)" "m_lock (at_cpu i c pc hs s) = m_lock s"
  "m_cpu (at_lock l lk s) = m_cpu s" "m_pc (at_lock l lk s) = m_pc s"
  "m_held (at_lock l lk s) = m_held s" "m_lock (at_lock l lk s) = (m_lock s)(l := lk)"
  by (simp_all add: at_cpu_def at_lock_def)

lemma cpu_ok_other: "j \<noteq> i \<Longrightarrow> cpu_ok (at_cpu i c pc hs s) j = cpu_ok s j" "cpu_ok (at_lock l lk s) j = cpu_ok s j"
  by (simp_all add: cpu_ok_def cong: lockpc.case_cong)

lemma at_lock_same: "at_lock l (m_lock s l) (at_cpu i c pc hs s) = at_cpu i c pc hs s"
  by (simp add: at_lock_def at_cpu_def)

text \<open>A step of processor \<open>i\<close> that touches lock \<open>l\<close> only.\<close>

lemma update_ok:
  assumes ok: "machine_ok ids s" and t: "t = at_lock l lk (at_cpu i c pc hs s)"
    and i: "cpu_ok t i"
    and owner: "\<And>j. j \<noteq> i \<Longrightarrow> l \<in> set hs \<or> pc = Got l \<Longrightarrow> \<not> owns s j l"
    and locked: "lk_locked lk \<longleftrightarrow> (l \<in> set hs \<or> pc = Got l) \<or> (\<exists>j. j \<noteq> i \<and> owns s j l)"
    and owner_cpu: "\<And>j. lk_cpu lk = Some j \<longleftrightarrow>
      (if j = i then l \<in> set hs \<and> pc \<noteq> Dropping l else l \<in> set (m_held s j) \<and> m_pc s j \<noteq> Dropping l)"
    and others: "\<And>l'. l' \<noteq> l \<Longrightarrow> (l' \<in> set hs \<longleftrightarrow> l' \<in> set (m_held s i)) \<and> (pc = Got l' \<longleftrightarrow> m_pc s i = Got l') \<and>
      (pc = Dropping l' \<longleftrightarrow> m_pc s i = Dropping l')"
  shows "machine_ok ids t"
proof -
  have "cpu_ok t j" for j
    using i ok by (cases "j = i") (auto simp: t cpu_ok_other machine_ok_def)
  moreover have "lock_ok ids t l'" for l'
  proof (cases "l' = l")
    case True
    have o: "owns t j l = (if j = i then l \<in> set hs \<or> pc = Got l else owns s j l)" for j by (auto simp: t owns_def)
    have u: "owns s j l \<Longrightarrow> owns s k l \<Longrightarrow> j = k" for j k using ok by (simp add: machine_ok_def lock_ok_def)
    have "j = k" if "owns t j l" "owns t k l" for j k
      using that owner [of j] owner [of k] u [of j k] by (cases "j = i"; cases "k = i") (simp_all add: o)
    moreover have "lk_locked (m_lock t l) \<longleftrightarrow> (\<exists>j. owns t j l)" using locked unfolding o by (auto simp: t)
    moreover have "lk_cpu (m_lock t l) = Some j \<longleftrightarrow> l \<in> set (m_held t j) \<and> m_pc t j \<noteq> Dropping l" for j
      using owner_cpu [of j] by (simp add: t)
    ultimately show ?thesis unfolding True lock_ok_def by blast
  next
    case False
    have "owns t j l' = owns s j l'" "(l' \<in> set (m_held t j) \<and> m_pc t j \<noteq> Dropping l') = (l' \<in> set (m_held s j) \<and> m_pc s j \<noteq> Dropping l')" for j
      using others [OF False] by (auto simp: t owns_def)
    moreover have "m_lock t l' = m_lock s l'" "lock_ok ids s l'" using False ok by (simp_all add: t machine_ok_def)
    ultimately show ?thesis by (simp add: lock_ok_def)
  qed
  ultimately show ?thesis by (simp add: machine_ok_def)
qed

lemma machine_okD:
  assumes "machine_ok ids s"
  shows "cpu_ok s i" "owns s i l \<Longrightarrow> owns s j l \<Longrightarrow> i = j" "lk_locked (m_lock s l) \<longleftrightarrow> (\<exists>i. owns s i l)"
    "lk_cpu (m_lock s l) = Some i \<longleftrightarrow> l \<in> set (m_held s i) \<and> m_pc s i \<noteq> Dropping l"
  using assms unfolding machine_ok_def lock_ok_def by blast+

lemma owner_elsewhere: "machine_ok ids s \<Longrightarrow> \<not> owns s i l \<Longrightarrow> lk_locked (m_lock s l) \<longleftrightarrow> (\<exists>j. j \<noteq> i \<and> owns s j l)"
  using machine_okD(3) by metis

lemma sole_owner: "machine_ok ids s \<Longrightarrow> owns s i l \<Longrightarrow> j \<noteq> i \<Longrightarrow> \<not> owns s j l"
  using machine_okD(2) by metis

lemma lock_step_ok:
  assumes "lock_step ids s t" "distinct ids" and ok: "machine_ok ids s"
  shows "machine_ok ids t"
  using assms(1)
proof cases
  case (enter i l c)
  have c: "c = pushcli (m_cpu s i)" and l: "\<not> (lk_locked (m_lock s l) \<and> lk_cpu (m_lock s l) = Some i)"
    using enter mycpu_self [OF assms(2), of i] by (auto simp: acquire_enter_def holding_def Let_def split: if_splits)
  have nh: "l \<notin> set (m_held s i)"
    using l enter machine_okD(3,4) [OF ok, of l] by (metis lockpc.distinct(5) owns_def)
  then have no: "\<not> owns s i l" using enter by (simp add: owns_def)
  show ?thesis
  proof (rule update_ok [OF ok])
    show "t = at_lock l (m_lock s l) (at_cpu i c (Spin l) (m_held s i) s)" using enter by (simp add: at_lock_same)
    show "cpu_ok t i" using machine_okD(1) [OF ok, of i] nh c enter by (simp add: cpu_ok_def)
  qed (use nh owner_elsewhere [OF ok no] machine_okD(4) [OF ok] enter in auto)
next
  case (exchange i l old lk)
  then have nh: "l \<notin> set (m_held s i)" using machine_okD(1) [OF ok, of i] by (simp add: cpu_ok_def)
  then have no: "\<not> owns s i l" using exchange by (simp add: owns_def)
  have lk: "lk_locked lk" "lk_cpu lk = lk_cpu (m_lock s l)" "old = lk_locked (m_lock s l)"
    using exchange by (auto simp: xchg_locked_def)
  show ?thesis
  proof (rule update_ok [OF ok exchange(1)])
    show "cpu_ok t i" using machine_okD(1) [OF ok, of i] exchange by (simp add: cpu_ok_def)
  qed (use nh lk owner_elsewhere [OF ok no] machine_okD(4) [OF ok] exchange in \<open>auto split: if_splits\<close>)
next
  case (record_owner i l j m v)
  then have "\<not> c_if (m_cpu s i)" using machine_okD(1) [OF ok, of i] by (simp add: cpu_ok_def)
  then have j: "j = i" using mycpu_self [OF assms(2), of i] record_owner by simp
  have o: "owns s i l" using record_owner by (simp add: owns_def)
  have n: "l \<notin> set (m_held s k)" if "k \<noteq> i" for k using sole_owner [OF ok o that] by (simp add: owns_def)
  show ?thesis
  proof (rule update_ok [OF ok record_owner(1)])
    show "cpu_ok t i" using machine_okD(1) [OF ok, of i] record_owner by (simp add: cpu_ok_def)
  qed (use n j o sole_owner [OF ok o] machine_okD(3) [OF ok, of l] record_owner in \<open>auto simp: acquire_record_def\<close>)
next
  case (clear i l)
  have "lk_locked (m_lock s l)" "lk_cpu (m_lock s l) = Some i"
    using clear mycpu_self [OF assms(2), of i] by (auto simp: holding_def mycpu_def split: if_splits)
  then have h: "l \<in> set (m_held s i)" "lk_locked (m_lock s l)" using machine_okD(4) [OF ok] by auto
  then have o: "owns s i l" by (simp add: owns_def)
  have n: "l \<notin> set (m_held s k)" if "k \<noteq> i" for k using sole_owner [OF ok o that] by (simp add: owns_def)
  show ?thesis
  proof (rule update_ok [OF ok clear(1)])
    show "cpu_ok t i" using machine_okD(1) [OF ok, of i] clear h by (simp add: cpu_ok_def)
  qed (use n h o sole_owner [OF ok o] clear in \<open>auto simp: release_clear_def\<close>)
next
  case (free_lock i l c)
  have s: "cpu_ok s i" by (rule machine_okD(1) [OF ok])
  then have h: "l \<in> set (m_held s i)" "l \<notin> set (remove1 l (m_held s i))" using free_lock by (simp_all add: cpu_ok_def)
  then have o: "owns s i l" by (simp add: owns_def)
  have n: "l \<notin> set (m_held s k)" if "k \<noteq> i" for k using sole_owner [OF ok o that] by (simp add: owns_def)
  have "length (m_held s i) = Suc (length (remove1 l (m_held s i)))" using h(1) length_pos_if_in_set [OF h(1)] by (simp add: length_remove1)
  moreover have "c_ncli c = c_ncli (m_cpu s i) - 1" "0 < c_ncli c \<longrightarrow> \<not> c_if c"
    using free_lock by (auto simp: popcli_def Let_def split: if_splits)
  ultimately have c: "cpu_ok t i" using s free_lock by (simp add: cpu_ok_def)
  have lk: "lk_cpu (m_lock s l) = None"
    using machine_okD(4) [OF ok, of l] free_lock n by (metis option.exhaust)
  show ?thesis
    by (rule update_ok [OF ok free_lock(1) c])
      (use n h lk sole_owner [OF ok o] free_lock in \<open>auto simp: release_store_def\<close>)
next
  case (set_if i b)
  define l where "l = (undefined :: 'a)"
  show ?thesis
  proof (rule update_ok [OF ok])
    show "t = at_lock l (m_lock s l) (at_cpu i ((m_cpu s i)\<lparr>c_if := b\<rparr>) Out (m_held s i) s)" using set_if by (simp add: at_lock_same)
    show "cpu_ok t i" using machine_okD(1) [OF ok, of i] set_if by (simp add: cpu_ok_def)
    show "\<not> owns s j l" if "j \<noteq> i" "l \<in> set (m_held s i) \<or> Out = Got l" for j
      using sole_owner [OF ok, of i l j] that by (simp add: owns_def)
    show "lk_locked (m_lock s l) \<longleftrightarrow> (l \<in> set (m_held s i) \<or> Out = Got l) \<or> (\<exists>j. j \<noteq> i \<and> owns s j l)"
      using machine_okD(3) [OF ok, of l] set_if by (metis lockpc.distinct(3) owns_def)
  qed (use machine_okD(4) [OF ok, of l] set_if in auto)
qed

lemma lock_reach_ok: "lock_reach ids s t \<Longrightarrow> distinct ids \<Longrightarrow> machine_ok ids s \<Longrightarrow> machine_ok ids t"
  by (induction rule: lock_reach.induct) (auto intro: lock_step_ok)

lemma locks_start_ok: "locks_start s \<Longrightarrow> machine_ok ids s"
  by (simp add: locks_start_def machine_ok_def cpu_ok_def lock_ok_def owns_def)

text \<open>C6. Mutual exclusion, on any number of processors in any interleaving, at the granularity of the atomic exchange and the
  releasing store: two processors are never in the critical section of the same lock, a processor in one has interrupts
  off, \<open>acquire\<close> of a lock the processor holds panics, and \<open>release\<close> of one it does not hold panics.\<close>

theorem spinlock_mutex:
  assumes "distinct ids" "locks_start s" "lock_reach ids s t" "i < length ids"
  shows "(\<forall>j. owns t i l \<longrightarrow> owns t j l \<longrightarrow> i = j) \<and> (owns t i l \<longrightarrow> \<not> c_if (m_cpu t i)) \<and>
     (m_pc t i = Out \<and> owns t i l \<longrightarrow> acquire_enter ids (ids ! i) (m_cpu t i) (m_lock t l) = Panic ''acquire'') \<and>
     (m_pc t i = Out \<and> \<not> owns t i l \<and> \<not> c_if (m_cpu t i) \<longrightarrow> release ids (ids ! i) (m_cpu t i) (m_lock t l) = Panic ''release'')"
proof -
  have ok: "machine_ok ids t" using lock_reach_ok [OF assms(3,1) locks_start_ok [OF assms(2)]] .
  note my = mycpu_self [OF assms(1,4)]
  have 1: "\<not> c_if (m_cpu t i)" if "owns t i l"
  proof -
    have "0 < c_ncli (m_cpu t i)" using machine_okD(1) [OF ok, of i] that
      by (cases "m_held t i") (simp_all add: cpu_ok_def owns_def split: lockpc.splits)
    then show ?thesis using machine_okD(1) [OF ok, of i] by (simp add: cpu_ok_def)
  qed
  have 2: "acquire_enter ids (ids ! i) (m_cpu t i) (m_lock t l) = Panic ''acquire''" if "m_pc t i = Out" "owns t i l"
    
  proof -
    have "lk_locked (m_lock t l)" "lk_cpu (m_lock t l) = Some i" using machine_okD(3,4) [OF ok, of l] that by (auto simp: owns_def)
    then show ?thesis using my by (simp add: acquire_enter_def holding_def Let_def)
  qed
  have 3: "release ids (ids ! i) (m_cpu t i) (m_lock t l) = Panic ''release''"
    if "m_pc t i = Out" "\<not> owns t i l" "\<not> c_if (m_cpu t i)"
    using machine_okD(4) [OF ok, of l i] that my by (auto simp: release_def holding_def owns_def)
  show ?thesis using 1 2 3 machine_okD(2) [OF ok, of i l] by blast
qed

definition two_cpus :: "nat machine" where
  "two_cpus = \<lparr>m_cpu = \<lambda>_. \<lparr>c_if = True, c_ncli = 0, c_intena = False\<rparr>, m_lock = \<lambda>_. \<lparr>lk_locked = False, lk_cpu = None, lk_pcs = []\<rparr>,
     m_pc = \<lambda>_. Out, m_held = \<lambda>_. []\<rparr>"

lemma two_cpus_acquire: "\<exists>t. lock_reach [0, 1] two_cpus t \<and> owns t 0 5"
proof -
  let ?c = "pushcli (m_cpu two_cpus 0)"
  let ?s = "at_cpu 0 ?c (Spin 5) [] two_cpus"
  have "acquire_enter [0, 1] ([0, 1] ! 0) (m_cpu two_cpus 0) (m_lock two_cpus 5) = Ok ?c"
    by (simp add: acquire_enter_def holding_def two_cpus_def Let_def)
  then have "lock_step [0, 1] two_cpus ?s"
    using lock_step.enter [of 0 "[0, 1]" two_cpus 5 ?c] by (simp add: two_cpus_def)
  moreover have "lock_step [0, 1] ?s (at_lock 5 \<lparr>lk_locked = True, lk_cpu = None, lk_pcs = []\<rparr> (at_cpu 0 ?c (Got 5) [] ?s))"
    using lock_step.exchange [of 0 "[0, 1]" ?s 5 False "\<lparr>lk_locked = True, lk_cpu = None, lk_pcs = []\<rparr>"]
    by (simp add: two_cpus_def xchg_locked_def)
  ultimately have "lock_reach [0, 1] two_cpus (at_lock 5 \<lparr>lk_locked = True, lk_cpu = None, lk_pcs = []\<rparr> (at_cpu 0 ?c (Got 5) [] ?s))"
    by (rule lock_reach.step [OF lock_reach.step [OF lock_reach.start]])
  then show ?thesis by (intro exI conjI) (assumption, simp add: owns_def)
qed

theorem spinlock_mutex_witness:
  "\<exists>t. lock_reach [0, 1] two_cpus t \<and> owns t 0 5 \<and> \<not> owns t 1 5 \<and> \<not> c_if (m_cpu t 0)"
proof -
  obtain t where t: "lock_reach [0, 1] two_cpus t" "owns t 0 5" using two_cpus_acquire by blast
  have "locks_start two_cpus" by (simp add: locks_start_def two_cpus_def)
  then have "(\<forall>j. owns t 0 5 \<longrightarrow> owns t j 5 \<longrightarrow> 0 = j) \<and> (owns t 0 5 \<longrightarrow> \<not> c_if (m_cpu t 0))"
    using spinlock_mutex [of "[0, 1]" two_cpus t 0 5] t by simp
  then show ?thesis using t by auto
qed

end
