(* ===== verification/Trap.thy ===== *)
theory Trap
  imports Proc Syscall
begin

text \<open>
  Traps, \<open>trap.c\<close>, and the system calls on processes, \<open>sysproc.c\<close>.  The system call dispatcher and
  the handlers of the disk, keyboard and serial interrupts are parameters of \<open>trap\<close>.  Its result says
  whether control goes back to what was interrupted, the process has exited, or it has given up the
  processor; \<open>trap_resume\<close> is what is left of \<open>trap\<close> when it runs again.
\<close>

unbundle bit_operations_syntax

section \<open>Definitions\<close>

subsection \<open>System calls on processes\<close>

definition sys_fork :: "symbols \<Rightarrow> 'a kstate_scheme \<Rightarrow> (int \<times> 'a kstate_scheme) res" where
  "sys_fork sy st = fork sy st"

definition sys_exit :: "'a kstate_scheme \<Rightarrow> 'a kstate_scheme res" where
  "sys_exit st = exit st"

definition sys_wait :: "'a kstate_scheme \<Rightarrow> (int \<times> 'a kstate_scheme) res" where
  "sys_wait st = wait st"

text \<open>When the target is the caller, the flag that counts is the one held in the state.\<close>

definition sys_kill :: "ucontext \<Rightarrow> 'a kstate_scheme \<Rightarrow> int \<times> 'a kstate_scheme" where
  "sys_kill u st =
     (case argint u 0 of
        None \<Rightarrow> (-1, st)
      | Some pid \<Rightarrow>
          let (r, t) = kill (sint pid) (ptable st)
          in (r, st\<lparr>ptable := t, killed := (case curproc st of Some c \<Rightarrow> killed st \<or> p_killed (t c) | None \<Rightarrow> killed st)\<rparr>))"

definition sys_getpid :: "'a kstate_scheme \<Rightarrow> int res" where
  "sys_getpid st = with_cur st (\<lambda>cur. Ok (p_pid (ptable st cur)))"

definition sys_sbrk :: "ucontext \<Rightarrow> 'a kstate_scheme \<Rightarrow> (int \<times> 'a kstate_scheme) res" where
  "sys_sbrk u st =
     (case argint u 0 of
        None \<Rightarrow> Ok (-1, st)
      | Some n \<Rightarrow>
          with_cur st (\<lambda>cur.
            let addr = sint (p_sz (ptable st cur)) in
            bindr (growproc (sint n) st) (\<lambda>(r, st). if r < 0 then Ok (-1, st) else Ok (addr, st))))"

text \<open>One round of the loop of \<open>sys_sleep\<close>: \<open>None\<close> when the process has to sleep on.  The comparison
  is between unsigned numbers.\<close>

definition sleep_round :: "u32 \<Rightarrow> u32 \<Rightarrow> 'a kstate_scheme \<Rightarrow> int option" where
  "sleep_round ticks0 n st = (if ticks st - ticks0 < n then if killed st then Some (-1) else None else Some 0)"

definition sys_sleep :: "ucontext \<Rightarrow> 'a kstate_scheme \<Rightarrow> int res" where
  "sys_sleep u st =
     (case argint u 0 of
        None \<Rightarrow> Ok (-1)
      | Some n \<Rightarrow> (case sleep_round (ticks st) n st of Some r \<Rightarrow> Ok r | None \<Rightarrow> Blocks ''ticks''))"

definition sys_uptime :: "'a kstate_scheme \<Rightarrow> int" where
  "sys_uptime st = sint (ticks st)"

subsection \<open>Traps\<close>

datatype trap_end = Resumes | Exited | Yields

definition exit_if_killed :: "u16 \<Rightarrow> 'a kstate_scheme \<Rightarrow> (trap_end \<times> 'a kstate_scheme) res" where
  "exit_if_killed cs st =
     (if curproc st \<noteq> None \<and> killed st \<and> cs AND 3 = 3
      then bindr (exit st) (\<lambda>st. Ok (Exited, st)) else Ok (Resumes, st))"

definition trap_resume :: "u16 \<Rightarrow> 'a kstate_scheme \<Rightarrow> (trap_end \<times> 'a kstate_scheme) res" where
  "trap_resume cs st = exit_if_killed cs st"

datatype irq = Ide_irq | Kbd_irq | Uart_irq

text \<open>The \<open>switch\<close> on the trap number.\<close>

definition trap_switch ::
  "(irq \<Rightarrow> 'a kstate_scheme \<Rightarrow> 'a kstate_scheme) \<Rightarrow> nat \<Rightarrow> u32 \<Rightarrow> u16 \<Rightarrow> 'a kstate_scheme \<Rightarrow> 'a kstate_scheme res" where
  "trap_switch handler cpu trapno cs st =
     (if trapno = 32 + 0
      then Ok (if cpu = 0 then wakeup Ticks_chan (st\<lparr>ticks := ticks st + 1\<rparr>) else st)
      else if trapno = 32 + 14 then Ok (handler Ide_irq st)
      else if trapno = 32 + 14 + 1 then Ok st
      else if trapno = 32 + 1 then Ok (handler Kbd_irq st)
      else if trapno = 32 + 4 then Ok (handler Uart_irq st)
      else if trapno = 32 + 7 \<or> trapno = 32 + 31 then Ok st
      else if curproc st = None \<or> cs AND 3 = 0 then Panic ''trap''
      else Ok (st\<lparr>killed := True\<rparr>))"

definition running :: "'a kstate_scheme \<Rightarrow> bool" where
  "running st \<longleftrightarrow> (case curproc st of None \<Rightarrow> False | Some c \<Rightarrow> p_state (ptable st c) = RUNNING)"

definition trap_syscall ::
  "('a kstate_scheme \<Rightarrow> 'a kstate_scheme res) \<Rightarrow> u32 \<Rightarrow> 'a kstate_scheme \<Rightarrow> (trap_end \<times> 'a kstate_scheme) res" where
  "trap_syscall sysc tf st =
     with_cur st (\<lambda>cur.
       if killed st then bindr (exit st) (\<lambda>st. Ok (Exited, st))
       else
         let st = st\<lparr>ptable := upd_proc (ptable st) cur (\<lambda>p. p\<lparr>p_tf := tf\<rparr>)\<rparr> in
         bindr (sysc st) (\<lambda>st. if killed st then bindr (exit st) (\<lambda>st. Ok (Exited, st)) else Ok (Resumes, st)))"

definition trap ::
  "('a kstate_scheme \<Rightarrow> 'a kstate_scheme res) \<Rightarrow> (irq \<Rightarrow> 'a kstate_scheme \<Rightarrow> 'a kstate_scheme) \<Rightarrow> nat \<Rightarrow> u32 \<Rightarrow> u32 \<Rightarrow> u16 \<Rightarrow>
   'a kstate_scheme \<Rightarrow> (trap_end \<times> 'a kstate_scheme) res" where
  "trap sysc handler cpu tf trapno cs st =
     (if trapno = 64 then trap_syscall sysc tf st
      else
        bindr (trap_switch handler cpu trapno cs st) (\<lambda>st.
        bindr (exit_if_killed cs st) (\<lambda>(e, st).
        if e = Exited then Ok (Exited, st)
        else if running st \<and> trapno = 32 then bindr (yield st) (\<lambda>st. Ok (Yields, st))
        else trap_resume cs st)))"

end
