(* ===== verification/Umalloc.thy ===== *)
theory Umalloc
  imports Prelude
begin

text \<open>
  The storage allocator of user programs (\<open>umalloc.c\<close>): a circular list of free blocks in order of address, each with
  a header of 8 bytes that holds the next free block and the size in units of 8 bytes.  The fields of the headers are
  maps from addresses, and the head \<open>base\<close> of the list is a header of size 0 below the heap.  \<open>sbrk\<close> is the system call:
  it changes the end of the process by a signed number of bytes and returns the old end, or fails; a parameter gives
  the new end.
\<close>

unbundle bit_operations_syntax

section \<open>Definitions\<close>

record uheap =
  hptr :: "u32 \<Rightarrow> u32"
  hsize :: "u32 \<Rightarrow> u32"
  freep :: u32
  brk :: u32

text \<open>\<open>p + n\<close> on \<open>Header\<close> pointers.\<close>

definition unit_add :: "u32 \<Rightarrow> u32 \<Rightarrow> u32" where
  "unit_add p n = p + 8 * n"

abbreviation "set_ptr p q s \<equiv> s\<lparr>hptr := (hptr s)(p := q)\<rparr>"
abbreviation "set_size p n s \<equiv> s\<lparr>hsize := (hsize s)(p := n)\<rparr>"

text \<open>The loop that looks for the place of \<open>bp\<close>; it need not end on a list that is not in order.\<close>

partial_function (option) free_place :: "uheap \<Rightarrow> u32 \<Rightarrow> u32 \<Rightarrow> u32 option" where
  "free_place s bp p =
     (if bp > p \<and> bp < hptr s p then Some p
      else if p \<ge> hptr s p \<and> (bp > p \<or> bp < hptr s p) then Some p
      else free_place s bp (hptr s p))"

text \<open>Joining the block to the one above, and then to the one below.\<close>

definition join_upper :: "u32 \<Rightarrow> u32 \<Rightarrow> uheap \<Rightarrow> uheap" where
  "join_upper bp p s =
     (let next = hptr s p in
      if unit_add bp (hsize s bp) = next
      then let s = set_size bp (hsize s bp + hsize s next) s in set_ptr bp (hptr s next) s
      else set_ptr bp next s)"

definition join_lower :: "u32 \<Rightarrow> u32 \<Rightarrow> uheap \<Rightarrow> uheap" where
  "join_lower bp p s =
     (if unit_add p (hsize s p) = bp
      then let s = set_size p (hsize s p + hsize s bp) s in set_ptr p (hptr s bp) s
      else set_ptr p bp s)"

definition free :: "u32 \<Rightarrow> uheap \<Rightarrow> uheap option" where
  "free ap s =
     (let bp = ap - 8 in
      case free_place s bp (freep s) of
        None \<Rightarrow> None
      | Some p \<Rightarrow> Some (join_lower bp p (join_upper bp p s)\<lparr>freep := p\<rparr>))"

text \<open>\<open>sbrk\<close> as the process sees it; the argument is signed.\<close>

definition sbrk :: "(u32 \<Rightarrow> int \<Rightarrow> u32 option) \<Rightarrow> u32 \<Rightarrow> uheap \<Rightarrow> (u32 \<times> uheap) option" where
  "sbrk grows n s = (case grows (brk s) (sint n) of None \<Rightarrow> None | Some b \<Rightarrow> Some (brk s, s\<lparr>brk := b\<rparr>))"

text \<open>\<open>morecore\<close>: the new value of \<open>freep\<close>, or 0.\<close>

definition morecore :: "(u32 \<Rightarrow> int \<Rightarrow> u32 option) \<Rightarrow> u32 \<Rightarrow> uheap \<Rightarrow> (u32 \<times> uheap) option" where
  "morecore grows nu s =
     (let nu = (if nu < 4096 then 4096 else nu) in
      case sbrk grows (nu * 8) s of
        None \<Rightarrow> Some (0, s)
      | Some (p, s) \<Rightarrow> (case free (p + 8) (set_size p nu s) of None \<Rightarrow> None | Some s \<Rightarrow> Some (freep s, s)))"

text \<open>Taking \<open>nunits\<close> from the block \<open>p\<close>: the whole block, or its tail.\<close>

definition carve :: "u32 \<Rightarrow> u32 \<Rightarrow> u32 \<Rightarrow> uheap \<Rightarrow> u32 \<times> uheap" where
  "carve nunits prevp p s =
     (if hsize s p = nunits then (p + 8, (set_ptr prevp (hptr s p) s)\<lparr>freep := prevp\<rparr>)
      else let s = set_size p (hsize s p - nunits) s;
               q = unit_add p (hsize s p);
               s = set_size q nunits s
           in (q + 8, s\<lparr>freep := prevp\<rparr>))"

partial_function (option) malloc_loop :: "(u32 \<Rightarrow> int \<Rightarrow> u32 option) \<Rightarrow> u32 \<Rightarrow> u32 \<Rightarrow> u32 \<Rightarrow> uheap \<Rightarrow> (u32 \<times> uheap) option" where
  "malloc_loop grows nunits prevp p s =
     (if hsize s p \<ge> nunits then Some (carve nunits prevp p s)
      else if p = freep s then
        (case morecore grows nunits s of
           None \<Rightarrow> None
         | Some (p, s) \<Rightarrow> if p = 0 then Some (0, s) else malloc_loop grows nunits p (hptr s p) s)
      else malloc_loop grows nunits p (hptr s p) s)"

definition units_for :: "u32 \<Rightarrow> u32" where
  "units_for nbytes = (nbytes + 8 - 1) div 8 + 1"

text \<open>\<open>base\<close> is the address the linker gives the static header.\<close>

definition malloc :: "(u32 \<Rightarrow> int \<Rightarrow> u32 option) \<Rightarrow> u32 \<Rightarrow> u32 \<Rightarrow> uheap \<Rightarrow> (u32 \<times> uheap) option" where
  "malloc grows base nbytes s =
     (let s = (if freep s = 0 then (set_size base 0 (set_ptr base base s))\<lparr>freep := base\<rparr> else s);
          prevp = freep s
      in malloc_loop grows (units_for nbytes) prevp (hptr s prevp) s)"

section \<open>The list of free blocks\<close>

text \<open>\<open>links s x xs y\<close>: from \<open>x\<close> the pointers go through \<open>xs\<close> and come to \<open>y\<close>.\<close>

primrec links :: "uheap \<Rightarrow> u32 \<Rightarrow> u32 list \<Rightarrow> u32 \<Rightarrow> bool" where
  "links s x [] y \<longleftrightarrow> x = y"
| "links s x (a # as) y \<longleftrightarrow> x = a \<and> links s (hptr s a) as y"

lemma links_append [simp]: "links s x (as @ bs) y \<longleftrightarrow> (\<exists>z. links s x as z \<and> links s z bs y)"
  by (induction as arbitrary: x) auto

lemma links_cong: "(\<And>a. a \<in> set as \<Longrightarrow> hptr s' a = hptr s a) \<Longrightarrow> links s' x as y = links s x as y"
  by (induction as arbitrary: x) auto

text \<open>The addresses of the bytes of a block, and the header at its start included.\<close>

definition extent :: "uheap \<Rightarrow> u32 \<Rightarrow> nat set" where
  "extent s a = {unat a ..< unat a + 8 * unat (hsize s a)}"

text \<open>A heap with circular list \<open>l\<close> of free blocks, headed by \<open>base\<close>, and allocated blocks \<open>al\<close>: the list is ascending,
  all blocks lie between \<open>base\<close> and the end of the process, are not empty and do not overlap.\<close>

definition laid_out :: "u32 \<Rightarrow> uheap \<Rightarrow> u32 set \<Rightarrow> bool" where
  "laid_out base s bs \<longleftrightarrow>
     (\<forall>a\<in>bs - {base}. unat base + 8 \<le> unat a \<and> 0 < unat (hsize s a) \<and> unat a + 8 * unat (hsize s a) \<le> unat (brk s)) \<and>
     (\<forall>a\<in>bs. \<forall>b\<in>bs. a \<noteq> b \<longrightarrow> extent s a \<inter> extent s b = {})"

definition heap_inv :: "u32 \<Rightarrow> uheap \<Rightarrow> u32 list \<Rightarrow> u32 set \<Rightarrow> bool" where
  "heap_inv base s l al \<longleftrightarrow>
     base \<noteq> 0 \<and> l \<noteq> [] \<and> hd l = base \<and> links s base l base \<and> sorted_wrt (<) l \<and> hsize s base = 0 \<and> set l \<inter> al = {} \<and>
     laid_out base s (set l \<union> al) \<and> unat base + 8 \<le> unat (brk s)"

text \<open>Between operations no two free blocks touch, and \<open>freep\<close> is on the list.\<close>

definition heap_ok :: "u32 \<Rightarrow> uheap \<Rightarrow> u32 list \<Rightarrow> u32 set \<Rightarrow> bool" where
  "heap_ok base s l al \<longleftrightarrow> heap_inv base s l al \<and> freep s \<in> set l \<and>
     (\<forall>a\<in>set l - {base}. \<forall>b\<in>set l - {base}. unat a + 8 * unat (hsize s a) \<noteq> unat b)"

lemma sorted_wrt_distinct: "sorted_wrt (<) (l :: u32 list) \<Longrightarrow> distinct l"
  by (induction l) auto

lemma heap_invD:
  assumes "heap_inv base s l al"
  shows "base \<noteq> 0" "l \<noteq> []" "hd l = base" "base \<in> set l" "links s base l base" "sorted_wrt (<) l" "distinct l" "hsize s base = 0"
    "set l \<inter> al = {}"
    "a \<in> set l \<union> al \<Longrightarrow> a \<noteq> base \<Longrightarrow> unat base + 8 \<le> unat a"
    "a \<in> set l \<union> al \<Longrightarrow> a \<noteq> base \<Longrightarrow> 0 < unat (hsize s a)"
    "a \<in> set l \<union> al \<Longrightarrow> a \<noteq> base \<Longrightarrow> unat a + 8 * unat (hsize s a) \<le> unat (brk s)"
    "a \<in> set l \<union> al \<Longrightarrow> b \<in> set l \<union> al \<Longrightarrow> a \<noteq> b \<Longrightarrow> extent s a \<inter> extent s b = {}"
    "laid_out base s (set l \<union> al)" "unat base + 8 \<le> unat (brk s)"
  using assms unfolding heap_inv_def laid_out_def by (auto intro: sorted_wrt_distinct hd_in_set)

lemma links_next: "links s x (us @ p # vs) y \<Longrightarrow> hptr s p = hd (vs @ [y])"
  by (cases vs) auto

section \<open>Finding the place\<close>

lemma free_place_at:
  assumes "links s base (us @ p # vs) base" and "sorted_wrt (<) (us @ p # vs)" and "hd (us @ p # vs) = base"
    and "p < bp" and "vs \<noteq> [] \<longrightarrow> bp < hd vs" and "q \<in> set (us @ p # vs)"
  shows "free_place s bp q = Some p"
proof -
  have base: "base \<le> p" using assms(2,3) by (cases us) (auto simp: sorted_wrt_append)
  have here: "free_place s bp p = Some p"
    using links_next [OF assms(1)] assms(4,5) base by (subst free_place.simps) (cases vs, auto)
  have before: "free_place s bp q = Some p" if "us = u1 @ q # u2" for u1 u2 q
    using that
  proof (induction u2 arbitrary: u1 q)
    case Nil
    then have "hptr s q = p" using links_next [of s base u1 q "p # vs"] assms(1) by auto
    moreover have "q < p" using assms(2) Nil by (auto simp: sorted_wrt_append)
    ultimately show ?case using here assms(4) by (subst free_place.simps) auto
  next
    case (Cons r u2)
    then have "hptr s q = r" using links_next [of s base u1 q "r # u2 @ p # vs"] assms(1) by auto
    moreover have "q < r" "r < p" using assms(2) Cons by (auto simp: sorted_wrt_append)
    moreover have "free_place s bp r = Some p" using Cons.IH [of "u1 @ [q]" r] Cons.prems by simp
    ultimately show ?case using assms(4) by (subst free_place.simps) auto
  qed
  have start: "free_place s bp base = Some p" using before [of "[]" base] here assms(3) by (cases us) auto
  have after: "free_place s bp q = Some p" if "vs = v1 @ q # v2" for v1 v2 q
    using that
  proof (induction v2 arbitrary: v1 q)
    case Nil
    then have "hptr s q = base" using links_next [of s base "us @ p # v1" q "[]"] assms(1) by auto
    moreover have "bp < q" using assms(2,5) Nil by (cases v1) (auto simp: sorted_wrt_append)
    moreover have "base < bp" using base assms(4) by simp
    ultimately show ?case using start by (subst free_place.simps) auto
  next
    case (Cons r v2)
    then have "hptr s q = r" using links_next [of s base "us @ p # v1" q "r # v2"] assms(1) by auto
    moreover have "bp < q" using assms(2,5) Cons by (cases v1) (auto simp: sorted_wrt_append)
    moreover have "q < r" using assms(2) Cons by (auto simp: sorted_wrt_append)
    moreover have "free_place s bp r = Some p" using Cons.IH [of "v1 @ [q]" r] Cons.prems by simp
    ultimately show ?case by (subst free_place.simps) auto
  qed
  show ?thesis using assms(6) here before after by (auto simp: in_set_conv_decomp)
qed

lemma place_exists:
  assumes "sorted_wrt (<) l" and "l \<noteq> []" and "hd l < (bp :: u32)" and "bp \<notin> set l"
  shows "\<exists>us p vs. l = us @ p # vs \<and> p < bp \<and> (vs \<noteq> [] \<longrightarrow> bp < hd vs)"
  using assms
proof (induction l)
  case (Cons a l)
  show ?case
  proof (cases "l \<noteq> [] \<and> hd l < bp")
    case True
    then obtain us p vs where "l = us @ p # vs" "p < bp" "vs \<noteq> [] \<longrightarrow> bp < hd vs" using Cons by auto
    then show ?thesis by (intro exI [of _ "a # us"] exI [of _ p] exI [of _ vs]) auto
  next
    case False
    then have "l \<noteq> [] \<longrightarrow> bp < hd l" using Cons.prems(4) by (cases l) auto
    then show ?thesis using Cons.prems by (intro exI [of _ "[]"] exI [of _ a] exI [of _ l]) auto
  qed
qed simp

section \<open>The four changes of the list\<close>

text \<open>Linking a block in after \<open>p\<close>, joining a block with the next one, and taking the block after \<open>prevp\<close> out.\<close>

definition link :: "u32 \<Rightarrow> u32 \<Rightarrow> uheap \<Rightarrow> uheap" where
  "link bp p s = set_ptr p bp (set_ptr bp (hptr s p) s)"

definition merge :: "u32 \<Rightarrow> uheap \<Rightarrow> uheap" where
  "merge a s = (let b = hptr s a in set_ptr a (hptr s b) (set_size a (hsize s a + hsize s b) s))"

lemma unat_unit_add: "unat a + 8 * unat n < 2 ^ 32 \<Longrightarrow> unat (unit_add a n) = unat a + 8 * unat n"
proof -
  assume a: "unat a + 8 * unat n < 2 ^ 32"
  have "unat (8 * n) = 8 * unat n" using a by (simp add: unat_word_ariths take_bit_nat_eq_self unat_mult_lem)
  then show ?thesis using a unat_add_lem [of a "8 * n", THEN iffD1] by (simp add: unit_add_def)
qed

lemma unit_add_eq_iff:
  "unat a + 8 * unat n \<le> unat (m :: u32) \<Longrightarrow> unit_add a n = b \<longleftrightarrow> unat a + 8 * unat n = unat b"
  using unat_unit_add [of a n] unat_u32_less [of m] by (simp add: word_unat_eq_iff)

lemma links_insert:
  assumes "links s x (us @ p # vs) y" and "bp \<notin> set (us @ p # vs)" and "distinct (us @ p # vs)"
  shows "links (link bp p s) x (us @ p # bp # vs) y"
proof -
  have "links s x us p" "links s (hptr s p) vs y" using assms(1) by auto
  moreover have "links (link bp p s) x us p = links s x us p"
    by (rule links_cong) (use assms(2,3) in \<open>auto simp: link_def\<close>)
  moreover have "links (link bp p s) (hptr s p) vs y = links s (hptr s p) vs y"
    by (rule links_cong) (use assms(2,3) in \<open>auto simp: link_def\<close>)
  ultimately show ?thesis using assms(2) by (auto simp: link_def)
qed

lemma links_remove:
  assumes "links s x (us @ a # b # vs) y" and "distinct (us @ a # b # vs)" and "\<And>c. c \<in> set us \<union> set vs \<Longrightarrow> hptr s' c = hptr s c" and "hptr s' a = hptr s b"
  shows "links s' x (us @ a # vs) y"
proof -
  have "links s x us a" "links s (hptr s b) vs y" using assms(1) by auto
  moreover have "links s' x us a = links s x us a" by (rule links_cong) (use assms(3) in blast)
  moreover have "links s' (hptr s b) vs y = links s (hptr s b) vs y" by (rule links_cong) (use assms(3) in blast)
  ultimately show ?thesis using assms(4) by auto
qed

lemma sorted_remove: "sorted_wrt (<) (us @ a # b # vs) \<Longrightarrow> sorted_wrt (<) (us @ a # (vs :: u32 list))"
  by (auto simp: sorted_wrt_append)

lemma extent_cong: "hsize s' a = hsize s a \<Longrightarrow> extent s' a = extent s a"
  by (simp add: extent_def)

lemma laid_out_cong: "hsize s' = hsize s \<Longrightarrow> brk s' = brk s \<Longrightarrow> laid_out base s' bs = laid_out base s bs"
  by (simp add: laid_out_def extent_def)

lemma link_inv:
  assumes "heap_inv base s (us @ p # vs) (insert bp al)" and "bp \<notin> al" and "p < bp" and "vs \<noteq> [] \<longrightarrow> bp < hd vs" and "bp \<noteq> base"
  shows "heap_inv base (link bp p s) (us @ p # bp # vs) al"
proof -
  note D = heap_invD [OF assms(1)]
  have bp: "bp \<notin> set (us @ p # vs)" using D(9) by auto
  have "sorted_wrt (<) (us @ p # bp # vs)"
    using D(6) assms(3,4) by (cases vs) (auto simp: sorted_wrt_append)
  moreover have "links (link bp p s) base (us @ p # bp # vs) base" by (rule links_insert [OF D(5) bp D(7)])
  moreover have e: "hsize (link bp p s) = hsize s" "brk (link bp p s) = brk s" by (simp_all add: link_def)
  moreover have "set (us @ p # bp # vs) \<union> al = set (us @ p # vs) \<union> insert bp al" by auto
  then have "laid_out base (link bp p s) (set (us @ p # bp # vs) \<union> al)" using laid_out_cong [OF e] D(14) by simp
  moreover have "hd (us @ p # bp # vs) = base" using D(3) by (cases us) auto
  ultimately show ?thesis
    using D(1,8,9,15) assms(2) unfolding heap_inv_def by auto
qed

lemma merge_inv:
  assumes "heap_inv base s (us @ a # b # vs) al" and "a \<noteq> base" and "unat a + 8 * unat (hsize s a) = unat b"
  shows "heap_inv base (merge a s) (us @ a # vs) al" "extent (merge a s) a = extent s a \<union> extent s b"
    "unat (hsize (merge a s) a) = unat (hsize s a) + unat (hsize s b)"
proof -
  note D = heap_invD [OF assms(1)]
  have base: "base \<in> set us" using D(3) assms(2) by (cases us) auto
  have b: "b \<noteq> a" "b \<notin> al" "a \<notin> al" "b \<notin> set us" "b \<notin> set vs" "a \<notin> set us" "a \<notin> set vs" using D(7,9) by auto
  have b': "hptr s a = b" "b \<noteq> base" using links_next [OF D(5)] base b(4) by auto
  have le: "unat b + 8 * unat (hsize s b) \<le> unat (brk s)" using D(12) [of b] b' by auto
  then have sz: "unat (hsize s a + hsize s b) = unat (hsize s a) + unat (hsize s b)"
    using assms(3) unat_u32_less [of "brk s"]
    by (intro unat_add_lem [THEN iffD1]) (simp del: unat_u32_less)
  show "unat (hsize (merge a s) a) = unat (hsize s a) + unat (hsize s b)" using b' sz by (simp add: merge_def Let_def)
  show ex: "extent (merge a s) a = extent s a \<union> extent s b"
    using b' b(1) assms(3) sz by (auto simp: merge_def Let_def extent_def)
  have same: "hsize (merge a s) c = hsize s c" "extent (merge a s) c = extent s c" if "c \<noteq> a" for c
    using that by (auto simp: merge_def Let_def extent_def)
  have disj: "extent (merge a s) c \<inter> extent (merge a s) d = {}" if "c \<in> set (us @ a # vs) \<union> al" "d \<in> set (us @ a # vs) \<union> al" "c \<noteq> d" for c d
  proof -
    have cd: "c \<noteq> b" "d \<noteq> b" "c \<in> set (us @ a # b # vs) \<union> al" "d \<in> set (us @ a # b # vs) \<union> al" using that b by auto
    have "b \<in> set (us @ a # b # vs) \<union> al" "a \<in> set (us @ a # b # vs) \<union> al" by auto
    then show ?thesis using cd that(3) D(13) [OF cd(3,4)] D(13) [of b c] D(13) [of b d] D(13) [of a c] D(13) [of a d] ex same
      by (cases "c = a"; cases "d = a") (auto simp: Int_Un_distrib Int_Un_distrib2)
  qed
  have bounds: "unat base + 8 \<le> unat c \<and> 0 < unat (hsize (merge a s) c) \<and> unat c + 8 * unat (hsize (merge a s) c) \<le> unat (brk (merge a s))"
    if "c \<in> set (us @ a # vs) \<union> al - {base}" for c
  proof -
    have c: "c \<in> set (us @ a # b # vs) \<union> al" "c \<noteq> base" using that by auto
    have k: "brk (merge a s) = brk s" "hsize (merge a s) a = hsize s a + hsize s b" using b' by (simp_all add: merge_def Let_def)
    show ?thesis using D(10,11,12) [OF c] same [of c] k sz le assms(3) by (cases "c = a") auto
  qed
  have brk: "brk (merge a s) = brk s" by (simp add: merge_def Let_def)
  have laid: "laid_out base (merge a s) (set (us @ a # vs) \<union> al)" unfolding laid_out_def using bounds disj by blast
  have "links (merge a s) base (us @ a # vs) base"
    by (rule links_remove [OF D(5,7)]) (use b b' in \<open>auto simp: merge_def Let_def\<close>)
  moreover have "hd (us @ a # vs) = base" using D(3) by (cases us) auto
  moreover have "hsize (merge a s) base = 0" using D(8) same assms(2) by auto
  ultimately show "heap_inv base (merge a s) (us @ a # vs) al"
    using D(1,9,15) sorted_remove [OF D(6)] laid brk unfolding heap_inv_def by auto
qed

section \<open>free\<close>

abbreviation block_end :: "uheap \<Rightarrow> u32 \<Rightarrow> nat" where
  "block_end s a \<equiv> unat a + 8 * unat (hsize s a)"

lemma join_eq:
  assumes "bp \<noteq> p" and "hptr s p \<noteq> bp" and "unit_add bp (hsize s bp) = hptr s p \<longrightarrow> hptr s p \<noteq> p"
  shows "join_lower bp p (join_upper bp p s) =
    (let s1 = link bp p s; s2 = (if unit_add bp (hsize s bp) = hptr s p then merge bp s1 else s1)
     in if unit_add p (hsize s p) = bp then merge p s2 else s2)"
  using assms by (auto simp: join_lower_def join_upper_def link_def merge_def Let_def fun_upd_twist)

lemma extent_in: "a \<in> set l \<union> al \<Longrightarrow> a \<noteq> base \<Longrightarrow> heap_inv base s l al \<Longrightarrow> unat a \<in> extent s a"
  using heap_invD(11) [of base s l al a] by (auto simp: extent_def)

text \<open>A block that is not free can touch only the free blocks right below and right above it.\<close>

lemma touches:
  assumes "heap_inv base s (us @ p # vs) (insert bp al)" and "p < bp" and "vs \<noteq> [] \<longrightarrow> bp < hd vs" and "bp \<noteq> base"
  shows "b \<in> set (us @ p # vs) \<Longrightarrow> block_end s bp = unat b \<Longrightarrow> vs \<noteq> [] \<and> b = hd vs"
    and "a \<in> set (us @ p # vs) \<Longrightarrow> a \<noteq> base \<Longrightarrow> block_end s a = unat bp \<Longrightarrow> a = p"
proof -
  let ?l = "us @ p # vs"
  note D = heap_invD [OF assms(1)]
  have ne: "c \<noteq> bp" if "c \<in> set ?l" for c using D(9) that by auto
  have pos: "0 < unat (hsize s bp)" using D(11) [of bp] assms(4) by auto
  have bases: "c \<noteq> base" if "c \<in> set vs" for c using D(3,7) that by (cases us) auto
  have before: "c < p" if "c \<in> set us" for c using D(6) that by (auto simp: sorted_wrt_append)
  show "vs \<noteq> [] \<and> b = hd vs" if "b \<in> set ?l" "block_end s bp = unat b"
  proof -
    have "bp < b" using that(2) pos by (simp add: word_less_nat_alt)
    then have b: "b \<in> set vs" using that(1) before assms(2) by (auto dest: before)
    then obtain v vs' where v: "vs = v # vs'" by (cases vs) auto
    have "b = v"
    proof (rule ccontr)
      assume "b \<noteq> v"
      then have "v < b" using b D(6) v by (auto simp: sorted_wrt_append)
      then have "unat v \<in> extent s bp" using assms(3) v that(2) by (auto simp: extent_def word_less_nat_alt)
      moreover have "unat v \<in> extent s v" using extent_in [OF _ _ assms(1), of v] bases v by auto
      ultimately show False using D(13) [of v bp] ne v by auto
    qed
    then show ?thesis using v by simp
  qed
  show "a = p" if "a \<in> set ?l" "a \<noteq> base" "block_end s a = unat bp"
  proof (rule ccontr)
    assume "a \<noteq> p"
    have "a < bp" using that D(11) [of a] by (auto simp: word_less_nat_alt)
    moreover have "bp < c" if "c \<in> set vs" for c using that assms(3) D(6) by (cases vs) (auto simp: sorted_wrt_append)
    ultimately have "a \<in> set us" using that(1) \<open>a \<noteq> p\<close> less_asym [of a bp] by auto
    then have "a < p" "p \<noteq> base" using before D(3,7) by (auto, cases us, auto)
    then have "unat p \<in> extent s a" using assms(2) that(3) by (auto simp: extent_def word_less_nat_alt)
    moreover have "unat p \<in> extent s p" using extent_in [OF _ _ assms(1), of p] \<open>p \<noteq> base\<close> by auto
    ultimately show False using D(13) [of a p] that(1) \<open>a \<noteq> p\<close> by auto
  qed
qed

text \<open>Joining a block with the next one where they touch.\<close>

definition touching :: "u32 \<Rightarrow> uheap \<Rightarrow> u32 \<Rightarrow> u32 list \<Rightarrow> bool" where
  "touching base s a vs \<longleftrightarrow> a \<noteq> base \<and> vs \<noteq> [] \<and> block_end s a = unat (hd vs)"

definition try_merge :: "bool \<Rightarrow> u32 \<Rightarrow> uheap \<Rightarrow> uheap" where
  "try_merge t a s = (if t then merge a s else s)"

lemma try_merge_inv:
  assumes inv: "heap_inv base s (us @ a # vs) al" and t: "t = touching base s a vs"
  shows "heap_inv base (try_merge t a s) (us @ a # (if t then tl vs else vs)) al"
    and "\<Union> (extent (try_merge t a s) ` set (us @ a # (if t then tl vs else vs))) = \<Union> (extent s ` set (us @ a # vs))"
    and "\<And>c. c \<noteq> a \<Longrightarrow> hsize (try_merge t a s) c = hsize s c"
    and "\<And>c. c \<noteq> a \<Longrightarrow> hptr (try_merge t a s) c = hptr s c"
    and "brk (try_merge t a s) = brk s"
    and "block_end (try_merge t a s) a = (if t then block_end s (hd vs) else block_end s a)"
    and "unat (hsize s a) \<le> unat (hsize (try_merge t a s) a)"
proof -
  show "hsize (try_merge t a s) c = hsize s c" "hptr (try_merge t a s) c = hptr s c" if "c \<noteq> a" for c
    using that by (simp_all add: try_merge_def merge_def Let_def)
  show brk: "brk (try_merge t a s) = brk s" by (simp add: try_merge_def merge_def Let_def)
  have all: "heap_inv base (try_merge t a s) (us @ a # (if t then tl vs else vs)) al \<and>
     \<Union> (extent (try_merge t a s) ` set (us @ a # (if t then tl vs else vs))) = \<Union> (extent s ` set (us @ a # vs)) \<and>
     block_end (try_merge t a s) a = (if t then block_end s (hd vs) else block_end s a) \<and>
     unat (hsize s a) \<le> unat (hsize (try_merge t a s) a)"
  proof (cases t)
    case True
    then obtain b ws where v: "vs = b # ws" "a \<noteq> base" "block_end s a = unat b" using t by (cases vs) (auto simp: touching_def)
    have inv': "heap_inv base s (us @ a # b # ws) al" using inv v by simp
    note m = merge_inv [OF inv' v(2,3)]
    have "a \<notin> set us" "a \<notin> set ws" using heap_invD(7) [OF inv'] by auto
    then have "extent (merge a s) c = extent s c" if "c \<in> set us \<union> set ws" for c
      using that by (auto simp: extent_def merge_def Let_def)
    then have u: "\<Union> (extent (merge a s) ` set (us @ a # ws)) = \<Union> (extent s ` set (us @ a # b # ws))"
      using m(2) by auto
    have "block_end (merge a s) a = block_end s b" using m(3) v(3) by simp
    then show ?thesis using True v m(1) u m(3) by (simp add: try_merge_def)
  qed (use inv in \<open>simp add: try_merge_def\<close>)
  then show "heap_inv base (try_merge t a s) (us @ a # (if t then tl vs else vs)) al"
    "\<Union> (extent (try_merge t a s) ` set (us @ a # (if t then tl vs else vs))) = \<Union> (extent s ` set (us @ a # vs))"
    "block_end (try_merge t a s) a = (if t then block_end s (hd vs) else block_end s a)"
    "unat (hsize s a) \<le> unat (hsize (try_merge t a s) a)" by blast+
qed

text \<open>\<open>free\<close> in terms of these steps.\<close>

lemma free_steps:
  assumes "heap_inv base s (us @ p # vs) (insert bp al)" and "p < bp" and "vs \<noteq> [] \<longrightarrow> bp < hd vs" and "bp \<noteq> base"
    and "freep s \<in> set (us @ p # vs)"
  shows "free (bp + 8) s = Some ((try_merge (touching base s p [bp]) p (try_merge (touching base s bp vs) bp (link bp p s)))\<lparr>freep := p\<rparr>)"
proof -
  note D = heap_invD [OF assms(1)]
  have place: "free_place s bp (freep s) = Some p" by (rule free_place_at [OF D(5,6,3) assms(2,3,5)])
  let ?nx = "hptr s p"
  have nx: "?nx = hd (vs @ [base])" using links_next [OF D(5)] .
  have bp: "bp \<notin> set (us @ p # vs)" using D(9) by auto
  have U: "unit_add bp (hsize s bp) = ?nx \<longleftrightarrow> touching base s bp vs"
  proof -
    have "block_end s bp \<le> unat (brk s)" "unat base + 8 \<le> unat bp" using D(10,12) [of bp] assms(4) by auto
    then show ?thesis using nx unit_add_eq_iff [of bp "hsize s bp" "brk s" ?nx] assms(4) by (cases vs) (auto simp: touching_def)
  qed
  have L: "unit_add p (hsize s p) = bp \<longleftrightarrow> touching base s p [bp]"
  proof (cases "p = base")
    case True
    then show ?thesis using D(8) assms(4) by (simp add: unit_add_def touching_def)
  next
    case False
    then have "block_end s p \<le> unat (brk s)" using D(12) [of p] by auto
    then show ?thesis using unit_add_eq_iff [of p "hsize s p" "brk s" bp] False by (simp add: touching_def)
  qed
  have "?nx \<noteq> bp" using nx bp assms(4) by (cases vs) auto
  moreover have "unit_add bp (hsize s bp) = ?nx \<longrightarrow> ?nx \<noteq> p" unfolding U using nx D(7) by (cases vs) (auto simp: touching_def)
  ultimately have "join_lower bp p (join_upper bp p s) = try_merge (touching base s p [bp]) p (try_merge (touching base s bp vs) bp (link bp p s))"
    using join_eq [of bp p s] assms(2) unfolding U L try_merge_def by (simp add: Let_def)
  then show ?thesis using place by (simp add: free_def)
qed

lemma in_set_tl: "x \<in> set (tl xs) \<Longrightarrow> x \<in> set xs"
  by (cases xs) auto

lemma heap_inv_freep: "heap_inv base (s\<lparr>freep := p\<rparr>) l al = heap_inv base s l al"
  using links_cong [of l "s\<lparr>freep := p\<rparr>" s base base] laid_out_cong [of "s\<lparr>freep := p\<rparr>" s] by (simp add: heap_inv_def)

text \<open>Giving a block back keeps the heap in order; the free bytes are those that were free and those of the block.\<close>

lemma free_blocks:
  assumes "heap_ok base s l (insert bp al)" and "bp \<notin> al" and "bp \<noteq> base"
  shows "\<exists>s' l'. free (bp + 8) s = Some s' \<and> heap_ok base s' l' al \<and> brk s' = brk s \<and>
    (\<forall>a\<in>al. hsize s' a = hsize s a) \<and> \<Union> (extent s' ` set l') = \<Union> (extent s ` set l) \<union> extent s bp \<and>
    (\<exists>q. (q = freep s' \<or> q = hptr s' (freep s')) \<and> unat (hsize s bp) \<le> unat (hsize s' q))"
proof -
  have inv: "heap_inv base s l (insert bp al)" and fp: "freep s \<in> set l"
    and apart: "\<And>a b. a \<in> set l \<Longrightarrow> a \<noteq> base \<Longrightarrow> b \<in> set l \<Longrightarrow> b \<noteq> base \<Longrightarrow> block_end s a \<noteq> unat b"
    using assms(1) by (auto simp: heap_ok_def)
  note D = heap_invD [OF inv]
  have "hd l < bp" using D(10) [of bp] assms(3) D(3) by (simp add: word_less_nat_alt)
  moreover have bpl: "bp \<notin> set l" using D(9) by auto
  ultimately obtain us p vs where l: "l = us @ p # vs" "p < bp" "vs \<noteq> [] \<longrightarrow> bp < hd vs"
    using place_exists [OF D(6,2)] by blast
  have inv': "heap_inv base s (us @ p # vs) (insert bp al)" using inv l(1) by simp
  note T = touches [OF inv' l(2,3) assms(3)]
  define up low where "up = touching base s bp vs" and "low = touching base s p [bp]"
  define s1 s2 s3 where "s1 = link bp p s" and "s2 = try_merge up bp s1" and "s3 = try_merge low p s2"
  define vs' where "vs' = (if up then tl vs else vs)"
  have free: "free (bp + 8) s = Some (s3\<lparr>freep := p\<rparr>)"
    using free_steps [OF inv' l(2,3) assms(3)] fp l(1) by (simp add: s1_def s2_def s3_def up_def low_def)
  have size1: "hsize s1 = hsize s" "brk s1 = brk s" by (simp_all add: s1_def link_def)
  then have ext1: "extent s1 = extent s" by (simp add: extent_def fun_eq_iff)
  have inv1: "heap_inv base s1 ((us @ [p]) @ bp # vs) al" using link_inv [OF inv' assms(2) l(2,3) assms(3)] by (simp add: s1_def)
  have up1: "up = touching base s1 bp vs" using size1 by (simp add: up_def touching_def)
  note m2 = try_merge_inv [OF inv1 up1, folded s2_def vs'_def, unfolded size1 ext1]
  have pbp: "p \<noteq> bp" using l(2) by auto
  have inv2: "heap_inv base s2 (us @ p # bp # vs') al" using m2(1) by simp
  have low2: "low = touching base s2 p (bp # vs')" using m2(3) [OF pbp] by (simp add: low_def touching_def)
  note m3 = try_merge_inv [OF inv2 low2, folded s3_def]
  let ?l = "us @ p # (if low then vs' else bp # vs')"
  have inv3: "heap_inv base s3 ?l al" using m3(1) by (cases low) simp_all
  have al: "hsize s3 a = hsize s a" if "a \<in> al" for a
  proof -
    have "a \<noteq> p" "a \<noteq> bp" using that D(9) l(1) assms(2) by auto
    then show ?thesis using m3(3) m2(3) by simp
  qed
  have union: "\<Union> (extent s3 ` set ?l) = \<Union> (extent s ` set l) \<union> extent s bp"
    using m3(2) m2(2) l(1) by (cases low) auto
  have ends: "\<exists>c. (c \<in> set l \<and> c \<noteq> base \<or> c = bp \<and> \<not> up) \<and> block_end s3 a = block_end s c" if a: "a \<in> set ?l" "a \<noteq> base" for a
  proof -
    have bp2: "block_end s2 bp = block_end s (if up then hd vs else bp)" using m2(6) by simp
    have hd: "up \<longrightarrow> hd vs \<in> set l \<and> hd vs \<noteq> base" using D(3,7) l(1) by (cases vs; cases us) (auto simp: up_def touching_def)
    have sub: "set vs' \<subseteq> set vs" by (auto simp: vs'_def dest: in_set_tl split: if_splits)
    consider "a = p" low | "a = bp" "\<not> low" | "a \<noteq> bp" "a = p \<longrightarrow> \<not> low" "a \<in> set l" using a(1) sub l(1) pbp bpl by (auto split: if_splits)
    then show ?thesis
    proof cases
      case 1
      then have "block_end s3 a = block_end s2 bp" using m3(6) by simp
      then show ?thesis using bp2 hd by (intro exI [of _ "if up then hd vs else bp"]) auto
    next
      case 2
      then have "hsize s3 a = hsize s2 a" using m3(3) pbp by auto
      then show ?thesis using bp2 hd 2 by (intro exI [of _ "if up then hd vs else bp"]) auto
    next
      case 3
      then have "hsize s3 a = hsize s a" using m3(3) [of a] m2(3) [of a] by (cases "a = p") (auto simp: s3_def try_merge_def)
      then show ?thesis using 3 a(2) by (intro exI [of _ a]) auto
    qed
  qed
  have apart3: "block_end s3 a \<noteq> unat b" if ab: "a \<in> set ?l" "a \<noteq> base" "b \<in> set ?l" "b \<noteq> base" for a b
  proof
    assume e: "block_end s3 a = unat b"
    obtain c where c: "c \<in> set l \<and> c \<noteq> base \<or> c = bp \<and> \<not> up" "block_end s3 a = block_end s c" using ends [OF ab(1,2)] by blast
    have b: "b \<in> set l \<or> b = bp \<and> \<not> low"
      using ab(3) l(1) by (auto simp: vs'_def dest: in_set_tl split: if_splits)
    have pos: "0 < unat (hsize s bp)" using D(11) [of bp] assms(3) by auto
    show False
    proof (cases "c = bp")
      case True
      then have "b \<in> set l" "\<not> up" using b c e pos bpl by auto
      then show False using T(1) [of b] e c True assms(3) l(1) by (auto simp: up_def touching_def)
    next
      case False
      then have "c \<in> set l" "c \<noteq> base" using c by auto
      then show False using b apart [of c b] ab(4) T(2) [of c] e c(2) l(1) by (auto simp: low_def touching_def)
    qed
  qed
  have ok: "heap_ok base (s3\<lparr>freep := p\<rparr>) ?l al"
    unfolding heap_ok_def using inv3 apart3 by (simp add: heap_inv_freep)
  have big: "\<exists>q. (q = p \<or> q = hptr s3 p) \<and> unat (hsize s bp) \<le> unat (hsize s3 q)"
  proof (cases low)
    case True
    then have "block_end s3 p = block_end s2 bp" "block_end s p = unat bp" using m3(6) by (simp_all add: low_def touching_def)
    then show ?thesis using m2(7) by (intro exI [of _ p]) simp
  next
    case False
    then have "hptr s3 p = bp" using m3(4) m2(4) [OF pbp] by (simp add: s3_def try_merge_def s1_def link_def pbp)
    moreover have "hsize s3 bp = hsize s2 bp" using m3(3) pbp by auto
    ultimately show ?thesis using m2(7) by (intro exI [of _ bp]) simp
  qed
  show ?thesis
    by (rule exI [of _ "s3\<lparr>freep := p\<rparr>"], rule exI [of _ ?l])
      (use free ok m3(5) m2(5) al union big in \<open>simp add: extent_def\<close>)
qed

section \<open>malloc\<close>

lemma heap_okD:
  assumes "heap_ok base s l al"
  shows "heap_inv base s l al" "freep s \<in> set l"
    "a \<in> set l \<Longrightarrow> a \<noteq> base \<Longrightarrow> b \<in> set l \<Longrightarrow> b \<noteq> base \<Longrightarrow> block_end s a \<noteq> unat b"
  using assms by (auto simp: heap_ok_def)

text \<open>The block after \<open>prevp\<close> taken as a whole.\<close>

lemma take_whole:
  assumes "heap_ok base s (us @ prevp # p # vs) al" and "p \<noteq> base"
  shows "heap_ok base ((set_ptr prevp (hptr s p) s)\<lparr>freep := prevp\<rparr>) (us @ prevp # vs) (insert p al)"
proof -
  let ?s = "(set_ptr prevp (hptr s p) s)\<lparr>freep := prevp\<rparr>"
  note ok = heap_okD [OF assms(1)] and D = heap_invD [OF heap_okD(1) [OF assms(1)]]
  have dist: "prevp \<notin> set us" "prevp \<notin> set vs" "p \<noteq> prevp" "p \<notin> set us" "p \<notin> set vs" using D(7) by auto
  have "links ?s base (us @ prevp # vs) base"
    by (rule links_remove [OF D(5,7)]) (use dist in auto)
  moreover have "laid_out base ?s (set (us @ prevp # vs) \<union> insert p al)"
    using laid_out_cong [of ?s s base] D(14) by (simp add: insert_commute)
  moreover have "hd (us @ prevp # vs) = base" using D(3) by (cases us) auto
  ultimately have "heap_inv base ?s (us @ prevp # vs) (insert p al)"
    using D(1,8,9,15) sorted_remove [OF D(6)] dist unfolding heap_inv_def by auto
  moreover have "block_end ?s a \<noteq> unat b" if "a \<in> set (us @ prevp # vs)" "a \<noteq> base" "b \<in> set (us @ prevp # vs)" "b \<noteq> base" for a b
    using ok(3) [of a b] that by auto
  ultimately show ?thesis unfolding heap_ok_def by auto
qed

text \<open>The tail of a block split off.\<close>

lemma take_tail:
  assumes "heap_ok base s l al" and "p \<in> set l" and "0 < unat n" and "unat n < unat (hsize s p)" and "prevp \<in> set l"
    and q: "q = unit_add p (hsize s p - n)"
    and s': "s' = (set_size q n (set_size p (hsize s p - n) s))\<lparr>freep := prevp\<rparr>"
  shows "heap_ok base s' l (insert q al)" "q \<notin> set l \<union> al" "hsize s' q = n"
proof -
  note ok = heap_okD [OF assms(1)] and D = heap_invD [OF heap_okD(1) [OF assms(1)]]
  have p: "p \<noteq> base" using assms(4) D(8) by auto
  have bp: "unat base + 8 \<le> unat p" "block_end s p \<le> unat (brk s)" using D(10,12) [of p] p assms(2) by auto
  have m: "unat (hsize s p - n) = unat (hsize s p) - unat n" using assms(4) by (simp add: unat_sub word_le_nat_alt)
  have qn: "unat q = unat p + 8 * (unat (hsize s p) - unat n)"
    using unat_unit_add [of p "hsize s p - n"] bp(2) m unat_u32_less [of "brk s"] by (simp add: q del: unat_u32_less)
  have inp: "unat q \<in> extent s p" "unat p < unat q" using qn assms(3,4) by (auto simp: extent_def)
  have new: "q \<notin> set l \<union> al"
  proof
    assume a: "q \<in> set l \<union> al"
    have "q \<noteq> p" "q \<noteq> base" using inp(2) bp by auto
    then have "unat q \<in> extent s q" using D(11) [OF a] by (auto simp: extent_def)
    then show False using D(13) [OF a, of p] assms(2) inp(1) \<open>q \<noteq> p\<close> by auto
  qed
  have qp: "q \<noteq> p" "q \<noteq> base" using inp(2) bp by auto
  have size: "hsize s' q = n" "hsize s' p = hsize s p - n" "\<And>a. a \<noteq> p \<Longrightarrow> a \<noteq> q \<Longrightarrow> hsize s' a = hsize s a"
    "brk s' = brk s" "hptr s' = hptr s" "freep s' = prevp" using qp by (simp_all add: s')
  have ext: "extent s' p \<subseteq> extent s p" "extent s' q \<subseteq> extent s p" "extent s' p \<inter> extent s' q = {}"
    "\<And>a. a \<noteq> p \<Longrightarrow> a \<noteq> q \<Longrightarrow> extent s' a = extent s a"
    using size m qn assms(4) by (auto simp: extent_def)
  have disj: "extent s' a \<inter> extent s' b = {}" if ab: "a \<in> set l \<union> insert q al" "b \<in> set l \<union> insert q al" "a \<noteq> b" for a b
  proof -
    have in_p: "c = p \<or> c = q \<Longrightarrow> extent s' c \<subseteq> extent s p" for c using ext by auto
    have out: "d \<in> set l \<union> insert q al \<Longrightarrow> d \<noteq> p \<Longrightarrow> d \<noteq> q \<Longrightarrow> extent s' d = extent s d \<and> extent s p \<inter> extent s d = {} \<and> d \<in> set l \<union> al" for d
      using ext(4) [of d] D(13) [of p d] assms(2) by auto
    show ?thesis
    proof (cases "(a = p \<or> a = q) \<and> (b = p \<or> b = q)")
      case True
      then show ?thesis using ext(3) ab(3) by auto
    next
      case False
      then show ?thesis using in_p [of a] in_p [of b] out [of a] out [of b] ab D(13) [of a b] by blast
    qed
  qed
  have bounds: "unat base + 8 \<le> unat a \<and> 0 < unat (hsize s' a) \<and> block_end s' a \<le> unat (brk s')"
    if "a \<in> set l \<union> insert q al - {base}" for a
  proof -
    consider "a = p" | "a = q" | "a \<noteq> p" "a \<noteq> q" by blast
    then show ?thesis
    proof cases
      case 1
      then show ?thesis using size(2,4) m bp assms(4) by simp
    next
      case 2
      then show ?thesis using size(1,4) qn bp assms(3,4) by simp
    next
      case 3
      then have "a \<in> set l \<union> al" "a \<noteq> base" using that by auto
      then show ?thesis using D(10,11,12) [of a] size(3) [OF 3] size(4) by simp
    qed
  qed
  have "laid_out base s' (set l \<union> insert q al)"
    unfolding laid_out_def by (rule conjI) (intro ballI impI, erule bounds, intro ballI impI, erule (2) disj)
  moreover have "links s' base l base" using links_cong [of l s' s base base] D(5) size(5) by simp
  moreover have "hsize s' base = 0" using size(3) [of base] p qp D(8) by simp
  ultimately have "heap_inv base s' l (insert q al)" using D(1-3,6,9,15) new size(4) unfolding heap_inv_def by auto
  moreover have "block_end s' a \<noteq> unat b" if ab: "a \<in> set l" "a \<noteq> base" "b \<in> set l" "b \<noteq> base" for a b
  proof (cases "a = p")
    case True
    have "unat q \<noteq> unat b" using new ab(3) by (auto simp flip: word_unat_eq_iff)
    then show ?thesis using True size(2) m qn by simp
  next
    case False
    have "a \<noteq> q" using ab(1) new by auto
    then show ?thesis using size(3) [OF False] ok(3) [OF ab] by simp
  qed
  ultimately show "heap_ok base s' l (insert q al)" unfolding heap_ok_def using size(6) assms(5) by blast
  show "q \<notin> set l \<union> al" "hsize s' q = n" using new size(1) by auto
qed

text \<open>A block that is large enough, found after \<open>prevp\<close>, and what \<open>malloc\<close> makes of it.\<close>

definition granted :: "u32 \<Rightarrow> uheap \<Rightarrow> u32 set \<Rightarrow> u32 \<Rightarrow> u32 \<times> uheap \<Rightarrow> bool" where
  "granted base s al n r \<longleftrightarrow> (\<exists>l bp. fst r = bp + 8 \<and> bp \<notin> al \<and> bp \<noteq> base \<and> heap_ok base (snd r) l (insert bp al) \<and>
     hsize (snd r) bp = n \<and> (\<forall>a\<in>al. hsize (snd r) a = hsize s a) \<and> brk (snd r) = brk s)"

lemma split_prev:
  assumes "heap_inv base s l al" and "prevp \<in> set l" and "hptr s prevp = p" and "p \<noteq> base"
  shows "\<exists>us vs. l = us @ prevp # p # vs"
proof -
  obtain us vs where l: "l = us @ prevp # vs" using assms(2) by (auto simp: in_set_conv_decomp)
  have "hptr s prevp = hd (vs @ [base])" using links_next [of s base us prevp vs base] heap_invD(5) [OF assms(1)] l by simp
  then show ?thesis using l assms(3,4) by (cases vs) auto
qed

lemma carve_granted:
  assumes "heap_ok base s l al" and "prevp \<in> set l" and "hptr s prevp = p" and "0 < unat n" and "unat n \<le> unat (hsize s p)"
  shows "granted base s al n (carve n prevp p s)"
proof -
  note D = heap_invD [OF heap_okD(1) [OF assms(1)]]
  have p: "p \<noteq> base" using assms(4,5) D(8) by auto
  obtain us vs where l: "l = us @ prevp # p # vs" using split_prev [OF heap_okD(1) [OF assms(1)] assms(2,3) p] by blast
  have pal: "p \<notin> al" using D(9) l by auto
  show ?thesis
  proof (cases "hsize s p = n")
    case True
    have "heap_ok base ((set_ptr prevp (hptr s p) s)\<lparr>freep := prevp\<rparr>) (us @ prevp # vs) (insert p al)"
      using take_whole [OF _ p] assms(1) l by simp
    then show ?thesis using True p pal unfolding granted_def carve_def
      by (intro exI [of _ "us @ prevp # vs"] exI [of _ p]) simp
  next
    case False
    then have lt: "unat n < unat (hsize s p)" using assms(5) by (metis le_neq_implies_less word_unat_eq_iff)
    define q s' where "q = unit_add p (hsize s p - n)" and "s' = (set_size q n (set_size p (hsize s p - n) s))\<lparr>freep := prevp\<rparr>"
    have pl: "p \<in> set l" using l by simp
    note t = take_tail [OF assms(1) pl assms(4) lt assms(2) q_def s'_def]
    have c: "carve n prevp p s = (q + 8, s')" using False by (simp add: carve_def Let_def q_def s'_def)
    have "hsize s' a = hsize s a" if "a \<in> al" for a using that t(2) pal by (auto simp: s'_def)
    moreover have "q \<noteq> base" "brk s' = brk s" using t(2) D(4) by (auto simp: s'_def)
    ultimately show ?thesis using t unfolding granted_def c by (intro exI [of _ l] exI [of _ q]) auto
  qed
qed

text \<open>Once around the list, from after \<open>freep\<close> back to it.\<close>

lemma search:
  assumes "heap_ok base s l al" and "0 < unat n"
  shows "links s p xs (freep s) \<Longrightarrow> freep s \<notin> set xs \<Longrightarrow> set xs \<subseteq> set l \<Longrightarrow> prevp \<in> set l \<Longrightarrow> hptr s prevp = p \<Longrightarrow>
    (\<exists>r. malloc_loop grows n prevp p s = Some r \<and> granted base s al n r) \<or>
    (\<forall>a\<in>insert (freep s) (set xs). unat (hsize s a) < unat n) \<and>
      malloc_loop grows n prevp p s =
        (case morecore grows n s of None \<Rightarrow> None
         | Some (p, s) \<Rightarrow> if p = 0 then Some (0, s) else malloc_loop grows n p (hptr s p) s)"
proof (induction xs arbitrary: p prevp)
  case Nil
  then have p: "p = freep s" by simp
  show ?case
  proof (cases "n \<le> hsize s p")
    case True
    then have "malloc_loop grows n prevp p s = Some (carve n prevp p s)" by (subst malloc_loop.simps) simp
    then show ?thesis using carve_granted [OF assms(1) Nil.prems(4,5) assms(2)] True by (auto simp: word_le_nat_alt)
  next
    case False
    then show ?thesis using p by (intro disjI2 conjI, simp add: word_le_nat_alt) (subst malloc_loop.simps, simp)
  qed
next
  case (Cons x xs)
  then have p: "p = x" "links s (hptr s p) xs (freep s)" "p \<noteq> freep s" by auto
  show ?case
  proof (cases "n \<le> hsize s p")
    case True
    then have "malloc_loop grows n prevp p s = Some (carve n prevp p s)" by (subst malloc_loop.simps) simp
    then show ?thesis using carve_granted [OF assms(1) Cons.prems(4,5) assms(2)] True by (auto simp: word_le_nat_alt)
  next
    case False
    then have "malloc_loop grows n prevp p s = malloc_loop grows n p (hptr s p) s"
      using p(3) by (subst malloc_loop.simps) simp
    then show ?thesis using Cons.IH [OF p(2) _ _ _ refl] Cons.prems p(1) False by (auto simp: word_le_nat_alt)
  qed
qed

lemma ring:
  assumes "heap_ok base s l al"
  shows "\<exists>xs. links s (hptr s (freep s)) xs (freep s) \<and> freep s \<notin> set xs \<and> set (freep s # xs) = set l"
proof -
  note D = heap_invD [OF heap_okD(1) [OF assms]]
  obtain us vs where l: "l = us @ freep s # vs" using heap_okD(2) [OF assms] by (auto simp: in_set_conv_decomp)
  have "links s base us (freep s)" "links s (hptr s (freep s)) vs base" using D(5) l by auto
  then have "links s (hptr s (freep s)) (vs @ us) (freep s)" by auto
  moreover have "freep s \<notin> set (vs @ us)" using D(7) l by auto
  ultimately show ?thesis using l by (intro exI [of _ "vs @ us"]) auto
qed

text \<open>What the kernel promises of \<open>sbrk\<close> with an argument that is not negative: the process grows by as much and stays
  below KERNBASE.\<close>

definition kernel_grows :: "(u32 \<Rightarrow> int \<Rightarrow> u32 option) \<Rightarrow> bool" where
  "kernel_grows grows \<longleftrightarrow> (\<forall>b n b'. grows b n = Some b' \<longrightarrow> 0 \<le> n \<longrightarrow> uint b' = uint b + n \<and> uint b' < 2147483648)"

text \<open>The kernel does not give the process the memory that \<open>morecore\<close> asks for, for a block of \<open>n\<close> units.\<close>

definition refuses :: "(u32 \<Rightarrow> int \<Rightarrow> u32 option) \<Rightarrow> u32 \<Rightarrow> nat \<Rightarrow> bool" where
  "refuses grows b n \<longleftrightarrow> grows b (int (8 * max 4096 n)) = None"

text \<open>A new block at the end of the process.\<close>

lemma grown_block:
  assumes "heap_ok base s l al" and "unat (brk s) + 8 * unat m < 2 ^ 32" and "0 < unat m"
    and s': "s' = set_size (brk s) m (s\<lparr>brk := brk s + m * 8\<rparr>)"
  shows "heap_ok base s' l (insert (brk s) al)" "brk s \<notin> al" "brk s \<noteq> base" "\<And>a. a \<in> al \<Longrightarrow> hsize s' a = hsize s a"
    "hsize s' (brk s) = m" "brk s' = brk s + m * 8"
proof -
  note ok = heap_okD [OF assms(1)] and D = heap_invD [OF heap_okD(1) [OF assms(1)]]
  let ?b = "brk s"
  have below: "unat a < unat ?b" if "a \<in> set l \<union> al" for a
    using that D(11,12) [of a] D(15) by (cases "a = base") auto
  have new: "?b \<notin> set l \<union> al" using below [of ?b] by auto
  show "?b \<notin> al" "?b \<noteq> base" using new D(4) by auto
  have size: "hsize s' ?b = m" "\<And>a. a \<noteq> ?b \<Longrightarrow> hsize s' a = hsize s a" "hptr s' = hptr s" "freep s' = freep s" by (simp_all add: s')
  have brk: "unat (brk s') = unat ?b + 8 * unat m"
    using unat_unit_add [OF assms(2)] by (simp add: s' unit_add_def mult.commute)
  show "hsize s' a = hsize s a" if "a \<in> al" for a using size(2) [of a] that new by auto
  show "hsize s' ?b = m" "brk s' = brk s + m * 8" using size(1) by (simp_all add: s')
  have old: "a \<in> set l \<union> al \<Longrightarrow> hsize s' a = hsize s a \<and> extent s' a = extent s a \<and> (a \<noteq> base \<longrightarrow> block_end s a \<le> unat ?b)" for a
  proof -
    assume a: "a \<in> set l \<union> al"
    then have "a \<noteq> ?b" using new by auto
    then show ?thesis using size(2) [of a] D(12) [OF a] by (simp add: extent_def)
  qed
  have bounds: "unat base + 8 \<le> unat a \<and> 0 < unat (hsize s' a) \<and> block_end s' a \<le> unat (brk s')"
    if a: "a \<in> set l \<union> insert ?b al - {base}" for a
  proof (cases "a = ?b")
    case True
    then show ?thesis using size(1) brk D(15) assms(3) by simp
  next
    case False
    then have "a \<in> set l \<union> al" "a \<noteq> base" using a by auto
    then show ?thesis using D(10,11,12) [of a] old [of a] brk by simp
  qed
  have eb: "extent s' ?b \<inter> extent s' a = {}" if "a \<in> set l \<union> al" for a
  proof (cases "a = base")
    case True
    then show ?thesis using D(8) old [OF that] by (simp add: extent_def)
  next
    case False
    then show ?thesis using old [OF that] by (auto simp: extent_def)
  qed
  have disj: "extent s' a \<inter> extent s' b = {}" if ab: "a \<in> set l \<union> insert ?b al" "b \<in> set l \<union> insert ?b al" "a \<noteq> b" for a b
  proof -
    consider "a = ?b" "b \<in> set l \<union> al" | "b = ?b" "a \<in> set l \<union> al" | "a \<in> set l \<union> al" "b \<in> set l \<union> al" using ab by auto
    then show ?thesis using eb [of a] eb [of b] D(13) [of a b] old [of a] old [of b] ab(3) by cases (simp_all add: Int_commute)
  qed
  have "laid_out base s' (set l \<union> insert ?b al)"
    unfolding laid_out_def by (rule conjI) (intro ballI impI, erule bounds, intro ballI impI, erule (2) disj)
  moreover have "links s' base l base" using links_cong [of l s' s base base] D(5) size(3) by simp
  moreover have "hsize s' base = 0" using old [of base] D(4,8) by simp
  moreover have "set l \<inter> insert ?b al = {}" using D(9) new by auto
  moreover have "unat base + 8 \<le> unat (brk s')" using D(15) brk by simp
  ultimately have "heap_inv base s' l (insert ?b al)" using D(1-3,6) unfolding heap_inv_def by simp
  moreover have "block_end s' a \<noteq> unat b" if ab: "a \<in> set l" "a \<noteq> base" "b \<in> set l" "b \<noteq> base" for a b
    using ok(3) [OF ab] old [of a] ab(1) by simp
  ultimately show "heap_ok base s' l (insert ?b al)" unfolding heap_ok_def using ok(2) size(4) by simp
qed

lemma morecore_ok:
  assumes "heap_ok base s l al" and "kernel_grows grows" and "0 < unat n" and "8 * unat n < 2147483648"
  shows "morecore grows n s = Some (0, s) \<and> refuses grows (brk s) (unat n) \<or>
    (\<exists>s' l'. morecore grows n s = Some (freep s', s') \<and> heap_ok base s' l' al \<and> (\<forall>a\<in>al. hsize s' a = hsize s a) \<and>
      (\<exists>q. (q = freep s' \<or> q = hptr s' (freep s')) \<and> unat n \<le> unat (hsize s' q)))"
proof -
  define m where "m = (if n < 4096 then 4096 else n)"
  have m: "unat n \<le> unat m" "0 < unat m" "8 * unat m < 2147483648" "unat m = max 4096 (unat n)"
    using assms(3,4) by (auto simp: m_def word_less_nat_alt)
  have um: "unat (m * 8) = 8 * unat m" using m(3) by (simp add: unat_mult_lem [THEN iffD1])
  have sm: "sint (m * 8) = int (8 * unat m)"
  proof -
    have "int (unat (m * 8)) < int 2147483648" unfolding um using m(3) by linarith
    then have "uint (m * 8) < 2147483648" by simp
    moreover have "- (2 ^ 31) \<le> uint (m * 8)" by (rule order_trans [of _ 0]) simp_all
    ultimately have "sint (m * 8) = uint (m * 8)"
      using signed_take_bit_int_eq_self [of 31 "uint (m * 8)"] by (simp add: sint_uint)
    also have "\<dots> = int (8 * unat m)" unfolding um [symmetric] by simp
    finally show ?thesis .
  qed
  show ?thesis
  proof (cases "grows (brk s) (sint (m * 8))")
    case None
    then have "refuses grows (brk s) (unat n)" unfolding refuses_def sm m(4) .
    then show ?thesis using None by (simp add: morecore_def m_def sbrk_def Let_def)
  next
    case (Some b)
    then have b: "uint b = uint (brk s) + int (8 * unat m)" "uint b < 2147483648"
      using assms(2) sm unfolding kernel_grows_def by fastforce+
    then have "uint (brk s) + int (8 * unat m) < 2147483648" by simp
    then have "int (unat (brk s)) + int (8 * unat m) < 2147483648" by simp
    then have "unat (brk s) + 8 * unat m < 2147483648" by linarith
    then have lt: "unat (brk s) + 8 * unat m < 2 ^ 32" by simp
    have "unat b = unat (unit_add (brk s) m)" using b(1) unat_unit_add [OF lt] by (metis int_ops(5) of_nat_eq_iff uint_nat)
    then have beq: "b = brk s + m * 8" by (simp add: unit_add_def mult.commute word_unat_eq_iff)
    define s' where "s' = set_size (brk s) m (s\<lparr>brk := brk s + m * 8\<rparr>)"
    note g = grown_block [OF assms(1) lt m(2) s'_def]
    obtain s2 l2 where f: "free (brk s + 8) s' = Some s2" "heap_ok base s2 l2 al" "\<forall>a\<in>al. hsize s2 a = hsize s' a"
        "\<exists>q. (q = freep s2 \<or> q = hptr s2 (freep s2)) \<and> unat m \<le> unat (hsize s2 q)"
      using free_blocks [OF g(1-3)] g(5) by auto
    have "morecore grows n s = Some (freep s2, s2)"
      using Some f(1) beq unfolding morecore_def m_def [symmetric] sbrk_def s'_def by (simp add: Let_def)
    then show ?thesis using f g(4) m(1) by (intro disjI2 exI [of _ s2] exI [of _ l2]) (auto intro: order_trans)
  qed
qed

lemma malloc_loop_ok:
  assumes "heap_ok base s l al" and "kernel_grows grows" and "0 < unat n" and "8 * unat n < 2147483648"
  shows "\<exists>r. malloc_loop grows n (freep s) (hptr s (freep s)) s = Some r \<and>
    ((\<exists>s1. (\<forall>a\<in>al. hsize s1 a = hsize s a) \<and> granted base s1 al n r) \<or>
     r = (0, s) \<and> refuses grows (brk s) (unat n) \<and> (\<forall>a\<in>set l. unat (hsize s a) < unat n))"
proof -
  obtain xs where xs: "links s (hptr s (freep s)) xs (freep s)" "freep s \<notin> set xs" "set (freep s # xs) = set l"
    using ring [OF assms(1)] by blast
  note first = search [OF assms(1,3) xs(1,2) _ heap_okD(2) [OF assms(1)] refl, of grows]
  from first xs(3) consider r where "malloc_loop grows n (freep s) (hptr s (freep s)) s = Some r" "granted base s al n r"
    | "\<forall>a\<in>set l. unat (hsize s a) < unat n" "malloc_loop grows n (freep s) (hptr s (freep s)) s =
        (case morecore grows n s of None \<Rightarrow> None
         | Some (p, s) \<Rightarrow> if p = 0 then Some (0, s) else malloc_loop grows n p (hptr s p) s)" by fastforce
  then show ?thesis
  proof cases
    case (1 r)
    then show ?thesis by blast
  next
    case 2
    from morecore_ok [OF assms] show ?thesis
    proof
      assume "morecore grows n s = Some (0, s) \<and> refuses grows (brk s) (unat n)"
      then show ?thesis using 2 by auto
    next
      assume "\<exists>s' l'. morecore grows n s = Some (freep s', s') \<and> heap_ok base s' l' al \<and> (\<forall>a\<in>al. hsize s' a = hsize s a) \<and>
        (\<exists>q. (q = freep s' \<or> q = hptr s' (freep s')) \<and> unat n \<le> unat (hsize s' q))"
      then obtain s' l' q where m: "morecore grows n s = Some (freep s', s')" "heap_ok base s' l' al" "\<forall>a\<in>al. hsize s' a = hsize s a"
        "q = freep s' \<or> q = hptr s' (freep s')" "unat n \<le> unat (hsize s' q)" by blast
      have nz: "freep s' \<noteq> 0"
      proof (cases "freep s' = base")
        case True
        then show ?thesis using heap_invD(1) [OF heap_okD(1) [OF m(2)]] by simp
      next
        case False
        then show ?thesis using heap_invD(10) [OF heap_okD(1) [OF m(2)], of "freep s'"] heap_okD(2) [OF m(2)] by auto
      qed
      obtain ys where ys: "links s' (hptr s' (freep s')) ys (freep s')" "freep s' \<notin> set ys" "set (freep s' # ys) = set l'"
        using ring [OF m(2)] by blast
      have "q \<in> insert (freep s') (set ys)" using m(4) ys(1) by (cases ys) auto
      then obtain r where "malloc_loop grows n (freep s') (hptr s' (freep s')) s' = Some r" "granted base s' al n r"
        using search [OF m(2) assms(3) ys(1,2) _ heap_okD(2) [OF m(2)] refl, of grows] ys(3) m(5) by fastforce
      then show ?thesis using 2 m(1,3) nz by auto
    qed
  qed
qed

lemma granted_nonzero:
  assumes "granted base s al n r" and "0 < unat n"
  shows "fst r \<noteq> 0"
proof -
  obtain l' bp where g: "fst r = bp + 8" "bp \<noteq> base" "heap_ok base (snd r) l' (insert bp al)" "hsize (snd r) bp = n"
    using assms(1) unfolding granted_def by (elim exE conjE) (rule that)
  have b: "block_end (snd r) bp \<le> unat (brk (snd r))" using heap_invD(12) [OF heap_okD(1) [OF g(3)], of bp] g(2) by auto
  have "unat bp + unat (8 :: u32) < 2 ^ LENGTH(32)"
    using b assms(2) g(4) unat_u32_less [of "brk (snd r)"] by (simp del: unat_u32_less)
  then have "unat (bp + 8) = unat bp + 8" by (subst (asm) unat_add_lem) simp
  then show ?thesis using g(1) by auto
qed

section \<open>A program that uses the allocator\<close>

text \<open>A program that calls \<open>malloc\<close> with requests below 2147418112 bytes and gives back only what it got, in any order.
  \<open>al\<close> is what it holds: the header of each block and the number of bytes it asked for.  The heap starts with \<open>freep\<close>
  null and \<open>base\<close> below the end of the process.\<close>

inductive client :: "(u32 \<Rightarrow> int \<Rightarrow> u32 option) \<Rightarrow> u32 \<Rightarrow> uheap \<Rightarrow> (u32 \<Rightarrow> u32 option) \<Rightarrow> bool" for grows base where
  start: "freep s = 0 \<Longrightarrow> base \<noteq> 0 \<Longrightarrow> unat base + 8 \<le> unat (brk s) \<Longrightarrow> client grows base s Map.empty"
| gets: "client grows base s al \<Longrightarrow> unat nbytes < 2147418112 \<Longrightarrow> malloc grows base nbytes s = Some (r, s') \<Longrightarrow> r \<noteq> 0 \<Longrightarrow>
    client grows base s' (al(r - 8 := Some nbytes))"
| refused: "client grows base s al \<Longrightarrow> unat nbytes < 2147418112 \<Longrightarrow> malloc grows base nbytes s = Some (0, s') \<Longrightarrow>
    client grows base s' al"
| gives_back: "client grows base s al \<Longrightarrow> al bp \<noteq> None \<Longrightarrow> free (bp + 8) s = Some s' \<Longrightarrow> client grows base s' (al(bp := None))"

definition client_ok :: "u32 \<Rightarrow> uheap \<Rightarrow> (u32 \<Rightarrow> u32 option) \<Rightarrow> bool" where
  "client_ok base s al \<longleftrightarrow>
     (freep s = 0 \<and> base \<noteq> 0 \<and> unat base + 8 \<le> unat (brk s) \<and> al = Map.empty \<or> (\<exists>l. heap_ok base s l (dom al))) \<and>
     (\<forall>a n. al a = Some n \<longrightarrow> unat n + 8 \<le> 8 * unat (hsize s a))"

lemma units_for_ok:
  assumes "unat nbytes < 2147418112"
  shows "0 < unat (units_for nbytes)" "8 * unat (units_for nbytes) < 2147483648" "unat nbytes + 8 \<le> 8 * unat (units_for nbytes)"
proof -
  have "unat (nbytes + 7) = unat nbytes + 7" using assms by (simp add: unat_add_lem [THEN iffD1])
  then have d: "unat ((nbytes + 7) div 8) = (unat nbytes + 7) div 8" by (simp add: unat_div_distrib)
  then have "unat ((nbytes + 7) div 8 + 1) = (unat nbytes + 7) div 8 + 1" using assms by (simp add: unat_add_lem [THEN iffD1])
  then have u: "unat (units_for nbytes) = (unat nbytes + 7) div 8 + 1" by (simp add: units_for_def add.commute)
  define k where "k = (unat nbytes + 7) div 8"
  have le: "8 * k \<le> unat nbytes + 7" "unat nbytes \<le> 8 * k" unfolding k_def by presburger+
  have arith: "8 * (k + 1) < 2147483648 \<and> x + 8 \<le> 8 * (k + 1)" if "8 * k \<le> x + 7" "x \<le> 8 * k" "x < 2147418112" for x :: nat
    using that by auto
  show "0 < unat (units_for nbytes)" "8 * unat (units_for nbytes) < 2147483648" "unat nbytes + 8 \<le> 8 * unat (units_for nbytes)"
    using arith [OF le assms] unfolding u k_def [symmetric] by simp_all
qed

lemma heap_ok_start:
  assumes "base \<noteq> 0" and "unat base + 8 \<le> unat (brk s)"
  shows "heap_ok base ((set_size base 0 (set_ptr base base s))\<lparr>freep := base\<rparr>) [base] {}"
  using assms by (simp add: heap_ok_def heap_inv_def laid_out_def)

lemma malloc_ok:
  assumes "client_ok base s al" and "kernel_grows grows" and "unat nbytes < 2147418112"
  shows "\<exists>r s'. malloc grows base nbytes s = Some (r, s') \<and>
    (r = 0 \<and> client_ok base s' al \<and> refuses grows (brk s) (unat (units_for nbytes)) \<and>
       (\<forall>l. heap_ok base s l (dom al) \<longrightarrow> (\<forall>a\<in>set l. unat (hsize s a) < unat (units_for nbytes))) \<or>
     r \<noteq> 0 \<and> al (r - 8) = None \<and> client_ok base s' (al(r - 8 := Some nbytes)))"
proof -
  define s0 where "s0 = (if freep s = 0 then (set_size base 0 (set_ptr base base s))\<lparr>freep := base\<rparr> else s)"
  have started: "s0 = s" if "heap_ok base s l (dom al)" for l
  proof -
    have "freep s \<noteq> 0"
      using heap_okD(1,2) [OF that] heap_invD(1,10) by (metis UnI1 add_is_0 le_zero_eq unsigned_0 numeral_neq_zero)
    then show ?thesis by (simp add: s0_def)
  qed
  have "\<exists>l. heap_ok base s0 l (dom al)"
  proof (cases "\<exists>l. heap_ok base s l (dom al)")
    case True
    then show ?thesis using started by auto
  next
    case False
    then show ?thesis using assms(1) heap_ok_start [of base s] by (auto simp: client_ok_def s0_def)
  qed
  then obtain l where ok: "heap_ok base s0 l (dom al)" by blast
  have szs: "\<forall>a\<in>dom al. hsize s0 a = hsize s a" and brk: "brk s0 = brk s"
    using heap_invD(4,9) [OF heap_okD(1) [OF ok]] by (auto simp: s0_def)
  note u = units_for_ok [OF assms(3)]
  have mal: "malloc grows base nbytes s = malloc_loop grows (units_for nbytes) (freep s0) (hptr s0 (freep s0)) s0"
    by (simp add: malloc_def Let_def s0_def)
  obtain r where r: "malloc grows base nbytes s = Some r"
    "(\<exists>s1. (\<forall>a\<in>dom al. hsize s1 a = hsize s0 a) \<and> granted base s1 (dom al) (units_for nbytes) r) \<or>
     r = (0, s0) \<and> refuses grows (brk s0) (unat (units_for nbytes))"
    using malloc_loop_ok [OF ok assms(2) u(1,2)] unfolding mal by blast
  have none: "\<forall>a\<in>set l'. unat (hsize s a) < unat (units_for nbytes)" if "heap_ok base s l' (dom al)" "fst r = 0" for l'
    using malloc_loop_ok [OF that(1) assms(2) u(1,2)] r(1) granted_nonzero [OF _ u(1)] that(2)
    unfolding mal started [OF that(1)] by (metis option.inject)
  have old: "unat n + 8 \<le> 8 * unat (hsize s0 a)" if "al a = Some n" for a n
    using assms(1) bspec [OF szs, of a] that unfolding client_ok_def by (metis domI)
  show ?thesis using r(2)
  proof
    assume z: "r = (0, s0) \<and> refuses grows (brk s0) (unat (units_for nbytes))"
    then have "client_ok base s0 al" using ok old by (auto simp: client_ok_def)
    then show ?thesis using z r(1) none brk by auto
  next
    assume "\<exists>s1. (\<forall>a\<in>dom al. hsize s1 a = hsize s0 a) \<and> granted base s1 (dom al) (units_for nbytes) r"
    then obtain s1 where g0: "\<forall>a\<in>dom al. hsize s1 a = hsize s0 a" "granted base s1 (dom al) (units_for nbytes) r" by blast
    then obtain l' bp where g: "\<forall>a\<in>dom al. hsize s1 a = hsize s0 a" "fst r = bp + 8" "bp \<notin> dom al" "bp \<noteq> base"
        "heap_ok base (snd r) l' (insert bp (dom al))" "hsize (snd r) bp = units_for nbytes" "\<forall>a\<in>dom al. hsize (snd r) a = hsize s1 a"
      unfolding granted_def by (elim exE conjE) (rule that)
    have "bp + 8 \<noteq> 0" using granted_nonzero [OF g0(2) u(1)] g(2) by simp
    moreover have "client_ok base (snd r) (al(bp := Some nbytes))"
      unfolding client_ok_def
    proof (intro conjI allI impI)
      show "freep (snd r) = 0 \<and> base \<noteq> 0 \<and> unat base + 8 \<le> unat (brk (snd r)) \<and> al(bp := Some nbytes) = Map.empty \<or>
        (\<exists>l. heap_ok base (snd r) l (dom (al(bp := Some nbytes))))" using g(5) by auto
      fix a n assume a: "(al(bp := Some nbytes)) a = Some n"
      show "unat n + 8 \<le> 8 * unat (hsize (snd r) a)"
      proof (cases "a = bp")
        case True
        then show ?thesis using a g(6) u(3) by simp
      next
        case False
        then have "al a = Some n" using a by simp
        moreover from this have "a \<in> dom al" by blast
        ultimately show ?thesis using old g(1,7) by simp
      qed
    qed
    ultimately show ?thesis using r(1) g(2,3) by (intro exI [of _ "fst r"] exI [of _ "snd r"]) (auto simp: prod_eq_iff)
  qed
qed

lemma free_ok:
  assumes "client_ok base s al" and "al bp \<noteq> None"
  shows "\<exists>s'. free (bp + 8) s = Some s' \<and> client_ok base s' (al(bp := None))"
proof -
  obtain l where ok: "heap_ok base s l (dom al)" using assms by (auto simp: client_ok_def)
  define ys where "ys = dom (al(bp := None))"
  have d: "dom al = insert bp ys" "bp \<notin> ys" using assms(2) by (simp_all add: ys_def domIff insert_absorb)
  have ok': "heap_ok base s l (insert bp ys)" using ok unfolding d(1) .
  have "bp \<noteq> base" using heap_invD(4,9) [OF heap_okD(1) [OF ok']] by auto
  then obtain s' l' where f: "free (bp + 8) s = Some s'" "heap_ok base s' l' ys" "\<forall>a\<in>ys. hsize s' a = hsize s a"
    using free_blocks [OF ok' d(2)] by blast
  have "unat n + 8 \<le> 8 * unat (hsize s' a)" if a: "(al(bp := None)) a = Some n" for a n
  proof -
    have "a \<in> ys" "al a = Some n" using a by (auto simp: ys_def split: if_splits)
    then show ?thesis using f(3) assms(1) unfolding client_ok_def by simp
  qed
  then have "client_ok base s' (al(bp := None))" using f(2) unfolding client_ok_def ys_def by blast
  then show ?thesis using f(1) by blast
qed

lemma client_invariant:
  assumes "client grows base s al" and "kernel_grows grows"
  shows "client_ok base s al"
  using assms
proof (induction rule: client.induct)
  case (gets s al nbytes r s')
  then obtain r1 s1 where "malloc grows base nbytes s = Some (r1, s1)" "r1 \<noteq> 0 \<longrightarrow> client_ok base s1 (al(r1 - 8 := Some nbytes))"
    using malloc_ok [of base s al grows nbytes] by blast
  then show ?case using gets.hyps by (simp del: fun_upd_apply)
next
  case (refused s al nbytes s')
  then show ?case using malloc_ok [of base s al grows nbytes] by auto
next
  case (gives_back s al bp s')
  then obtain s1 where "free (bp + 8) s = Some s1" "client_ok base s1 (al(bp := None))" using free_ok [of base s al bp] by blast
  then show ?case using gives_back.hyps by (simp del: fun_upd_apply)
qed (simp add: client_ok_def)

text \<open>C8. Whatever a program does with the allocator, as long as it asks for less than 2147418112 bytes at a time and gives
  back only what it got: each block it holds lies inside the process and has room for what was asked, no two of them
  overlap, also counting their headers; \<open>malloc\<close> always returns, with a block it does not hold yet, or with null only if
  no free block is large enough and the kernel refuses the memory asked of it, the size of the block or 32768 bytes if
  that is more; and \<open>free\<close> of a block it holds always returns.\<close>

theorem malloc_blocks_disjoint:
  assumes "client grows base s al" and "kernel_grows grows"
  shows "(\<forall>a n. al a = Some n \<longrightarrow> unat n + 8 \<le> 8 * unat (hsize s a) \<and> unat base + 8 \<le> unat a \<and> block_end s a \<le> unat (brk s)) \<and>
    (\<forall>a b. al a \<noteq> None \<longrightarrow> al b \<noteq> None \<longrightarrow> a \<noteq> b \<longrightarrow> extent s a \<inter> extent s b = {}) \<and>
    (\<forall>nbytes. unat nbytes < 2147418112 \<longrightarrow> (\<exists>r s'. malloc grows base nbytes s = Some (r, s') \<and>
       (if r = 0 then refuses grows (brk s) (unat (units_for nbytes)) \<and>
          (\<forall>l. heap_ok base s l (dom al) \<longrightarrow> (\<forall>a\<in>set l. unat (hsize s a) < unat (units_for nbytes)))
        else al (r - 8) = None \<and> client grows base s' (al(r - 8 := Some nbytes))))) \<and>
    (\<forall>a. al a \<noteq> None \<longrightarrow> (\<exists>s'. free (a + 8) s = Some s' \<and> client grows base s' (al(a := None))))"
proof -
  have ok: "client_ok base s al" by (rule client_invariant [OF assms])
  have room: "unat n + 8 \<le> 8 * unat (hsize s a) \<and> unat base + 8 \<le> unat a \<and> block_end s a \<le> unat (brk s)" if a: "al a = Some n" for a n
  proof -
    obtain l where l: "heap_inv base s l (dom al)" using ok a by (auto simp: client_ok_def heap_ok_def)
    have m: "a \<in> set l \<union> dom al" "a \<noteq> base" using a heap_invD(4,9) [OF l] by auto
    show ?thesis using ok a heap_invD(10,12) [OF l m] unfolding client_ok_def by blast
  qed
  have disj: "extent s a \<inter> extent s b = {}" if ab: "al a \<noteq> None" "al b \<noteq> None" "a \<noteq> b" for a b
  proof -
    obtain l where l: "heap_inv base s l (dom al)" using ok ab by (auto simp: client_ok_def heap_ok_def)
    show ?thesis by (rule heap_invD(13) [OF l]) (use ab in auto)
  qed
  have mal: "\<exists>r s'. malloc grows base nbytes s = Some (r, s') \<and>
      (if r = 0 then refuses grows (brk s) (unat (units_for nbytes)) \<and>
          (\<forall>l. heap_ok base s l (dom al) \<longrightarrow> (\<forall>a\<in>set l. unat (hsize s a) < unat (units_for nbytes)))
        else al (r - 8) = None \<and> client grows base s' (al(r - 8 := Some nbytes)))"
    if n: "unat nbytes < 2147418112" for nbytes
    using malloc_ok [OF ok assms(2) n] client.gets [OF assms(1) n] by fastforce
  have fr: "\<exists>s'. free (a + 8) s = Some s' \<and> client grows base s' (al(a := None))" if "al a \<noteq> None" for a
    using free_ok [OF ok that] client.gives_back [OF assms(1) that] by blast
  show ?thesis
    by (rule conjI, intro allI impI, erule room, rule conjI, intro allI impI, erule (2) disj, rule conjI, intro allI impI,
        erule mal, intro allI impI, erule fr)
qed

definition some_kernel :: "u32 \<Rightarrow> int \<Rightarrow> u32 option" where
  "some_kernel b n = (if 0 \<le> n \<and> uint b + n < 2147483648 then Some (b + of_int n) else if n < 0 then Some b else None)"

lemma some_kernel_grows: "kernel_grows some_kernel"
  unfolding kernel_grows_def
proof (intro allI impI)
  fix b n b' assume a: "some_kernel b n = Some b'" "0 \<le> n"
  then have c: "uint b + n < 2147483648" "b' = b + of_int n" by (auto simp: some_kernel_def split: if_splits)
  have "0 \<le> uint b" by simp
  then have "n < 4294967296" using c(1) by linarith
  then have "uint (word_of_int n :: u32) = n" using a(2) by (simp add: uint_word_of_int_eq take_bit_int_eq_self)
  then have "uint b' = uint b + n" using a(2) c by (simp add: uint_word_ariths)
  then show "uint b' = uint b + n \<and> uint b' < 2147483648" using c(1) by simp
qed

definition some_heap :: uheap where
  "some_heap = \<lparr>hptr = (\<lambda>_. 0), hsize = (\<lambda>_. 0), freep = 0, brk = 0x4000\<rparr>"

theorem malloc_blocks_disjoint_witness:
  "client some_kernel 0x1000 some_heap Map.empty \<and>
   (\<exists>r s'. malloc some_kernel 0x1000 100 some_heap = Some (r, s') \<and> r \<noteq> 0 \<and> client some_kernel 0x1000 s' [r - 8 \<mapsto> 100])"
proof -
  have c: "client some_kernel 0x1000 some_heap Map.empty" by (rule client.start) (simp_all add: some_heap_def)
  have "unat (100 :: u32) < 2147418112" by simp
  moreover have "\<not> refuses some_kernel (brk some_heap) (unat (units_for 100))"
    by (simp add: refuses_def some_kernel_def some_heap_def units_for_def)
  ultimately show ?thesis using c malloc_blocks_disjoint [OF c some_kernel_grows] by (metis (no_types, lifting))
qed

section \<open>Requests that wrap around\<close>

text \<open>C36. The number of units is computed modulo 2 to the 32: for the seven largest requests it is 1, a block that is all
  header.  A request of 2 gibibytes passes a negative number to \<open>sbrk\<close>; when the kernel takes that for nothing to do
  and does not move the end of the process, the first \<open>malloc\<close> returns a pointer that lies beyond it.\<close>

theorem malloc_wraps:
  assumes "freep s = 0" and "base \<noteq> 0" and "unat base + 8 \<le> unat (brk s)" and "unat (brk s) < 2147483640"
    and "grows (brk s) (sint (0x80000008 :: u32)) = Some (brk s)"
  shows "(\<forall>nbytes. 4294967289 \<le> unat nbytes \<longrightarrow> units_for nbytes = 1) \<and>
    (\<exists>s'. malloc grows base 0x80000000 s = Some (brk s + 8, s') \<and> brk s' = brk s)"
proof
  show "\<forall>nbytes. 4294967289 \<le> unat nbytes \<longrightarrow> units_for nbytes = 1"
  proof (intro allI impI)
    fix nbytes :: u32 assume n: "4294967289 \<le> unat nbytes"
    have "unat (nbytes + 7) = (unat nbytes + 7) mod 4294967296" by (simp add: unat_word_ariths take_bit_eq_mod)
    also have "\<dots> < 8" using n unat_u32_less [of nbytes] by (simp del: unat_u32_less add: mod_if) arith
    finally have "unat ((nbytes + 7) div 8) = 0" by (simp add: unat_div_distrib)
    then have "(nbytes + 7) div 8 = 0" by (simp add: unat_eq_0)
    then show "units_for nbytes = 1" by (simp add: units_for_def add.commute)
  qed
  let ?b = "brk s" and ?n = "0x10000001 :: u32"
  have lt: "base < ?b" using assms(3) by (simp add: word_less_nat_alt)
  define s1 where "s1 = (set_size base 0 (set_ptr base base s))\<lparr>freep := base\<rparr>"
  define s2 where "s2 = set_size ?b ?n (s1\<lparr>brk := ?b\<rparr>)"
  have ne: "unit_add ?b ?n \<noteq> base"
  proof
    assume e: "unit_add ?b ?n = base"
    have "unat (?b + 0x80000008) = unat ?b + unat (0x80000008 :: u32)"
      by (rule unat_add_lem [THEN iffD1]) (use assms(4) in simp)
    then show False using e assms(3) by (simp add: unit_add_def)
  qed
  have units: "units_for 0x80000000 = ?n" by (simp add: units_for_def)
  have place: "free_place s2 ?b base = Some base"
    using lt by (subst free_place.simps) (auto simp: s2_def s1_def)
  define s3 where "s3 = (set_ptr base ?b (set_ptr ?b base s2))\<lparr>freep := base\<rparr>"
  have free: "free (?b + 8) s2 = Some s3"
    using place lt ne by (auto simp: free_def join_upper_def join_lower_def s3_def s2_def s1_def unit_add_def Let_def)
  have more: "morecore grows ?n s1 = Some (base, s3)"
    using free assms(5) by (simp add: morecore_def sbrk_def s2_def [symmetric]) (simp add: s1_def s2_def s3_def sbrk_def)
  define s4 where "s4 = (set_ptr base base s3)\<lparr>freep := base\<rparr>"
  have loop: "malloc_loop grows ?n base ?b s3 = Some (?b + 8, s4)"
    using lt by (subst malloc_loop.simps) (simp add: carve_def s4_def s3_def s2_def)
  have "malloc_loop grows ?n base base s1 = malloc_loop grows ?n base (hptr s3 base) s3"
    using more assms(2) by (subst malloc_loop.simps) (simp add: s1_def)
  moreover have "hptr s3 base = ?b" by (simp add: s3_def)
  moreover have "malloc grows base 0x80000000 s = malloc_loop grows ?n base base s1"
    using assms(1) units by (simp add: malloc_def Let_def s1_def)
  ultimately have "malloc grows base 0x80000000 s = Some (?b + 8, s4)" using loop by simp
  moreover have "brk s4 = ?b" by (simp add: s4_def s3_def s2_def)
  ultimately show "\<exists>s'. malloc grows base 0x80000000 s = Some (?b + 8, s') \<and> brk s' = ?b" by blast
qed

theorem malloc_wraps_witness:
  "\<exists>s'. malloc some_kernel 0x1000 0x80000000 some_heap = Some (0x4008, s') \<and> brk s' = 0x4000"
proof -
  have "some_kernel (brk some_heap) (sint (0x80000008 :: u32)) = Some (brk some_heap)"
    by (simp add: some_kernel_def)
  then show ?thesis using malloc_wraps [of some_heap "0x1000" some_kernel] by (simp add: some_heap_def)
qed

end
