(* ===== verification/VmMap.thy ===== *)
theory VmMap
  imports Vm
begin

text \<open>
  What the page tables mean.  \<open>translate\<close> is the walk the processor makes; \<open>pt_ok\<close> says that a page directory and its
  tables are pages of their own, none of them on the free list.  Under that invariant \<open>walkpgdir\<close> never changes a
  translation, and \<open>mappages\<close> changes exactly the translations it is asked for.
\<close>

unbundle bit_operations_syntax

section \<open>Entries of a page of words\<close>

definition entry :: "mem \<Rightarrow> u32 \<Rightarrow> u32 \<Rightarrow> u32" where
  "entry m p i = load32 m (p + 4 * i)"

definition aligned :: "u32 \<Rightarrow> bool" where
  "aligned p \<longleftrightarrow> unat p mod 4096 = 0"

lemma mask_0x3FF: "w AND 0x3FF = take_bit 10 (w :: u32)"
  by (simp add: take_bit_eq_mask mask_eq_exp_minus_1)

lemma unat_PDX: "unat (PDX va) = unat va div 4194304"
proof -
  have "unat (take_bit 10 (drop_bit 22 va)) = unat va div 4194304 mod 1024"
    by (simp add: take_bit_eq_mod drop_bit_eq_div unat_mod_distrib unat_div_distrib)
  moreover have "unat va div 4194304 < 1024" using unat_u32_less [of va] by (simp add: less_mult_imp_div_less del: unat_u32_less)
  ultimately show ?thesis by (simp only: PDX_def mask_0x3FF mod_less)
qed

lemma unat_PTX: "unat (PTX va) = unat va div 4096 mod 1024"
  by (simp add: PTX_def mask_0x3FF take_bit_eq_mod drop_bit_eq_div unat_mod_distrib unat_div_distrib)

lemma index_less: "unat (PDX va) < 1024" "unat (PTX va) < 1024"
  using unat_u32_less [of va] by (simp_all add: unat_PDX unat_PTX less_mult_imp_div_less del: unat_u32_less)

lemma same_page_iff: "PDX a = PDX b \<and> PTX a = PTX b \<longleftrightarrow> PGROUNDDOWN a = PGROUNDDOWN b"
proof -
  have "PDX a = PDX b \<and> PTX a = PTX b \<longleftrightarrow> unat a div 4096 = unat b div 4096"
  proof
    assume e: "PDX a = PDX b \<and> PTX a = PTX b"
    then have "unat a div 4096 div 1024 = unat b div 4096 div 1024" "unat a div 4096 mod 1024 = unat b div 4096 mod 1024"
      using unat_PDX [of a] unat_PDX [of b] unat_PTX [of a] unat_PTX [of b] by (simp_all add: div_mult2_eq [symmetric])
    then show "unat a div 4096 = unat b div 4096" by (metis div_mod_decomp)
  next
    assume e: "unat a div 4096 = unat b div 4096"
    have "unat x div 4194304 = unat x div 4096 div 1024" for x :: u32 by (simp add: div_mult2_eq [symmetric])
    then show "PDX a = PDX b \<and> PTX a = PTX b"
      using e by (simp add: word_unat_eq_iff unat_PDX unat_PTX)
  qed
  also have "\<dots> \<longleftrightarrow> unat (PGROUNDDOWN a) = unat (PGROUNDDOWN b)"
    by (simp add: unat_PGROUNDDOWN minus_mod_eq_mult_div)
  finally show ?thesis by (simp add: word_unat_eq_iff)
qed

lemma entry_address: "p + 4 * i + of_nat k = p + of_nat (4 * unat i + k)"
  by simp

lemma entry_in_page:
  assumes "aligned p" "unat i < 1024" "k < 4"
  shows "PGROUNDDOWN (p + 4 * i + of_nat k) = p"
  unfolding entry_address using assms by (intro PGROUNDDOWN_offset) (auto simp: aligned_def)

lemma load32_eqI: "(\<And>k. k < 4 \<Longrightarrow> m' (a + of_nat k) = m (a + of_nat k)) \<Longrightarrow> load32 m' a = load32 m a"
proof -
  assume a: "\<And>k. k < 4 \<Longrightarrow> m' (a + of_nat k) = m (a + of_nat k)"
  show ?thesis using a [of 0] a [of 1] a [of 2] a [of 3] by (simp add: load32_def)
qed

lemma entry_cong:
  assumes "aligned p" "unat i < 1024" "\<And>x. PGROUNDDOWN x = p \<Longrightarrow> m' x = m x"
  shows "entry m' p i = entry m p i"
  unfolding entry_def by (intro load32_eqI assms(3) entry_in_page [OF assms(1,2)])

lemma entry_store_same [simp]: "entry (store32 m (p + 4 * i) w) p i = w"
  by (simp add: entry_def)

lemma entry_store_other:
  assumes "unat i < 1024" "unat j < 1024" "i \<noteq> j"
  shows "entry (store32 m (p + 4 * i) w) p j = entry m p j"
proof -
  have "store32 m (p + 4 * i) w (p + 4 * j + of_nat k) = m (p + 4 * j + of_nat k)" if "k < 4" for k
  proof (rule store32_other, rule ccontr)
    assume "\<not> 4 \<le> off (p + 4 * i) (p + 4 * j + of_nat k)"
    then obtain l where l: "l < 4" "off (p + 4 * i) (p + 4 * j + of_nat k) = l" by auto
    then have "p + of_nat (4 * unat i + l) = p + of_nat (4 * unat j + k)"
      using add_off [of "p + 4 * i" "p + 4 * j + of_nat k"] by (simp add: algebra_simps)
    then have "unat (of_nat (4 * unat i + l) :: u32) = unat (of_nat (4 * unat j + k) :: u32)" by (metis add_left_cancel)
    moreover have u: "unat (of_nat n :: u32) = n" if "n < 8192" for n using that by (simp add: unat_of_nat)
    ultimately have "4 * unat i + l = 4 * unat j + k"
      using assms(1,2) that l(1) u [of "4 * unat i + l"] u [of "4 * unat j + k"] by linarith
    then have "unat i = unat j" using that l(1) by presburger
    then show False using assms(3) by (simp add: word_unat_eq_iff)
  qed
  then show ?thesis unfolding entry_def by (rule load32_eqI)
qed

lemma store_other_page:
  assumes "aligned q" "unat i < 1024" "PGROUNDDOWN x \<noteq> q"
  shows "store32 m (q + 4 * i) w x = m x"
proof (rule store32_other, rule ccontr)
  assume "\<not> 4 \<le> off (q + 4 * i) x"
  then have "PGROUNDDOWN (q + 4 * i + of_nat (off (q + 4 * i) x)) = q" by (intro entry_in_page assms) simp
  then show False using assms(3) by simp
qed

lemma entry_zeroed:
  assumes "aligned p" "unat i < 1024"
  shows "entry (memset m p 0 PGSIZE) p i = 0"
proof -
  have "memset m p 0 PGSIZE (p + 4 * i + of_nat k) = 0" if "k < 4" for k
    using in_page_iff [of p "p + 4 * i + of_nat k"] entry_in_page [OF assms that] assms(1)
    by (simp add: memset_apply aligned_def)
  then have "entry (memset m p 0 PGSIZE) p i = load32 (\<lambda>_. 0) (p + 4 * i)" unfolding entry_def by (rule load32_eqI)
  then show ?thesis by (simp add: load32_def join32_def)
qed

lemma memset_other_page: "aligned p \<Longrightarrow> PGROUNDDOWN x \<noteq> p \<Longrightarrow> memset m p c PGSIZE x = m x"
  using in_page_iff [of p x] by (simp add: memset_apply aligned_def)

lemma page_ok_aligned': "page_ok kend p \<Longrightarrow> aligned p"
  by (simp add: aligned_def page_ok_aligned)

section \<open>Translation\<close>

definition translate :: "mem \<Rightarrow> u32 \<Rightarrow> u32 \<Rightarrow> u32 option" where
  "translate m pgdir va =
     (let e = entry m pgdir (PDX va) in
      if e AND PTE_P = 0 then None
      else let p = entry m (P2V (PTE_ADDR e)) (PTX va) in if p AND PTE_P = 0 then None else Some p)"

text \<open>The page tables of a directory.\<close>

definition table :: "mem \<Rightarrow> u32 \<Rightarrow> u32 \<Rightarrow> u32 option" where
  "table m pgdir d = (let e = entry m pgdir d in if e AND PTE_P = 0 then None else Some (P2V (PTE_ADDR e)))"

lemma translate_table:
  "translate m pgdir va =
     (case table m pgdir (PDX va) of None \<Rightarrow> None
      | Some t \<Rightarrow> let p = entry m t (PTX va) in if p AND PTE_P = 0 then None else Some p)"
  by (simp add: translate_def table_def Let_def)

definition pt_ok :: "u32 \<Rightarrow> kmem \<Rightarrow> u32 \<Rightarrow> bool" where
  "pt_ok kend k pgdir \<longleftrightarrow> kmem_inv kend k \<and> page_ok kend pgdir \<and> pgdir \<notin> kmem_avail k \<and>
     (\<forall>d t. unat d < 1024 \<and> table (memory k) pgdir d = Some t \<longrightarrow> page_ok kend t \<and> t \<notin> kmem_avail k \<and> t \<noteq> pgdir) \<and>
     (\<forall>d d' t. unat d < 1024 \<and> unat d' < 1024 \<and> table (memory k) pgdir d = Some t \<and> table (memory k) pgdir d' = Some t \<longrightarrow> d = d')"

lemma pt_okD:
  assumes "pt_ok kend k pgdir"
  shows "kmem_inv kend k" "page_ok kend pgdir" "aligned pgdir" "pgdir \<notin> kmem_avail k"
    "unat d < 1024 \<Longrightarrow> table (memory k) pgdir d = Some t \<Longrightarrow> page_ok kend t \<and> aligned t \<and> t \<notin> kmem_avail k \<and> t \<noteq> pgdir"
    "unat d < 1024 \<Longrightarrow> unat d' < 1024 \<Longrightarrow> table (memory k) pgdir d = Some t \<Longrightarrow> table (memory k) pgdir d' = Some t \<Longrightarrow> d = d'"
  using assms page_ok_aligned' unfolding pt_ok_def by blast+

text \<open>Writing pages that are not free does not disturb the allocator.\<close>

lemma pte_bits:
  assumes "aligned w" "unat f < 4096"
  shows "PTE_ADDR (w OR f) = w" "PTE_FLAGS (w OR f) = f"
proof -
  have w: "\<not> bit w n" if "n < 12" for n
  proof -
    have "take_bit 12 w = 0" using assms(1) by (simp add: aligned_def word_unat_eq_iff unat_take_bit12)
    then show ?thesis using that by (metis bit_0_eq bit_take_bit_iff bot_apply bot_bool_def)
  qed
  have f: "\<not> bit f n" if "12 \<le> n" for n
  proof -
    have "take_bit 12 f = f" using assms(2) by (simp add: word_unat_eq_iff unat_take_bit12)
    then show ?thesis using that by (metis bit_take_bit_iff not_le)
  qed
  have m: "(0xFFF :: u32) = mask 12" by (simp add: mask_eq_exp_minus_1)
  show "PTE_ADDR (w OR f) = w" unfolding PTE_ADDR_def m
  proof (rule bit_word_eqI)
    fix n show "bit ((w OR f) AND NOT (mask 12)) n = bit w n" if "n < LENGTH(32)"
      using that w [of n] f [of n] by (cases "n < 12") (auto simp: bit_simps)
  qed
  show "PTE_FLAGS (w OR f) = f" unfolding PTE_FLAGS_def m
  proof (rule bit_word_eqI)
    fix n show "bit ((w OR f) AND mask 12) n = bit f n" if "n < LENGTH(32)"
      using that w [of n] f [of n] by (cases "n < 12") (auto simp: bit_simps)
  qed
qed

lemma present_iff: "(w :: u32) AND 1 \<noteq> 0 \<longleftrightarrow> bit w 0"
  using and_exp_eq_0_iff_not_bit [of w 0] by simp

lemma V2P_aligned: "page_ok kend p \<Longrightarrow> aligned (V2P p)"
proof -
  assume p: "page_ok kend p"
  have "0x80000000 \<le> unat p" using p V2P_below by (auto simp: page_ok_def)
  then have "unat (V2P p) = unat p - 0x80000000" by (simp add: V2P_def unat_sub word_le_nat_alt)
  moreover have "4096 dvd unat p - 0x80000000"
    by (rule dvd_diff_nat) (use page_ok_aligned [OF p] in auto)
  ultimately show ?thesis by (simp add: aligned_def mod_eq_0_iff_dvd)
qed

section \<open>Walking\<close>

text \<open>The place of a page table entry, when its table exists.\<close>

definition pte_of :: "mem \<Rightarrow> u32 \<Rightarrow> u32 \<Rightarrow> u32 option" where
  "pte_of m pgdir va = map_option (\<lambda>t. t + 4 * PTX va) (table m pgdir (PDX va))"

lemma walkpgdir_lookup: "walkpgdir k pgdir va False = (case pte_of (memory k) pgdir va of Some a \<Rightarrow> a | None \<Rightarrow> 0, k)"
  by (simp add: walkpgdir_def pte_of_def table_def entry_def Let_def)

lemma walkpgdir_present: "pte_of (memory k) pgdir va = Some a \<Longrightarrow> walkpgdir k pgdir va al = (a, k)"
  by (auto simp: walkpgdir_def pte_of_def table_def entry_def Let_def split: if_splits)

lemma page_ok_entry_nonzero: "page_ok kend t \<Longrightarrow> unat i < 1024 \<Longrightarrow> t + 4 * i \<noteq> 0"
proof
  assume t: "page_ok kend t" "unat i < 1024" "t + 4 * i = 0"
  have "PGROUNDDOWN (t + 4 * i + of_nat 0) = t" using t by (intro entry_in_page page_ok_aligned') auto
  then show False using t(1,3) page_ok_nonzero by (auto simp: PGROUNDDOWN_def)
qed

text \<open>A new page table: the free page goes into the directory, zeroed, and no translation changes.\<close>

lemma new_table:
  assumes ok: "pt_ok kend k pgdir" and d: "unat d < 1024" "table (memory k) pgdir d = None"
    and a: "kalloc k = (t, k1)" "t \<noteq> 0"
    and m: "m = store32 (memset (memory k1) t 0 PGSIZE) (pgdir + 4 * d) (V2P t OR PTE_P OR PTE_W OR PTE_U)"
  shows "pt_ok kend (k1\<lparr>memory := m\<rparr>) pgdir" "table m pgdir d = Some t"
    "unat i < 1024 \<Longrightarrow> i \<noteq> d \<Longrightarrow> table m pgdir i = table (memory k) pgdir i" "unat j < 1024 \<Longrightarrow> entry m t j = 0"
    "kmem_avail (k1\<lparr>memory := m\<rparr>) = kmem_avail k - {t}" "t \<in> kmem_avail k"
    "\<And>x. PGROUNDDOWN x \<noteq> t \<Longrightarrow> PGROUNDDOWN x \<noteq> pgdir \<Longrightarrow> m x = memory k x"
proof -
  note ok' = pt_okD [OF ok]
  have ne: "kmem_avail k \<noteq> {}" using kpages.alloc_zero_iff [OF ok'(1)] a by auto
  note al = kpages.alloc_some [OF ok'(1) ne a(1)]
  show t: "t \<in> kmem_avail k" using al by blast
  have tp: "page_ok kend t" "aligned t" using kpages.avail_valid [OF ok'(1) t] page_ok_aligned' by auto
  have tn: "t \<noteq> pgdir" using t ok'(4) by auto
  have k1: "memory k1 = memory k" using a by (auto simp: kalloc_def Let_def split: if_splits)
  have e: "PTE_ADDR (V2P t OR PTE_P OR PTE_W OR PTE_U) = V2P t" "(V2P t OR PTE_P OR PTE_W OR PTE_U) AND PTE_P \<noteq> 0"
  proof -
    have "V2P t OR PTE_P OR PTE_W OR PTE_U = V2P t OR 7" by (simp add: or.assoc)
    moreover have "(V2P t OR 7) AND 1 \<noteq> 0"
      by (simp only: present_iff bit_or_iff) simp
    ultimately show "PTE_ADDR (V2P t OR PTE_P OR PTE_W OR PTE_U) = V2P t" "(V2P t OR PTE_P OR PTE_W OR PTE_U) AND PTE_P \<noteq> 0"
      using pte_bits [OF V2P_aligned [OF tp(1)], of 7] by simp_all
  qed
  show fr: "m x = memory k x" if "PGROUNDDOWN x \<noteq> t" "PGROUNDDOWN x \<noteq> pgdir" for x
    using that by (simp add: m k1 store_other_page [OF ok'(3) d(1)] memset_other_page [OF tp(2)])
  have dir: "entry m pgdir i = (if i = d then V2P t OR PTE_P OR PTE_W OR PTE_U else entry (memory k) pgdir i)" if "unat i < 1024" for i
  proof (cases "i = d")
    case False
    then have "entry m pgdir i = entry (memset (memory k1) t 0 PGSIZE) pgdir i" unfolding m using that d by (simp add: entry_store_other)
    also have "\<dots> = entry (memory k) pgdir i"
      by (rule entry_cong [OF ok'(3) that]) (use tn k1 in \<open>auto simp: memset_other_page [OF tp(2)]\<close>)
    finally show ?thesis using False by simp
  qed (simp add: m)
  show td: "table m pgdir d = Some t" using dir [OF d(1)] e by (simp add: table_def)
  show ti: "table m pgdir i = table (memory k) pgdir i" if "unat i < 1024" "i \<noteq> d" for i
    using dir [OF that(1)] that(2) by (simp add: table_def)
  show "entry m t j = 0" if "unat j < 1024"
  proof -
    have "entry m t j = entry (memset (memory k1) t 0 PGSIZE) t j"
      by (rule entry_cong [OF tp(2) that]) (use tn in \<open>auto simp: m store_other_page [OF ok'(3) d(1)]\<close>)
    then show ?thesis using entry_zeroed [OF tp(2) that] by simp
  qed
  have "m x = memory k1 x" if "PGROUNDDOWN x \<in> kmem_avail k1" for x
    using fr [of x] that al ok'(4) k1 by auto
  from kmem_cong [of kend k1 m, OF _ this]
  have inv: "kmem_inv kend (k1\<lparr>memory := m\<rparr>)" and av: "kmem_avail (k1\<lparr>memory := m\<rparr>) = kmem_avail k - {t}" using al by auto
  show "kmem_avail (k1\<lparr>memory := m\<rparr>) = kmem_avail k - {t}" by (rule av)
  have own: "page_ok kend u \<and> u \<notin> kmem_avail k - {t} \<and> u \<noteq> pgdir" if "unat i < 1024" "table m pgdir i = Some u" for i u
    using that td ti [OF that(1)] ok'(5) [of i u] tp tn by (cases "i = d") auto
  have inj: "i = j" if "unat i < 1024" "unat j < 1024" "table m pgdir i = Some u" "table m pgdir j = Some u" for i j u
  proof (cases "i = d \<or> j = d")
    case False
    then show ?thesis using that ti [of i] ti [of j] ok'(6) [of i j u] by simp
  next
    case True
    have "u = t" using True that td by auto
    then have "\<not> (unat l < 1024 \<and> l \<noteq> d \<and> table m pgdir l = Some u)" for l using ti [of l] ok'(5) [of l u] t by auto
    then show ?thesis using that by blast
  qed
  show "pt_ok kend (k1\<lparr>memory := m\<rparr>) pgdir"
    unfolding pt_ok_def av using inv ok'(2,4) own inj by auto
qed

text \<open>The pages a page directory is made of.\<close>

definition pt_pages :: "mem \<Rightarrow> u32 \<Rightarrow> u32 set" where
  "pt_pages m pgdir = insert pgdir {t. \<exists>d. unat d < 1024 \<and> table m pgdir d = Some t}"

lemma walk_alloc:
  assumes ok: "pt_ok kend k pgdir" and w: "walkpgdir k pgdir va True = (a, k')"
  shows "a = 0 \<and> k' = k \<and> kmem_avail k = {} \<or>
    a \<noteq> 0 \<and> pt_ok kend k' pgdir \<and> pte_of (memory k') pgdir va = Some a \<and>
    translate (memory k') pgdir = translate (memory k) pgdir \<and> kmem_avail k' \<subseteq> kmem_avail k \<and>
    pt_pages (memory k) pgdir \<subseteq> pt_pages (memory k') pgdir \<and> pt_pages (memory k') pgdir \<subseteq> pt_pages (memory k) pgdir \<union> kmem_avail k \<and>
    (\<forall>x. PGROUNDDOWN x \<notin> pt_pages (memory k') pgdir \<longrightarrow> memory k' x = memory k x)"
proof (cases "table (memory k) pgdir (PDX va)")
  case (Some t)
  then have p: "pte_of (memory k) pgdir va = Some (t + 4 * PTX va)" by (simp add: pte_of_def)
  then have a: "k' = k" "a = t + 4 * PTX va" using walkpgdir_present [OF p, of True] w by auto
  have "page_ok kend t" using pt_okD(5) [OF ok index_less(1) Some] by simp
  then have "a \<noteq> 0" using page_ok_entry_nonzero [OF _ index_less(2)] unfolding a by blast
  then show ?thesis using ok p a by simp
next
  case None
  have np: "load32 (memory k) (pgdir + 4 * PDX va) AND PTE_P = 0" using None by (simp add: table_def entry_def Let_def split: if_splits)
  obtain t k1 where al: "kalloc k = (t, k1)" by fastforce
  show ?thesis
  proof (cases "t = 0")
    case True
    then have "kmem_avail k = {}" using kpages.alloc_zero_iff [OF pt_okD(1) [OF ok]] al by simp
    then show ?thesis using w np al True kpages.alloc_none [OF pt_okD(1) [OF ok]] by (auto simp: walkpgdir_def Let_def)
  next
    case False
    define m where "m = store32 (memset (memory k1) t 0 PGSIZE) (pgdir + 4 * PDX va) (V2P t OR PTE_P OR PTE_W OR PTE_U)"
    have a: "a = t + 4 * PTX va" "k' = k1\<lparr>memory := m\<rparr>" using w np al False by (auto simp: walkpgdir_def Let_def m_def)
    note n = new_table [OF ok index_less(1) None al False m_def]
    have tp: "page_ok kend t" using kpages.avail_valid [OF pt_okD(1) [OF ok] n(6)] .
    have "translate m pgdir v = translate (memory k) pgdir v" for v
    proof (cases "PDX v = PDX va")
      case True
      then show ?thesis using None n(2) n(4) [OF index_less(2)] by (simp add: translate_table)
    next
      case False
      show ?thesis
      proof (cases "table (memory k) pgdir (PDX v)")
        case None
        then show ?thesis using n(3) [OF index_less(1) False] by (simp add: translate_table)
      next
        case (Some u)
        note u = pt_okD(5) [OF ok index_less(1) Some]
        have "entry m u (PTX v) = entry (memory k) u (PTX v)"
        proof (rule entry_cong [OF _ index_less(2)])
          fix x assume "PGROUNDDOWN x = u"
          then show "m x = memory k x" using u n(6) by (intro n(7)) auto
        qed (use u in simp)
        then show ?thesis using Some n(3) [OF index_less(1) False] by (simp add: translate_table)
      qed
    qed
    moreover have "a \<noteq> 0" unfolding a(1) by (rule page_ok_entry_nonzero [OF tp index_less(2)])
    moreover have "pt_pages m pgdir = insert t (pt_pages (memory k) pgdir)"
    proof -
      have "(\<exists>d. unat d < 1024 \<and> table m pgdir d = Some u) \<longleftrightarrow> u = t \<or> (\<exists>d. unat d < 1024 \<and> table (memory k) pgdir d = Some u)" for u
        using n(2,3) None index_less(1) by (metis option.distinct(1) option.inject)
      then show ?thesis by (auto simp: pt_pages_def)
    qed
    moreover have "pte_of m pgdir va = Some a" using n(2) a(1) by (simp add: pte_of_def)
    moreover have "pgdir \<in> pt_pages (memory k) pgdir" by (simp add: pt_pages_def)
    ultimately show ?thesis using n(1,5,6,7) by (auto simp: a(2) fun_eq_iff)
  qed
qed

text \<open>Writing a page table entry changes one translation.\<close>

lemma set_pte:
  assumes ok: "pt_ok kend k pgdir" and a: "pte_of (memory k) pgdir va = Some a"
  shows "pt_ok kend (k\<lparr>memory := store32 (memory k) a w\<rparr>) pgdir"
    "kmem_avail (k\<lparr>memory := store32 (memory k) a w\<rparr>) = kmem_avail k"
    "translate (store32 (memory k) a w) pgdir v =
       (if PGROUNDDOWN v = PGROUNDDOWN va then if w AND PTE_P = 0 then None else Some w else translate (memory k) pgdir v)"
    "translate (memory k) pgdir va = (if load32 (memory k) a AND PTE_P = 0 then None else Some (load32 (memory k) a))"
    "pt_pages (store32 (memory k) a w) pgdir = pt_pages (memory k) pgdir"
    "PGROUNDDOWN x \<notin> pt_pages (memory k) pgdir \<Longrightarrow> store32 (memory k) a w x = memory k x"
proof -
  obtain t where t: "table (memory k) pgdir (PDX va) = Some t" and a': "a = t + 4 * PTX va" using a by (auto simp: pte_of_def)
  note tp = pt_okD(5) [OF ok index_less(1) t]
  let ?m = "store32 (memory k) a w"
  have fr: "?m x = memory k x" if "PGROUNDDOWN x \<noteq> t" for x
    unfolding a' by (rule store_other_page) (use tp index_less that in auto)
  have tab: "table ?m pgdir d = table (memory k) pgdir d" if "unat d < 1024" for d
  proof -
    have "entry ?m pgdir d = entry (memory k) pgdir d" by (rule entry_cong [OF _ that]) (use tp pt_okD(3) [OF ok] fr in auto)
    then show ?thesis by (simp add: table_def)
  qed
  show "translate (memory k) pgdir va = (if load32 (memory k) a AND PTE_P = 0 then None else Some (load32 (memory k) a))"
    using t a' by (simp add: translate_table entry_def Let_def)
  show "translate ?m pgdir v =
       (if PGROUNDDOWN v = PGROUNDDOWN va then if w AND PTE_P = 0 then None else Some w else translate (memory k) pgdir v)"
  proof (cases "table (memory k) pgdir (PDX v)")
    case None
    then show ?thesis using t tab [OF index_less(1), of v] same_page_iff [of v va] by (auto simp: translate_table)
  next
    case (Some u)
    note up = pt_okD(5) [OF ok index_less(1) Some]
    have "entry ?m u (PTX v) = (if u = t \<and> PTX v = PTX va then w else entry (memory k) u (PTX v))"
    proof (cases "u = t")
      case True
      then show ?thesis using entry_store_other [of "PTX va" "PTX v"] index_less(2) by (auto simp: a')
    next
      case False
      then show ?thesis using entry_cong [of u "PTX v" ?m "memory k"] up fr index_less(2) by auto
    qed
    moreover have "u = t \<longleftrightarrow> PDX v = PDX va" using Some t pt_okD(6) [OF ok index_less(1) index_less(1)] by auto
    ultimately show ?thesis using Some tab [OF index_less(1), of v] same_page_iff [of v va] by (auto simp: translate_table Let_def)
  qed
  have "?m x = memory k x" if "PGROUNDDOWN x \<in> kmem_avail k" for x
  proof (rule fr)
    show "PGROUNDDOWN x \<noteq> t" using that tp by auto
  qed
  from kmem_cong [OF pt_okD(1) [OF ok] this]
  have inv: "kmem_inv kend (k\<lparr>memory := ?m\<rparr>)" and av: "kmem_avail (k\<lparr>memory := ?m\<rparr>) = kmem_avail k" by auto
  show "kmem_avail (k\<lparr>memory := ?m\<rparr>) = kmem_avail k" by (rule av)
  show "pt_ok kend (k\<lparr>memory := ?m\<rparr>) pgdir"
    using inv ok unfolding pt_ok_def av by (simp add: tab cong: conj_cong)
  show "pt_pages ?m pgdir = pt_pages (memory k) pgdir" by (auto simp: pt_pages_def tab)
  show "PGROUNDDOWN x \<notin> pt_pages (memory k) pgdir \<Longrightarrow> ?m x = memory k x"
  proof (rule fr)
    assume "PGROUNDDOWN x \<notin> pt_pages (memory k) pgdir"
    then show "PGROUNDDOWN x \<noteq> t" using t index_less(1) by (auto simp: pt_pages_def)
  qed
qed

section \<open>Mapping\<close>

lemma off_pages:
  assumes "aligned a" "aligned p"
  shows "4096 dvd off a p"
proof -
  have v: "4096 dvd unat p" "4096 dvd unat a" using assms by (auto simp: aligned_def)
  show ?thesis
  proof (cases "unat a \<le> unat p")
    case True
    then show ?thesis using v by (simp add: off_flip dvd_diff_nat)
  next
    case False
    have "4096 dvd (2 ^ 32 :: nat) - (unat a - unat p)" using v by (intro dvd_diff_nat) auto
    then show ?thesis using False by (simp add: off_flip')
  qed
qed

lemma next_page:
  assumes "aligned a" "aligned p" "p \<noteq> a"
  shows "4096 \<le> off a p" "off (a + 4096) p = off a p - 4096"
proof -
  from off_pages [OF assms(1,2)] have d: "unat (p - a) mod 4096 = 0" by (simp add: off_def)
  have "unat (p - a) \<noteq> 0" using assms(3) by (simp add: unat_eq_0)
  then show le: "4096 \<le> off a p" using d unfolding off_def by (meson dvd_imp_le mod_0_imp_dvd neq0_conv)
  have "unat ((p - a) - 4096) = unat (p - a) - 4096" using le by (simp add: off_def unat_sub word_le_nat_alt)
  then show "off (a + 4096) p = off a p - 4096" by (simp only: off_def diff_diff_eq)
qed

lemma aligned_next: "aligned a \<Longrightarrow> aligned (a + 4096)"
proof -
  assume a: "aligned a"
  have "unat (a + 4096) mod 4096 = (unat a + 4096) mod 4294967296 mod 4096" by (simp add: unat_word_ariths)
  also have "\<dots> = (unat a + 4096) mod 4096" by (rule mod_mod_cancel) simp
  finally show "aligned (a + 4096)" using a by (simp add: aligned_def)
qed

lemma aligned_PGROUNDDOWN: "aligned (PGROUNDDOWN v)"
  by (simp add: aligned_def PGROUNDDOWN_aligned)

lemma present_or: "(w OR perm OR PTE_P) AND PTE_P \<noteq> 0"
  by (simp only: present_iff bit_or_iff) simp

text \<open>\<open>j\<close> pages from \<open>a\<close> on are mapped to the frames from \<open>pa\<close> on, and nothing else is changed.\<close>

definition maps :: "u32 \<Rightarrow> nat \<Rightarrow> u32 \<Rightarrow> u32 \<Rightarrow> (u32 \<Rightarrow> u32 option) \<Rightarrow> (u32 \<Rightarrow> u32 option) \<Rightarrow> bool" where
  "maps a j pa perm tr tr' \<longleftrightarrow>
     (\<forall>v. tr' v = (if off a (PGROUNDDOWN v) < 4096 * j then Some ((pa + (PGROUNDDOWN v - a)) OR perm OR PTE_P) else tr v))"

definition mapped_to :: "u32 \<Rightarrow> kmem \<Rightarrow> u32 \<Rightarrow> kmem \<Rightarrow> bool" where
  "mapped_to kend k pgdir k' \<longleftrightarrow> pt_ok kend k' pgdir \<and> kmem_avail k' \<subseteq> kmem_avail k \<and>
     pt_pages (memory k') pgdir \<subseteq> pt_pages (memory k) pgdir \<union> kmem_avail k \<and>
     pt_pages (memory k) pgdir \<subseteq> pt_pages (memory k') pgdir \<and>
     (\<forall>x. PGROUNDDOWN x \<notin> pt_pages (memory k') pgdir \<longrightarrow> memory k' x = memory k x)"

lemma mapped_to_trans: "mapped_to kend k pgdir k1 \<Longrightarrow> mapped_to kend k1 pgdir k2 \<Longrightarrow> mapped_to kend k pgdir k2"
  unfolding mapped_to_def by (auto 0 3)

lemma map_one:
  assumes ok: "pt_ok kend k pgdir" and w: "walkpgdir k pgdir a True = (pte, k1)" "pte \<noteq> 0" and un: "translate (memory k) pgdir a = None"
    and a: "aligned a"
  shows "load32 (memory k1) pte AND PTE_P = 0"
    "mapped_to kend k pgdir (k1\<lparr>memory := store32 (memory k1) pte (pa OR perm OR PTE_P)\<rparr>)"
    "maps a 1 pa perm (translate (memory k) pgdir) (translate (store32 (memory k1) pte (pa OR perm OR PTE_P)) pgdir)"
proof -
  from walk_alloc [OF ok w(1)] w(2)
  have k1: "pt_ok kend k1 pgdir" "pte_of (memory k1) pgdir a = Some pte" "translate (memory k1) pgdir = translate (memory k) pgdir"
    and m: "mapped_to kend k pgdir k1" by (auto simp: mapped_to_def)
  note s = set_pte [OF k1(1,2)]
  show "load32 (memory k1) pte AND PTE_P = 0" using s(4) un k1(3) by (simp split: if_splits)
  have "mapped_to kend k1 pgdir (k1\<lparr>memory := store32 (memory k1) pte (pa OR perm OR PTE_P)\<rparr>)"
    using s(1,2,5,6) by (simp add: mapped_to_def)
  then show "mapped_to kend k pgdir (k1\<lparr>memory := store32 (memory k1) pte (pa OR perm OR PTE_P)\<rparr>)" by (rule mapped_to_trans [OF m])
  have "off a (PGROUNDDOWN v) < 4096 \<longleftrightarrow> PGROUNDDOWN v = a" for v
    using next_page(1) [OF a aligned_PGROUNDDOWN, of v] by (auto simp: not_less [symmetric])
  moreover have "PGROUNDDOWN a = a" using a by (simp add: aligned_def PGROUNDDOWN_self)
  ultimately show "maps a 1 pa perm (translate (memory k) pgdir) (translate (store32 (memory k1) pte (pa OR perm OR PTE_P)) pgdir)"
    using present_or [of pa perm] by (auto simp: maps_def s(3) k1(3))
qed

lemma maps_Suc:
  assumes "maps a 1 pa perm tr tr1" "maps (a + 4096) j (pa + 4096) perm tr1 tr2" "aligned a" "j < 1048576"
  shows "maps a (Suc j) pa perm tr tr2"
  unfolding maps_def
proof
  fix v
  let ?p = "PGROUNDDOWN v"
  show "tr2 v = (if off a ?p < 4096 * Suc j then Some ((pa + (?p - a)) OR perm OR PTE_P) else tr v)"
  proof (cases "?p = a")
    case True
    have "off (a + 4096) a = 2 ^ 32 - 4096" by (simp add: off_def unsigned_minus_1_eq_mask unat_eq_nat_uint)
    then have "\<not> off (a + 4096) ?p < 4096 * j" using assms(4) True by simp
    then show ?thesis using assms(1,2) True by (simp add: maps_def)
  next
    case False
    note n = next_page [OF assms(3) aligned_PGROUNDDOWN False]
    have "off a ?p < 4096 * Suc j \<longleftrightarrow> off (a + 4096) ?p < 4096 * j" using n(1,2) by auto
    then show ?thesis using assms(1,2) n(1) by (simp add: maps_def algebra_simps)
  qed
qed

lemma mappages_loop_step:
  assumes ok: "pt_ok kend k pgdir" "aligned a" and un: "translate (memory k) pgdir a = None"
    and w: "walkpgdir k pgdir a True = (pte, k1)"
  shows "pte = 0 \<Longrightarrow> k1 = k \<and> kmem_avail k = {}"
    "pte \<noteq> 0 \<Longrightarrow> load32 (memory k1) pte AND PTE_P = 0 \<and>
       mapped_to kend k pgdir (k1\<lparr>memory := store32 (memory k1) pte (pa OR perm OR PTE_P)\<rparr>) \<and>
       maps a 1 pa perm (translate (memory k) pgdir) (translate (store32 (memory k1) pte (pa OR perm OR PTE_P)) pgdir)"
proof -
  show "pte \<noteq> 0 \<Longrightarrow> load32 (memory k1) pte AND PTE_P = 0 \<and>
       mapped_to kend k pgdir (k1\<lparr>memory := store32 (memory k1) pte (pa OR perm OR PTE_P)\<rparr>) \<and>
       maps a 1 pa perm (translate (memory k) pgdir) (translate (store32 (memory k1) pte (pa OR perm OR PTE_P)) pgdir)"
    using map_one [OF ok(1) w _ un ok(2)] by blast
  show "pte = 0 \<Longrightarrow> k1 = k \<and> kmem_avail k = {}" using walk_alloc [OF ok(1) w] by auto
qed

lemma mapped_to_refl: "pt_ok kend k pgdir \<Longrightarrow> mapped_to kend k pgdir k"
  by (simp add: mapped_to_def)

lemma maps_0: "maps a 0 pa perm tr tr"
  by (simp add: maps_def)

lemma mappages_loop_spec:
  assumes "pt_ok kend k pgdir" "aligned a" "n < 1048576" "\<And>v. off a (PGROUNDDOWN v) < 4096 * Suc n \<Longrightarrow> translate (memory k) pgdir v = None"
  shows "\<exists>ok k' j. mappages_loop pgdir perm n a pa k = Ok (ok, k') \<and> mapped_to kend k pgdir k' \<and>
    maps a j pa perm (translate (memory k) pgdir) (translate (memory k') pgdir) \<and>
    (if ok then j = Suc n else j \<le> n \<and> kmem_avail k' = {})"
  using assms
proof (induction n arbitrary: a pa k)
  case 0
  obtain pte k1 where w: "walkpgdir k pgdir a True = (pte, k1)" by fastforce
  have "PGROUNDDOWN a = a" using 0(2) by (simp add: aligned_def PGROUNDDOWN_self)
  then have "translate (memory k) pgdir a = None" using 0(4) [of a] by simp
  note s = mappages_loop_step [OF 0(1,2) this w]
  show ?case
  proof (cases "pte = 0")
    case True
    then show ?thesis using s(1) w mapped_to_refl [OF 0(1)] maps_0
      by (intro exI [of _ False] exI [of _ k] exI [of _ 0]) (simp add: Let_def)
  next
    case False
    then show ?thesis using s(2) [OF False, of pa perm] w
      by (intro exI [of _ True] exI [of _ "k1\<lparr>memory := store32 (memory k1) pte (pa OR perm OR PTE_P)\<rparr>"] exI [of _ 1]) (simp add: Let_def)
  qed
next
  case (Suc n)
  obtain pte k1 where w: "walkpgdir k pgdir a True = (pte, k1)" by fastforce
  have "PGROUNDDOWN a = a" using Suc.prems(2) by (simp add: aligned_def PGROUNDDOWN_self)
  then have "translate (memory k) pgdir a = None" using Suc.prems(4) [of a] by simp
  note s = mappages_loop_step [OF Suc.prems(1,2) this w]
  show ?case
  proof (cases "pte = 0")
    case True
    then show ?thesis using s(1) w mapped_to_refl [OF Suc.prems(1)] maps_0
      by (intro exI [of _ False] exI [of _ k] exI [of _ 0]) (simp add: Let_def)
  next
    case False
    define k2 where "k2 = k1\<lparr>memory := store32 (memory k1) pte (pa OR perm OR PTE_P)\<rparr>"
    have k2: "load32 (memory k1) pte AND PTE_P = 0" "mapped_to kend k pgdir k2"
      "maps a 1 pa perm (translate (memory k) pgdir) (translate (memory k2) pgdir)" using s(2) [OF False, of pa perm] by (auto simp: k2_def)
    have un: "translate (memory k2) pgdir v = None" if v: "off (a + 4096) (PGROUNDDOWN v) < 4096 * Suc n" for v
    proof -
      have "off (a + 4096) a = 2 ^ 32 - 4096" by (simp add: off_def)
      then have "PGROUNDDOWN v \<noteq> a" using v Suc.prems(3) by auto
      note n = next_page [OF Suc.prems(2) aligned_PGROUNDDOWN this]
      then show ?thesis using k2(3) Suc.prems(4) [of v] v by (simp add: maps_def)
    qed
    have "pt_ok kend k2 pgdir" using k2(2) by (simp add: mapped_to_def)
    moreover have "aligned (a + 4096)" by (rule aligned_next [OF Suc.prems(2)])
    ultimately obtain ok k' j where l: "mappages_loop pgdir perm n (a + 4096) (pa + 4096) k2 = Ok (ok, k')" "mapped_to kend k2 pgdir k'"
      "maps (a + 4096) j (pa + 4096) perm (translate (memory k2) pgdir) (translate (memory k') pgdir)"
      "if ok then j = Suc n else j \<le> n \<and> kmem_avail k' = {}"
      using Suc.IH [of k2 "a + 4096" "pa + 4096"] Suc.prems(3) un by auto
    have "j < 1048576" using l(4) Suc.prems(3) by (auto split: if_splits)
    from maps_Suc [OF k2(3) l(3) Suc.prems(2) this] mapped_to_trans [OF k2(2) l(2)] l(1,4) w False k2(1)
    show ?thesis by (intro exI [of _ ok] exI [of _ k'] exI [of _ "Suc j"]) (auto simp: k2_def Let_def)
  qed
qed

text \<open>C5. \<open>mappages\<close> does what it is asked for and nothing else.  On a well-formed page directory in which no page of the range
  is mapped, it never panics; if it succeeds, every address of the range translates to the frame it was asked for with the
  permissions it was asked for, and every other address translates as before; if it fails, the allocator is exhausted and
  an initial part of the range is mapped.  In both cases the page directory stays well formed, pages only leave the free
  list, and no byte outside the pages of the directory is touched.\<close>

theorem mappages_translates:
  assumes "pt_ok kend k pgdir"
    and "\<forall>v. off (PGROUNDDOWN va) (PGROUNDDOWN v) \<le> off (PGROUNDDOWN va) (PGROUNDDOWN (va + sz - 1)) \<longrightarrow> translate (memory k) pgdir v = None"
  shows "\<exists>ok k' n. mappages k pgdir va sz pa perm = Ok (ok, k') \<and> pt_ok kend k' pgdir \<and> kmem_avail k' \<subseteq> kmem_avail k \<and>
     (\<forall>x. PGROUNDDOWN x \<notin> pt_pages (memory k') pgdir \<longrightarrow> memory k' x = memory k x) \<and>
     (\<forall>v. translate (memory k') pgdir v =
        (if off (PGROUNDDOWN va) (PGROUNDDOWN v) < n then Some ((pa + (PGROUNDDOWN v - PGROUNDDOWN va)) OR perm OR PTE_P)
         else translate (memory k) pgdir v)) \<and>
     (if ok then n = off (PGROUNDDOWN va) (PGROUNDDOWN (va + sz - 1)) + 4096
      else n \<le> off (PGROUNDDOWN va) (PGROUNDDOWN (va + sz - 1)) \<and> kmem_avail k' = {})"
proof -
  let ?a = "PGROUNDDOWN va" and ?l = "PGROUNDDOWN (va + sz - 1)"
  define n where "n = unat ((?l - ?a) div 4096)"
  have o: "off ?a ?l = 4096 * n"
  proof -
    have "4096 dvd off ?a ?l" by (rule off_pages) (rule aligned_PGROUNDDOWN)+
    then show ?thesis by (simp add: n_def off_def unat_div_distrib)
  qed
  have n: "n < 1048576" using off_less [of ?a ?l] unfolding o by simp
  have un: "translate (memory k) pgdir v = None" if "off ?a (PGROUNDDOWN v) < 4096 * Suc n" for v
  proof -
    have "4096 dvd off ?a (PGROUNDDOWN v)" by (rule off_pages) (rule aligned_PGROUNDDOWN)+
    then have "off ?a (PGROUNDDOWN v) \<le> off ?a ?l" using that unfolding o by auto
    then show ?thesis using assms(2) by blast
  qed
  obtain ok k' j where r: "mappages_loop pgdir perm n ?a pa k = Ok (ok, k')" "mapped_to kend k pgdir k'"
    "maps ?a j pa perm (translate (memory k) pgdir) (translate (memory k') pgdir)"
    "if ok then j = Suc n else j \<le> n \<and> kmem_avail k' = {}"
    using mappages_loop_spec [OF assms(1) aligned_PGROUNDDOWN n un] by blast
  have "mappages k pgdir va sz pa perm = Ok (ok, k')" using r(1) by (simp add: mappages_def Let_def n_def)
  then show ?thesis using r(2,3,4)
    by (intro exI [of _ ok] exI [of _ k'] exI [of _ "4096 * j"]) (auto simp: mapped_to_def maps_def o)
qed

definition one_page :: kmem where
  "one_page = \<lparr>memory = \<lambda>_. 0, use_lock = True, freelist = 0x80300000\<rparr>"

lemma one_page_ok: "pt_ok 0x80110000 one_page 0x80200000" "translate (memory one_page) 0x80200000 v = None" "kmem_avail one_page = {0x80300000}"
proof -
  have l: "kmem_list 0x80110000 one_page [0x80300000]"
    by (simp add: one_page_def kmem_list_def page_ok_def V2P_def load32_def join32_def)
  then have i: "kmem_inv 0x80110000 one_page" by (auto simp: kmem_inv_def)
  show a: "kmem_avail one_page = {0x80300000}" using kmem_avail_list [OF l] by simp
  have e: "entry (memory one_page) p j = 0" for p j by (simp add: one_page_def entry_def load32_def join32_def)
  show "translate (memory one_page) 0x80200000 v = None" by (simp add: translate_def e)
  show "pt_ok 0x80110000 one_page 0x80200000" using i
    by (simp add: pt_ok_def a table_def e page_ok_def V2P_def)
qed

lemma one_page_maps: "\<exists>k'. mappages one_page 0x80200000 0x1234 1 0x5000 6 = Ok (True, k')"
proof -
  obtain pte k1 where w: "walkpgdir one_page 0x80200000 0x1000 True = (pte, k1)" by fastforce
  have "pte \<noteq> 0" using walk_alloc [OF one_page_ok(1) w] one_page_ok(3) by auto
  moreover have "aligned 0x1000" by (simp add: aligned_def)
  ultimately have "load32 (memory k1) pte AND PTE_P = 0" using map_one(1) [OF one_page_ok(1) w _ one_page_ok(2)] by blast
  moreover have "PGROUNDDOWN 0x1234 = 0x1000" by (simp add: PGROUNDDOWN_def)
  ultimately show ?thesis using w \<open>pte \<noteq> 0\<close> by (simp add: mappages_def Let_def)
qed

theorem mappages_translates_witness:
  "\<exists>k'. mappages one_page 0x80200000 0x1234 1 0x5000 6 = Ok (True, k') \<and>
     translate (memory k') 0x80200000 0x1ABC = Some 0x5007 \<and> translate (memory k') 0x80200000 0x2000 = None"
proof -
  obtain k' where k': "mappages one_page 0x80200000 0x1234 1 0x5000 6 = Ok (True, k')" using one_page_maps by blast
  have p: "PGROUNDDOWN 0x1234 = 0x1000" "PGROUNDDOWN 0x1ABC = 0x1000" "PGROUNDDOWN 0x2000 = 0x2000" by (simp_all add: PGROUNDDOWN_def)
  have "\<forall>v. translate (memory k') 0x80200000 v =
      (if off 0x1000 (PGROUNDDOWN v) < 4096 then Some ((0x5000 + (PGROUNDDOWN v - 0x1000)) OR 6 OR PTE_P) else None)"
    using mappages_translates [OF one_page_ok(1), of "0x1234" 1 "0x5000" 6] k' by (auto simp: one_page_ok(2) p)
  then have "translate (memory k') 0x80200000 0x1ABC = Some 0x5007" "translate (memory k') 0x80200000 0x2000 = None"
    by (simp_all add: p off_def)
  then show ?thesis using k' by blast
qed

end
