(* ===== verification/VmLoops.thy ===== *)
theory VmLoops
  imports VmMap
begin

text \<open>
  The loops of \<open>vm.c\<close> over the pages of an address space end: the addresses they step through never
  wrap around.  In the model a wrap-around, after which the loop of the source would start over at
  address 0, is the value \<open>Undef\<close>.
\<close>

unbundle bit_operations_syntax

section \<open>Results that are defined\<close>

definition defined :: "'a res \<Rightarrow> bool" where
  "defined r \<longleftrightarrow> (\<forall>e. r \<noteq> Undef e)"

lemma defined_simps [simp]: "defined (Ok x)" "defined (Panic e)" "defined (Blocks c)" "\<not> defined (Undef u)"
  by (simp_all add: defined_def)

lemma defined_bindr [intro!]: "defined m \<Longrightarrow> (\<And>x. m = Ok x \<Longrightarrow> defined (f x)) \<Longrightarrow> defined (bindr m f)"
  by (cases m) auto

lemma defined_for_each: "(\<And>x s. defined (f x s)) \<Longrightarrow> defined (for_each f xs s)"
  by (induction xs arbitrary: s) auto

lemma defined_kfree [simp]: "defined (kfree kend k v)"
  by (simp add: kfree_def Let_def)

lemma defined_mappages_loop: "defined (mappages_loop pgdir perm n a pa k)"
  by (induction n arbitrary: a pa k) (auto simp: Let_def case_prod_beta)

lemma defined_mappages [simp]: "defined (mappages k pgdir va sz pa perm)"
  by (simp add: mappages_def Let_def defined_mappages_loop)

section \<open>The loops\<close>

lemma page_step: "a < KERNBASE \<Longrightarrow> \<not> a + PGSIZE \<le> (a :: u32)"
proof -
  assume "a < KERNBASE"
  then have "unat (a + 4096) = unat a + 4096" by (simp add: word_less_nat_alt unat_word_ariths)
  then show ?thesis by (simp add: word_le_nat_alt)
qed

lemma table_step:
  assumes "a < KERNBASE"
  shows "\<not> PGADDR (PDX a + 1) 0 0 - PGSIZE + PGSIZE \<le> a"
proof -
  have a: "unat a < 2147483648" using assms by (simp add: word_less_nat_alt)
  have p: "unat (PDX a) = unat a div 4194304" by (rule unat_PDX)
  then have "unat (PDX a) < 512" using a by simp
  then have "unat (PDX a + 1) = unat (PDX a) + 1" by (simp add: unat_word_ariths)
  moreover have "PGADDR (PDX a + 1) 0 0 = (PDX a + 1) * 4194304" by (simp add: PGADDR_def push_bit_eq_mult)
  ultimately have "unat (PGADDR (PDX a + 1) 0 0) = (unat a div 4194304 + 1) * 4194304"
    using p \<open>unat (PDX a) < 512\<close> by (simp add: unat_word_ariths)
  moreover have "unat a < (unat a div 4194304 + 1) * 4194304" by (simp add: div_less_iff_less_mult [symmetric])
  ultimately show ?thesis by (simp add: word_le_nat_alt not_le)
qed

lemma deallocuvm_loop_defined: "oldsz \<le> KERNBASE \<Longrightarrow> defined (deallocuvm_loop kend pgdir oldsz a k)"
proof (induction "2 ^ 32 - unat a" arbitrary: a k rule: less_induct)
  case less
  have ih: "defined (deallocuvm_loop kend pgdir oldsz b k')" if "\<not> b \<le> a" for b k'
    using less(1) [of b k'] less(2) that by (simp add: not_le word_less_nat_alt diff_less_mono2)
  show ?case
  proof (cases "a < oldsz")
    case True
    then have a: "a < KERNBASE" using less(2) by (rule order.strict_trans2)
    obtain pte k' where w: "walkpgdir k pgdir a False = (pte, k')" by fastforce
    have next_page: "defined (if a' + PGSIZE \<le> a then Undef m else deallocuvm_loop kend pgdir oldsz (a' + PGSIZE) k2)"
      if "a' = a \<or> a' = PGADDR (PDX a + 1) 0 0 - PGSIZE" for a' m k2
      using that page_step [OF a] table_step [OF a] ih [of "a' + PGSIZE" k2] by auto
    show ?thesis
      unfolding deallocuvm_loop.simps [of kend pgdir oldsz a k] Let_def w prod.case if_P [OF True]
    proof (intro defined_bindr)
      fix x
      assume "(if pte = 0 then Ok (PGADDR (PDX a + 1) 0 0 - PGSIZE, k')
        else if load32 (memory k') pte AND PTE_P \<noteq> 0
             then if PTE_ADDR (load32 (memory k') pte) = 0 then Panic ''kfree''
                  else bindr (kfree kend k' (P2V (PTE_ADDR (load32 (memory k') pte)))) (\<lambda>k. Ok (a, k\<lparr>memory := store32 (memory k) pte 0\<rparr>))
             else Ok (a, k')) = Ok x"
      then have "fst x = a \<or> fst x = PGADDR (PDX a + 1) 0 0 - PGSIZE" by (auto split: if_splits)
      then show "defined (case x of (a', k) \<Rightarrow>
          if a' + PGSIZE \<le> a then Undef ''address wraps around'' else deallocuvm_loop kend pgdir oldsz (a' + PGSIZE) k)"
        unfolding case_prod_beta by (rule next_page)
    qed auto
  qed (simp add: deallocuvm_loop.simps)
qed

lemma deallocuvm_defined: "oldsz \<le> KERNBASE \<Longrightarrow> defined (deallocuvm kend k pgdir oldsz newsz)"
  by (auto simp: deallocuvm_def deallocuvm_loop_defined)

lemma freevm_defined [simp]: "defined (freevm kend k pgdir)"
  by (auto simp: freevm_def deallocuvm_defined Let_def intro!: defined_for_each)

lemma setupkvm_defined [simp]: "defined (setupkvm kend kdata k)"
proof -
  have "defined (setupkvm_loop kend pgdir es k)" for pgdir es k
    by (induction es arbitrary: k) (auto split: prod.split)
  then show ?thesis by (simp add: setupkvm_def Let_def case_prod_beta)
qed

lemma allocuvm_loop_defined:
  "newsz < KERNBASE \<Longrightarrow> defined (allocuvm_loop kend pgdir oldsz newsz a k)"
proof (induction "2 ^ 32 - unat a" arbitrary: a k rule: less_induct)
  case less
  have ih: "defined (allocuvm_loop kend pgdir oldsz newsz b k')" if "\<not> b \<le> a" for b k'
    using less(1) [of b k'] less(2) that by (simp add: not_le word_less_nat_alt diff_less_mono2)
  have d: "defined (deallocuvm kend k' pgdir newsz oldsz)" for k' using less(2) by (intro deallocuvm_defined) simp
  show ?case
  proof (cases "a < newsz")
    case True
    then have a: "\<not> a + PGSIZE \<le> a" using less(2) by (intro page_step) (rule order.strict_trans)
    show ?thesis
      unfolding allocuvm_loop.simps [of kend pgdir oldsz newsz a k] Let_def case_prod_beta if_P [OF True]
      using a ih [OF a] d by auto
  qed (simp add: allocuvm_loop.simps)
qed

lemma copyuvm_loop_defined: "sz \<le> KERNBASE \<Longrightarrow> defined (copyuvm_loop kend pgdir d sz i k)"
proof (induction "2 ^ 32 - unat i" arbitrary: i k rule: less_induct)
  case less
  have ih: "defined (copyuvm_loop kend pgdir d sz b k')" if "\<not> b \<le> i" for b k'
    using less(1) [of b k'] less(2) that by (simp add: not_le word_less_nat_alt diff_less_mono2)
  show ?case
  proof (cases "i < sz")
    case True
    then have a: "\<not> i + PGSIZE \<le> i" using less(2) by (intro page_step) (rule order.strict_trans2)
    show ?thesis
      unfolding copyuvm_loop.simps [of kend pgdir d sz i k] Let_def case_prod_beta if_P [OF True]
      using a ih [OF a] by auto
  qed (simp add: copyuvm_loop.simps)
qed

text \<open>C22. The loops over an address space end.  For sizes up to \<open>KERNBASE\<close>, and whatever the page tables hold, growing, shrinking
  and copying an address space never step past the top of the 32-bit range, where the loops of the source would start over;
  freeing one never does, and growing refuses larger sizes by itself.\<close>

theorem vm_loops_end:
  "(oldsz \<le> KERNBASE \<longrightarrow> deallocuvm kend k pgdir oldsz newsz \<noteq> Undef e) \<and> allocuvm kend k pgdir oldsz newsz \<noteq> Undef e \<and>
   (sz \<le> KERNBASE \<longrightarrow> copyuvm kend kdata k pgdir sz \<noteq> Undef e) \<and> freevm kend k pgdir \<noteq> Undef e"
proof (intro conjI impI)
  show "oldsz \<le> KERNBASE \<Longrightarrow> deallocuvm kend k pgdir oldsz newsz \<noteq> Undef e"
    using deallocuvm_defined by (simp add: defined_def)
  have "defined (allocuvm kend k pgdir oldsz newsz)" by (simp add: allocuvm_def allocuvm_loop_defined)
  then show "allocuvm kend k pgdir oldsz newsz \<noteq> Undef e" by (simp add: defined_def)
  have "sz \<le> KERNBASE \<Longrightarrow> defined (copyuvm kend kdata k pgdir sz)" by (auto simp: copyuvm_def copyuvm_loop_defined)
  then show "sz \<le> KERNBASE \<Longrightarrow> copyuvm kend kdata k pgdir sz \<noteq> Undef e" by (simp add: defined_def)
  show "freevm kend k pgdir \<noteq> Undef e" using freevm_defined by (simp add: defined_def)
qed

theorem vm_loops_end_witness:
  "deallocuvm 0x80110000 \<lparr>memory = \<lambda>_. 0, use_lock = True, freelist = 0\<rparr> 0x80200000 0x80000000 0 \<noteq> Undef ''address wraps around''"
  using vm_loops_end [of "0x80000000"] by simp

end
