(* ===== verification/Spec2Isabelle.thy ===== *)
theory Spec2Isabelle
  imports Descriptors Exec FsInode Grep Ide Net ProcTable Programs Shell Spinlock Trap Umalloc VmLoops
begin

text \<open>
  A verification library for xv6 with a network stack up to the Ethernet layer: a small multiprocessor
  Unix kernel for the 32-bit x86 (processes, virtual memory, a logging file system on a disk, pipes,
  system calls), a driver for the Intel e1000 card found over the PCI bus, and an ARP request system call
  on top of it; and the user programs: the shell, the user library with its allocator, and small commands.

  \<^bold>\<open>Conventions.\<close>  The definitions follow the C functions of the same names, in the order of the source.  A
  C integer of \<open>w\<close> bits is a \<open>w word\<close>; a structure is a record; kernel memory that the code addresses byte
  by byte (page tables, the free list, descriptor rings, stacks) is a function from addresses to bytes,
  while tables the code only indexes (buffers, inodes, open files, processes) are functions or lists by
  index.  A routine that can fail returns \<open>'a res\<close>: \<open>Ok\<close>, \<open>Panic\<close> with the message of \<open>panic\<close>, \<open>Blocks\<close> where it
  would sleep or spin, and \<open>Undef\<close> where C gives no meaning (an index out of range, a null pointer followed, an
  address that wraps around in a loop).  State is passed explicitly, in open records that extend each other:
  \<open>bstate\<close> (disk and buffers), \<open>lstate\<close> (log), \<open>fstate\<close> (inodes), \<open>filestate\<close> (open files, pipes, pages),
  \<open>kstate\<close> (processes); and \<open>netstate\<close>, \<open>nicstate\<close> for the network.  Hardware, the linker's symbols and the
  assembly files are parameters, with their documented behaviour as named hypotheses where a theorem needs
  it (\<open>healthy_disk\<close>, \<open>transmits\<close>, \<open>config_ports\<close>, \<open>kernel_grows\<close>); each such theorem has a witness on a concrete instance.

  \<^bold>\<open>The theories.\<close>
  \<^item> \<open>Prelude\<close>: machine words, results, little-endian encodings, byte memory.  \<open>CString\<close>: \<open>string.c\<close>,
    \<open>util.c\<close>.  \<open>Mmu\<close>: the address macros of \<open>mmu.h\<close> and \<open>memlayout.h\<close>.
  \<^item> Memory: \<open>Kalloc\<close> (\<open>kalloc.c\<close>, with the contract \<open>page_allocator\<close>), \<open>Vm\<close> (\<open>vm.c\<close>), \<open>VmMap\<close> (what page
    tables translate), \<open>VmLoops\<close> (the loops over address spaces end), \<open>Segment\<close> (segments, task state and
    interrupt gates).
  \<^item> Disk: \<open>Sleeplock\<close>, \<open>Memide\<close> (\<open>memide.c\<close>, \<open>buf.h\<close>), \<open>Ide\<close> (\<open>ide.c\<close>, shown to implement the memory
    disk), \<open>Bio\<close> (\<open>bio.c\<close>, with the contract \<open>buffer_cache\<close>).
  \<^item> File system: \<open>Layout\<close> (the on-disk formats of \<open>fs.h\<close>), \<open>Log\<close>, \<open>LogCrash\<close>, \<open>LogOps\<close> (\<open>log.c\<close>: the code,
    crashes, concurrent operations), \<open>Fs\<close> (\<open>fs.c\<close>), \<open>FsBlocks\<close> and \<open>FsInode\<close> (block allocation, inodes), \<open>File\<close>
    (\<open>file.c\<close>), \<open>Pipe\<close> (\<open>pipe.c\<close>, with the contract \<open>bounded_queue\<close>), \<open>Sysfile\<close> (\<open>sysfile.c\<close>), \<open>Descriptors\<close>.
  \<^item> Processes: \<open>Spinlock\<close> (\<open>spinlock.c\<close>), \<open>Proc\<close> (\<open>proc.c\<close>), \<open>ProcTable\<close> (the process table under
    concurrency), \<open>Syscall\<close> (\<open>syscall.c\<close>), \<open>Exec\<close> (\<open>exec.c\<close>, \<open>elf.h\<close>), \<open>Trap\<close> (\<open>trap.c\<close>, \<open>sysproc.c\<close>).
  \<^item> Network: \<open>Pci\<close> (\<open>pci.c\<close>, \<open>pciregisters.h\<close>), \<open>E1000\<close> (\<open>e1000.c\<close>), \<open>ArpFrame\<close> (\<open>arp_frame.c\<close>), \<open>Net\<close>
    (\<open>nic.c\<close>, the bus walk of \<open>pci.c\<close>, \<open>arp.c\<close>, \<open>sysarp.c\<close>).
  \<^item> User programs: \<open>Grep\<close> (\<open>grep.c\<close>), \<open>Printf\<close> (\<open>printf.c\<close>, and \<open>printint\<close> and \<open>cprintf\<close> of \<open>console.c\<close>), \<open>Uproc\<close>
    (\<open>ulib.c\<close>; a program as a tree of system calls and what it does with their answers), \<open>Programs\<close> (\<open>cat.c\<close>,
    \<open>wc.c\<close>, \<open>ls.c\<close>, \<open>init.c\<close> and the other small commands), \<open>ShellParse\<close>, \<open>ShellPrint\<close>, \<open>Shell\<close> (\<open>sh.c\<close>: the parser,
    what it does on printed commands, running them), \<open>Umalloc\<close> (\<open>umalloc.c\<close>).

  \<^bold>\<open>Concurrency.\<close>  The functions of the kernel are modelled as one thread runs them.  Where interleaving matters,
  a step relation is defined on top of them and the properties hold of every reachable state: spin locks on
  several processors (\<open>lock_step\<close>), readers and writers of a pipe (\<open>pipe_step\<close>), concurrent file system
  operations on the log (\<open>op_run\<close>), and the process table (\<open>proc_step\<close>).  A crash is a cut of the sequence of
  block writes that the disk has performed (\<open>LogCrash\<close>).

  \<^bold>\<open>What is shown.\<close>
  \<^item> Storage: a transaction is atomic under a crash at any point; the log has room for what is admitted, and
    operations that write more than they reserve overflow it; \<open>bread\<close> and the LRU policy of the cache; the
    interrupt-driven disk driver implements the memory disk; block allocation and inode update are exact and
    the inode cache never holds an inode twice.
  \<^item> Memory: the page allocator gives out each page once, and each of its two initialisers adds exactly its pages;
    \<open>mappages\<close> makes the page table translate as asked and nothing else; the loops over address spaces end.
  \<^item> Processes: mutual exclusion of spin locks and nesting of \<open>pushcli\<close>; the process table invariant, with no
    lost exit; fairness of the scheduler; arguments of system calls are accepted exactly when they lie inside the process; user code can use
    only one interrupt gate; descriptors are reference counted exactly by \<open>dup\<close> and \<open>close\<close>; pipes are first in
    first out and, but for one path, lose no wakeup.
  \<^item> Network: probing finds the regions of a device and leaves it as it was; the driver's memory is laid out
    without overlap and the card runs on its ring; an ARP request is handed to the card byte for byte; address
    texts round-trip.
  \<^item> User programs: the matcher of \<open>grep\<close> decides the language of the pattern, and its line loop prints the lines
    that match; \<open>wc\<close> and \<open>cat\<close> do not depend on how their input is cut into reads; \<open>atoi\<close> reads printed numbers
    back; the shell's parser ends on every line, inverts the printing of commands, and the programs of a command get
    exactly the descriptors it prescribes; blocks from \<open>malloc\<close> never overlap.
  \<^item> Deviations found on the way are theorems too: they say exactly when the code does something else than it
    means to.

  \<^bold>\<open>Bounds.\<close>  In the kernel no fuel is used: loops are structural recursion or functions with a termination proof, and
  those that follow memory or links until a condition holds (\<open>strlen\<close>, the end of the disk queue, \<open>free_place\<close> and
  \<open>malloc_loop\<close> of the allocator) are partial functions whose value is shown to exist where the theorems use them.  The
  parser of the shell takes fuel, four times the length of the line and four more, which \<open>parsecmd_strings\<close> shows to be
  enough for every line; the main loops of user programs take fuel too, one unit for each read, and the theorems say
  how much is enough.  The table sizes are those of \<open>param.h\<close>.

  \<^bold>\<open>Not modelled.\<close>  The assembly files (boot, traps, \<open>swtch\<close>) and the context switch itself: the scheduler model
  ends where \<open>swtch\<close> is called.  \<open>main.c\<close>, which calls the initialisers in order, and \<open>bootmain.c\<close>.  The interrupt
  controllers, multiprocessor tables, keyboard and serial port (\<open>lapic.c\<close>, \<open>ioapic.c\<close>, \<open>picirq.c\<close>, \<open>mp.c\<close>, \<open>kbd.c\<close>,
  \<open>uart.c\<close>): sequences of device register accesses without a result the rest depends on.  Of \<open>console.c\<close> the line
  discipline and the screen.  The host tool \<open>mkfs.c\<close>, of whose disk layout only the size of the log is used, and the
  test program \<open>usertests.c\<close>.
\<close>

unbundle bit_operations_syntax

section \<open>Properties that span components\<close>

text \<open>
  C33. The network card's interrupt is switched on and never handled.  Bringing the card up unmasks its
  transmit and receive interrupts and routes its line to both processors, but \<open>trap\<close> has no case for any
  line except those of the timer, the keyboard, the serial port, the disk and the spurious ones: when the
  card interrupts the kernel, the machine panics, and when it interrupts a user program, that program is
  killed.
\<close>

theorem nic_interrupt_unhandled:
  assumes "line e \<notin> {0, 1, 4, 7, 14, 15, 31, 32}" "line e < 224"
  shows "Mmio (membase e + 0xd0) 0xCA \<in> set (events (start_card e s)) \<and>
    Ioapicenable (line e) 0 \<in> set (events (start_card e s)) \<and> Ioapicenable (line e) 1 \<in> set (events (start_card e s)) \<and>
    (cs AND 3 = 0 \<longrightarrow> trap sysc handler cpu tf (32 + ucast (line e)) cs st = Panic ''trap'') \<and>
    (cs AND 3 \<noteq> 0 \<and> curproc st \<noteq> None \<longrightarrow>
       trap_switch handler cpu (32 + ucast (line e)) cs st = Ok (st\<lparr>killed := True\<rparr>))"
proof (intro conjI impI)
  show "Mmio (membase e + 0xd0) 0xCA \<in> set (events (start_card e s))"
    "Ioapicenable (line e) 0 \<in> set (events (start_card e s))" "Ioapicenable (line e) 1 \<in> set (events (start_card e s))"
    by (simp_all add: start_card_def ring_registers_def e1000_reg_write_def Let_def)
  have inj: "(32 + ucast (line e) :: u32) = 32 + w \<longleftrightarrow> ucast (line e) = w" for w by simp
  have n: "(ucast (line e) :: u32) \<notin> {0, 1, 4, 7, 14, 15, 31, 32}"
    using assms(1) by (auto simp: word_unat_eq_iff)
  have t: "trap_switch handler cpu (32 + ucast (line e)) cs st =
      (if curproc st = None \<or> cs AND 3 = 0 then Panic ''trap'' else Ok (st\<lparr>killed := True\<rparr>))"
    using n by (simp add: trap_switch_def add.commute [of 32])
  show "trap_switch handler cpu (32 + ucast (line e)) cs st = Ok (st\<lparr>killed := True\<rparr>)"
    if "cs AND 3 \<noteq> 0 \<and> curproc st \<noteq> None" using that t by simp
  assume "cs AND 3 = 0"
  moreover have "(32 + ucast (line e) :: u32) \<noteq> 64" using n inj [of 32] by simp
  ultimately show "trap sysc handler cpu tf (32 + ucast (line e)) cs st = Panic ''trap''" by (simp add: trap_def t)
qed

theorem nic_interrupt_unhandled_witness:
  "Ioapicenable 11 0 \<in> set (events (start_card some_driver \<lparr>kpool = \<lparr>memory = \<lambda>_. 0, use_lock = True, freelist = 0\<rparr>, events = []\<rparr>)) \<and>
   (\<forall>sysc handler (st :: kstate). trap sysc handler 0 0 43 8 st = Panic ''trap'')"
proof -
  have l: "line some_driver = 11" by (simp add: some_driver_def)
  then have h: "line some_driver \<notin> {0, 1, 4, 7, 14, 15, 31, 32}" "line some_driver < 224" by simp_all
  define s0 where "s0 = \<lparr>kpool = \<lparr>memory = \<lambda>_. 0, use_lock = True, freelist = 0\<rparr>, events = []\<rparr>"
  have "Ioapicenable 11 0 \<in> set (events (start_card some_driver s0)) \<and> trap sysc handler 0 0 43 8 st = Panic ''trap''"
    for sysc handler and st :: kstate
    using nic_interrupt_unhandled [OF h, where s = s0 and cs = 8 and cpu = 0 and tf = 0 and st = st and sysc = sysc and handler = handler]
    by (simp add: l)
  then show ?thesis unfolding s0_def by blast
qed

end
